(* ===== verification/Koe_Prelude.thy ===== *)
theory Koe_Prelude
  imports Main "HOL-Library.Word" "HOL-Library.Code_Target_Nat"
begin

text \<open>
  Shared vocabulary of the koe-os development.

  The kernel is built by \<^verbatim>\<open>cargo build\<close> (the Makefile), that is with overflow checks and
  debug assertions on and \<^verbatim>\<open>panic = "abort"\<close>.  A Rust function is therefore modelled as a
  function into \<open>'a res\<close>: either a panic, with the reason, or the value returned.  A Rust
  \<^verbatim>\<open>usize\<close> is a \<open>nat\<close> below \<open>2 ^ 64\<close>, with every addition, subtraction and multiplication of
  the source written as a checked operation below; bit-packed data (page table entries,
  descriptors, text cells) are words.  The operations of the Rust core library that the kernel
  calls (\<^verbatim>\<open>checked_add\<close>, \<^verbatim>\<open>next_multiple_of\<close>, \<^verbatim>\<open>next_power_of_two\<close>, \<^verbatim>\<open>ilog2\<close>,
  \<^verbatim>\<open>leading_zeros\<close>, \<^verbatim>\<open>trailing_zeros\<close>, \<^verbatim>\<open>div_ceil\<close>, the \<^verbatim>\<open>Layout\<close> type) are defined here
  with their documented behaviour.
\<close>

unbundle bit_operations_syntax

section \<open>Panics and results\<close>

datatype panic =
    Overflow          \<comment> \<open>arithmetic overflow, in a build with overflow checks\<close>
  | DivByZero         \<comment> \<open>division or remainder by zero\<close>
  | AssertFailed      \<comment> \<open>assert! or debug_assert!\<close>
  | IndexOutOfBounds  \<comment> \<open>slice or array index\<close>
  | ExpectFailed      \<comment> \<open>unwrap or expect on None or Err\<close>
  | CapacityExceeded  \<comment> \<open>push or insert on a full ArrayVec\<close>
  | UnreachableCode   \<comment> \<open>unreachable! or panic!\<close>
  | NotImplemented    \<comment> \<open>todo! or unimplemented!\<close>

type_synonym 'a res = "panic + 'a"

definition rbind :: "'a res \<Rightarrow> ('a \<Rightarrow> 'b res) \<Rightarrow> 'b res" where
  "rbind m f = (case m of Inl e \<Rightarrow> Inl e | Inr x \<Rightarrow> f x)"

definition rassert :: "bool \<Rightarrow> unit res" where
  "rassert b = (if b then Inr () else Inl AssertFailed)"

definition rexpect :: "'a option \<Rightarrow> 'a res" where
  "rexpect x = (case x of None \<Rightarrow> Inl ExpectFailed | Some y \<Rightarrow> Inr y)"

text \<open>A \<^verbatim>\<open>for\<close> loop over a list of items, threading the state it mutates.\<close>

fun rfold :: "('a \<Rightarrow> 's \<Rightarrow> 's res) \<Rightarrow> 'a list \<Rightarrow> 's \<Rightarrow> 's res" where
  "rfold f [] s = Inr s"
| "rfold f (x # xs) s = rbind (f x s) (rfold f xs)"

fun rmap :: "('a \<Rightarrow> 'b res) \<Rightarrow> 'a list \<Rightarrow> 'b list res" where
  "rmap f [] = Inr []"
| "rmap f (x # xs) = rbind (f x) (\<lambda>y. rbind (rmap f xs) (\<lambda>ys. Inr (y # ys)))"

lemma rbind_Inr [simp]: "rbind (Inr x) f = f x"
  by (simp add: rbind_def)

lemma rbind_Inl [simp]: "rbind (Inl e) f = Inl e"
  by (simp add: rbind_def)

lemma rbind_eq_Inr_iff: "rbind m f = Inr y \<longleftrightarrow> (\<exists>x. m = Inr x \<and> f x = Inr y)"
  by (cases m) simp_all

lemma rbind_eq_Inl_iff: "rbind m f = Inl e \<longleftrightarrow> m = Inl e \<or> (\<exists>x. m = Inr x \<and> f x = Inl e)"
  by (cases m) auto

lemma rbind_assoc: "rbind (rbind m f) g = rbind m (\<lambda>x. rbind (f x) g)"
  by (cases m) simp_all

lemma rbind_cong [fundef_cong]:
  "m = m' \<Longrightarrow> (\<And>x. m' = Inr x \<Longrightarrow> f x = f' x) \<Longrightarrow> rbind m f = rbind m' f'"
  by (cases m') simp_all

lemma rassert_True [simp]: "b \<Longrightarrow> rassert b = Inr ()"
  by (simp add: rassert_def)

lemma rassert_False [simp]: "\<not> b \<Longrightarrow> rassert b = Inl AssertFailed"
  by (simp add: rassert_def)

lemma rassert_eq_Inr_iff: "rassert b = Inr u \<longleftrightarrow> b"
  by (simp add: rassert_def)

lemma rexpect_simps [simp]: "rexpect (Some x) = Inr x" "rexpect None = Inl ExpectFailed"
  by (simp_all add: rexpect_def)

lemma rexpect_eq_Inr_iff: "rexpect v = Inr x \<longleftrightarrow> v = Some x"
  by (cases v) simp_all

named_theorems res_iffs \<open>when an operation returns normally\<close>

declare rbind_eq_Inr_iff [res_iffs] rassert_eq_Inr_iff [res_iffs] rexpect_eq_Inr_iff [res_iffs]

lemma rfold_append: "rfold f (xs @ ys) s = rbind (rfold f xs s) (rfold f ys)"
proof (induction xs arbitrary: s)
  case (Cons x xs)
  then show ?case by (cases "f x s") simp_all
qed simp

lemma rfold_invariant:
  assumes "rfold f xs s = Inr s'" and "P s"
    and "\<And>x t t'. x \<in> set xs \<Longrightarrow> P t \<Longrightarrow> f x t = Inr t' \<Longrightarrow> P t'"
  shows "P s'"
  using assms by (induction xs arbitrary: s) (auto simp: res_iffs)

lemma rmap_total: "(\<And>x. x \<in> set xs \<Longrightarrow> f x = Inr (g x)) \<Longrightarrow> rmap f xs = Inr (map g xs)"
  by (induction xs) simp_all

section \<open>Machine integers\<close>

definition usize_limit :: nat where
  "usize_limit = 2 ^ 64"

definition isize_limit :: int where
  "isize_limit = 2 ^ 63"

lemma limits_code [code]:
  "usize_limit = 18446744073709551616" "isize_limit = 9223372036854775808"
  by (simp_all add: usize_limit_def isize_limit_def)

definition usize_add :: "nat \<Rightarrow> nat \<Rightarrow> nat res" where
  "usize_add a b = (if a + b < usize_limit then Inr (a + b) else Inl Overflow)"

definition usize_sub :: "nat \<Rightarrow> nat \<Rightarrow> nat res" where
  "usize_sub a b = (if b \<le> a then Inr (a - b) else Inl Overflow)"

definition usize_mul :: "nat \<Rightarrow> nat \<Rightarrow> nat res" where
  "usize_mul a b = (if a * b < usize_limit then Inr (a * b) else Inl Overflow)"

definition usize_div :: "nat \<Rightarrow> nat \<Rightarrow> nat res" where
  "usize_div a b = (if b = 0 then Inl DivByZero else Inr (a div b))"

definition usize_rem :: "nat \<Rightarrow> nat \<Rightarrow> nat res" where
  "usize_rem a b = (if b = 0 then Inl DivByZero else Inr (a mod b))"

text \<open>Shifts panic when the amount is not below the width; bits shifted out are lost.\<close>

definition usize_shl :: "nat \<Rightarrow> nat \<Rightarrow> nat res" where
  "usize_shl a n = (if n < 64 then Inr ((a * 2 ^ n) mod usize_limit) else Inl Overflow)"

definition usize_shr :: "nat \<Rightarrow> nat \<Rightarrow> nat res" where
  "usize_shr a n = (if n < 64 then Inr (a div 2 ^ n) else Inl Overflow)"

definition u8_add :: "nat \<Rightarrow> nat \<Rightarrow> nat res" where
  "u8_add a b = (if a + b < 256 then Inr (a + b) else Inl Overflow)"

definition u8_sub :: "nat \<Rightarrow> nat \<Rightarrow> nat res" where
  "u8_sub a b = (if b \<le> a then Inr (a - b) else Inl Overflow)"

definition u16_add :: "nat \<Rightarrow> nat \<Rightarrow> nat res" where
  "u16_add a b = (if a + b < 2 ^ 16 then Inr (a + b) else Inl Overflow)"

definition u16_mul :: "nat \<Rightarrow> nat \<Rightarrow> nat res" where
  "u16_mul a b = (if a * b < 2 ^ 16 then Inr (a * b) else Inl Overflow)"

text \<open>The \<^verbatim>\<open>as isize\<close> and \<^verbatim>\<open>as usize\<close> casts reinterpret the bits.\<close>

definition isize_of :: "nat \<Rightarrow> int" where
  "isize_of n = (if int n < isize_limit then int n else int n - int usize_limit)"

definition usize_of :: "int \<Rightarrow> nat" where
  "usize_of i = nat (i mod int usize_limit)"

definition isize_add :: "int \<Rightarrow> int \<Rightarrow> int res" where
  "isize_add a b =
     (if - isize_limit \<le> a + b \<and> a + b < isize_limit then Inr (a + b) else Inl Overflow)"

definition isize_sub :: "int \<Rightarrow> int \<Rightarrow> int res" where
  "isize_sub a b =
     (if - isize_limit \<le> a - b \<and> a - b < isize_limit then Inr (a - b) else Inl Overflow)"

text \<open>\<^verbatim>\<open>usize::try_from(isize)\<close>.\<close>

definition usize_try_from :: "int \<Rightarrow> nat option" where
  "usize_try_from i = (if 0 \<le> i then Some (nat i) else None)"

definition unwrap_or :: "'a \<Rightarrow> 'a option \<Rightarrow> 'a" where
  "unwrap_or d x = (case x of None \<Rightarrow> d | Some y \<Rightarrow> y)"

definition checked_add :: "nat \<Rightarrow> nat \<Rightarrow> nat option" where
  "checked_add a b = (if a + b < usize_limit then Some (a + b) else None)"

definition checked_sub :: "nat \<Rightarrow> nat \<Rightarrow> nat option" where
  "checked_sub a b = (if b \<le> a then Some (a - b) else None)"

definition opt_filter :: "('a \<Rightarrow> bool) \<Rightarrow> 'a option \<Rightarrow> 'a option" where
  "opt_filter P x = (case x of None \<Rightarrow> None | Some y \<Rightarrow> if P y then Some y else None)"

lemma usize_add_ok [simp]: "a + b < usize_limit \<Longrightarrow> usize_add a b = Inr (a + b)"
  by (simp add: usize_add_def)

lemma usize_sub_ok [simp]: "b \<le> a \<Longrightarrow> usize_sub a b = Inr (a - b)"
  by (simp add: usize_sub_def)

lemma usize_mul_ok [simp]: "a * b < usize_limit \<Longrightarrow> usize_mul a b = Inr (a * b)"
  by (simp add: usize_mul_def)

lemma usize_div_ok [simp]: "0 < b \<Longrightarrow> usize_div a b = Inr (a div b)"
  by (simp add: usize_div_def)

lemma usize_rem_ok [simp]: "0 < b \<Longrightarrow> usize_rem a b = Inr (a mod b)"
  by (simp add: usize_rem_def)

lemma usize_shr_ok [simp]: "n < 64 \<Longrightarrow> usize_shr a n = Inr (a div 2 ^ n)"
  by (simp add: usize_shr_def)

lemma usize_shl_ok [simp]:
  "n < 64 \<Longrightarrow> a * 2 ^ n < usize_limit \<Longrightarrow> usize_shl a n = Inr (a * 2 ^ n)"
  by (simp add: usize_shl_def)

lemma u8_add_ok [simp]: "a + b < 256 \<Longrightarrow> u8_add a b = Inr (a + b)"
  by (simp add: u8_add_def)

lemma u8_sub_ok [simp]: "b \<le> a \<Longrightarrow> u8_sub a b = Inr (a - b)"
  by (simp add: u8_sub_def)

lemma isize_of_small [simp]: "int n < isize_limit \<Longrightarrow> isize_of n = int n"
  by (simp add: isize_of_def)

lemma isize_add_ok [simp]:
  "- isize_limit \<le> a + b \<Longrightarrow> a + b < isize_limit \<Longrightarrow> isize_add a b = Inr (a + b)"
  by (simp add: isize_add_def)

lemma isize_sub_ok [simp]:
  "- isize_limit \<le> a - b \<Longrightarrow> a - b < isize_limit \<Longrightarrow> isize_sub a b = Inr (a - b)"
  by (simp add: isize_sub_def)

lemma usize_of_nat [simp]: "n < usize_limit \<Longrightarrow> usize_of (int n) = n"
  by (simp add: usize_of_def flip: of_nat_mod)

lemma usize_try_from_nat [simp]: "usize_try_from (int n) = Some n"
  by (simp add: usize_try_from_def)

lemma unwrap_or_simps [simp]: "unwrap_or d None = d" "unwrap_or d (Some x) = x"
  by (simp_all add: unwrap_or_def)

lemma opt_filter_simps [simp]:
  "opt_filter P None = None" "opt_filter P (Some x) = (if P x then Some x else None)"
  by (simp_all add: opt_filter_def)

text \<open>The difference of two addresses, as the code computes it through \<^verbatim>\<open>isize\<close>.  Addresses in
  the same half of the 64-bit space subtract to the true difference.\<close>

definition same_half :: "nat \<Rightarrow> nat \<Rightarrow> bool" where
  "same_half a b \<longleftrightarrow> a < usize_limit \<and> b < usize_limit \<and>
     (int a < isize_limit \<longleftrightarrow> int b < isize_limit)"

lemma isize_sub_same_half:
  assumes "same_half a b"
  shows "isize_sub (isize_of a) (isize_of b) = Inr (int a - int b)"
proof -
  have "isize_of a - isize_of b = int a - int b"
    using assms by (auto simp: same_half_def isize_of_def)
  moreover have "- isize_limit \<le> int a - int b" "int a - int b < isize_limit"
    using assms by (auto simp: same_half_def isize_limit_def usize_limit_def)
  ultimately show ?thesis by (simp add: isize_sub_def)
qed

section \<open>Rounding and bit counting\<close>

text \<open>\<^verbatim>\<open>usize::next_multiple_of\<close> and its checked variant.\<close>

definition next_multiple_of :: "nat \<Rightarrow> nat \<Rightarrow> nat res" where
  "next_multiple_of a m =
     rbind (usize_rem a m) (\<lambda>r. if r = 0 then Inr a else usize_add a (m - r))"

definition checked_next_multiple_of :: "nat \<Rightarrow> nat \<Rightarrow> nat option" where
  "checked_next_multiple_of a m =
     (if m = 0 then None
      else if a mod m = 0 then Some a else checked_add a (m - a mod m))"

definition div_ceil :: "nat \<Rightarrow> nat \<Rightarrow> nat res" where
  "div_ceil a b =
     rbind (usize_rem a b) (\<lambda>r. Inr (if 0 < r then a div b + 1 else a div b))"

text \<open>The rounded-up value itself, without the overflow check.\<close>

definition ceil_to :: "nat \<Rightarrow> nat \<Rightarrow> nat" where
  "ceil_to a m = (if a mod m = 0 then a else a + (m - a mod m))"

fun bit_length :: "nat \<Rightarrow> nat" where
  "bit_length n = (if n = 0 then 0 else Suc (bit_length (n div 2)))"

declare bit_length.simps [simp del]

definition leading_zeros :: "nat \<Rightarrow> nat" where
  "leading_zeros n = 64 - bit_length n"

definition ilog2 :: "nat \<Rightarrow> nat res" where
  "ilog2 n = (if n = 0 then Inl ExpectFailed else Inr (bit_length n - 1))"

definition next_power_of_two :: "nat \<Rightarrow> nat res" where
  "next_power_of_two n =
     (if n \<le> 1 then Inr 1
      else if 2 ^ bit_length (n - 1) < usize_limit then Inr (2 ^ bit_length (n - 1))
      else Inl Overflow)"

fun count_trailing :: "nat \<Rightarrow> nat" where
  "count_trailing n = (if n = 0 \<or> odd n then 0 else Suc (count_trailing (n div 2)))"

declare count_trailing.simps [simp del]

definition trailing_zeros :: "nat \<Rightarrow> nat" where
  "trailing_zeros n = (if n = 0 then 64 else count_trailing n)"

lemma round_up_eq: "0 < m \<Longrightarrow> a + (m - a mod m) = (a div m + 1) * (m::nat)"
proof -
  assume m: "0 < m"
  have "a + (m - a mod m) = (a div m * m + a mod m) + (m - a mod m)" by simp
  also have "\<dots> = a div m * m + m" using mod_less_divisor [OF m, of a] by linarith
  finally show ?thesis by simp
qed

lemma ceil_to_multiple: "0 < m \<Longrightarrow> m dvd ceil_to a m"
proof -
  assume m: "0 < m"
  show ?thesis
    unfolding ceil_to_def round_up_eq [OF m] by (simp add: dvd_eq_mod_eq_0)
qed

lemma ceil_to_ge: "a \<le> ceil_to a m"
  by (simp add: ceil_to_def)

lemma ceil_to_less: "0 < m \<Longrightarrow> ceil_to a m < a + m"
  by (simp add: ceil_to_def)

lemma ceil_to_least:
  assumes "0 < m" "m dvd c" "a \<le> c"
  shows "ceil_to a m \<le> c"
proof (rule ccontr)
  assume "\<not> ceil_to a m \<le> c"
  then have "c < ceil_to a m" "ceil_to a m - c < m"
    using ceil_to_less [OF assms(1), of a] assms(3) by linarith+
  moreover have "m dvd ceil_to a m - c"
    using ceil_to_multiple [OF assms(1)] assms(2) by (rule dvd_diff_nat)
  ultimately show False by (auto dest: dvd_imp_le)
qed

lemma ceil_to_div: "0 < m \<Longrightarrow> ceil_to a m div m = (a + m - 1) div m"
proof -
  assume m: "0 < m"
  have "ceil_to a m \<le> a + m - 1"
    using ceil_to_less [OF m, of a] by simp
  then have "ceil_to a m div m \<le> (a + m - 1) div m"
    by (rule div_le_mono)
  moreover have "(a + m - 1) div m \<le> ceil_to a m div m"
  proof -
    obtain q where q: "ceil_to a m = q * m"
      using ceil_to_multiple [OF m, of a] by (metis dvd_def mult.commute)
    have "a + m - 1 < (q + 1) * m"
      using ceil_to_ge [of a m] m by (simp add: q)
    then have "(a + m - 1) div m < q + 1"
      using m by (simp add: div_less_iff_less_mult)
    with q m show ?thesis by simp
  qed
  ultimately show ?thesis by simp
qed

lemma next_multiple_of_ok:
  assumes "0 < m" "ceil_to a m < usize_limit"
  shows "next_multiple_of a m = Inr (ceil_to a m)"
  using assms by (auto simp: next_multiple_of_def ceil_to_def split: if_splits)

lemma checked_next_multiple_of_eq:
  "0 < m \<Longrightarrow> a < usize_limit \<Longrightarrow> checked_next_multiple_of a m =
     (if ceil_to a m < usize_limit then Some (ceil_to a m) else None)"
  by (simp add: checked_next_multiple_of_def ceil_to_def checked_add_def)

lemma div_ceil_eq:
  assumes "0 < b"
  shows "div_ceil a b = Inr (ceil_to a b div b)"
proof (cases "a mod b = 0")
  case True
  with assms show ?thesis by (simp add: div_ceil_def ceil_to_def)
next
  case False
  with assms show ?thesis
    by (simp only: div_ceil_def ceil_to_def round_up_eq [OF assms] if_False usize_rem_ok
        rbind_Inr nonzero_mult_div_cancel_right) simp
qed

subsection \<open>Bit length\<close>

lemma bit_length_0 [simp]: "bit_length 0 = 0"
  by (simp add: bit_length.simps)

lemma bit_length_pos: "0 < n \<Longrightarrow> bit_length n = Suc (bit_length (n div 2))"
  by (subst bit_length.simps) simp

lemma less_two_power_bit_length: "n < 2 ^ bit_length n"
proof (induction n rule: bit_length.induct)
  case (1 n)
  show ?case
  proof (cases "n = 0")
    case False
    with 1 have "n div 2 < 2 ^ bit_length (n div 2)" by simp
    with False show ?thesis by (simp add: bit_length_pos)
  qed simp
qed

lemma two_power_bit_length_le: "0 < n \<Longrightarrow> 2 ^ (bit_length n - 1) \<le> n"
proof (induction n rule: bit_length.induct)
  case (1 n)
  show ?case
  proof (cases "n div 2 = 0")
    case True
    then have "n = 1" using "1.prems" by linarith
    then show ?thesis by (simp add: bit_length_pos)
  next
    case False
    then have IH: "2 ^ (bit_length (n div 2) - 1) \<le> n div 2"
      using 1 by simp
    have "bit_length (n div 2) = Suc (bit_length (n div 2) - 1)"
      using False by (simp add: bit_length_pos)
    then have "(2::nat) ^ bit_length (n div 2) = 2 * 2 ^ (bit_length (n div 2) - 1)"
      by (metis power_Suc)
    with IH have "2 ^ bit_length (n div 2) \<le> 2 * (n div 2)" by simp
    also have "\<dots> \<le> n" by simp
    finally show ?thesis using "1.prems" by (simp add: bit_length_pos)
  qed
qed

lemma bit_length_le_iff: "bit_length n \<le> k \<longleftrightarrow> n < 2 ^ k"
proof
  assume "bit_length n \<le> k"
  then have "(2::nat) ^ bit_length n \<le> 2 ^ k" by simp
  with less_two_power_bit_length [of n] show "n < 2 ^ k" by linarith
next
  assume less: "n < 2 ^ k"
  show "bit_length n \<le> k"
  proof (rule ccontr)
    assume "\<not> bit_length n \<le> k"
    then have "k \<le> bit_length n - 1" "0 < n"
      by (auto intro: gr0I)
    then have "(2::nat) ^ k \<le> 2 ^ (bit_length n - 1)" by simp
    also have "\<dots> \<le> n" using \<open>0 < n\<close> by (rule two_power_bit_length_le)
    finally show False using less by simp
  qed
qed

lemma bit_length_two_power [simp]: "bit_length (2 ^ k) = Suc k"
proof (rule antisym)
  show "bit_length (2 ^ k) \<le> Suc k" by (simp add: bit_length_le_iff)
  have "\<not> bit_length (2 ^ k) \<le> k" by (simp add: bit_length_le_iff)
  then show "Suc k \<le> bit_length (2 ^ k)" by simp
qed

lemma ilog2_two_power [simp]: "ilog2 (2 ^ k) = Inr k"
  by (simp add: ilog2_def)

text \<open>\<^verbatim>\<open>next_power_of_two\<close> is the least power of two that is at least its argument.\<close>

definition pow2_exp :: "nat \<Rightarrow> nat" where
  "pow2_exp n = (if n \<le> 1 then 0 else bit_length (n - 1))"

lemma next_power_of_two_ok:
  "2 ^ pow2_exp n < usize_limit \<Longrightarrow> next_power_of_two n = Inr (2 ^ pow2_exp n)"
  by (simp add: next_power_of_two_def pow2_exp_def split: if_splits)

lemma pow2_exp_ge: "n \<le> 2 ^ pow2_exp n"
  using less_two_power_bit_length [of "n - 1"] by (simp add: pow2_exp_def) linarith

lemma pow2_exp_le_iff: "pow2_exp n \<le> k \<longleftrightarrow> n \<le> 2 ^ k"
proof (cases "n \<le> 1")
  case True
  then have "n \<le> 2 ^ k" by (metis le_trans one_le_numeral one_le_power)
  with True show ?thesis by (simp add: pow2_exp_def)
next
  case False
  then show ?thesis by (auto simp: pow2_exp_def bit_length_le_iff)
qed

lemma pow2_exp_two_power [simp]: "pow2_exp (2 ^ k) = k"
proof (rule antisym)
  show "pow2_exp (2 ^ k) \<le> k" by (simp add: pow2_exp_le_iff)
  have "2 ^ k \<le> (2::nat) ^ pow2_exp (2 ^ k)" by (rule pow2_exp_ge)
  then show "k \<le> pow2_exp (2 ^ k)" by simp
qed

subsection \<open>Trailing zeros\<close>

lemma count_trailing_dvd: "2 ^ count_trailing n dvd n"
proof (induction n rule: count_trailing.induct)
  case (1 n)
  show ?case
  proof (cases "n = 0 \<or> odd n")
    case True
    then show ?thesis by (subst count_trailing.simps) simp
  next
    case False
    then obtain m where m: "n = 2 * m" by (auto elim: evenE)
    with False 1 have "2 ^ count_trailing m dvd m" by simp
    with False m show ?thesis by (subst count_trailing.simps) simp
  qed
qed

lemma two_power_dvd_iff:
  "0 < n \<Longrightarrow> 2 ^ k dvd n \<longleftrightarrow> k \<le> count_trailing n"
proof (induction n arbitrary: k rule: count_trailing.induct)
  case (1 n)
  show ?case
  proof (cases "odd n")
    case True
    then have "2 ^ k dvd n \<longleftrightarrow> k = 0"
      by (cases k) (auto elim: dvd_trans dest: dvd_mult_left)
    with True show ?thesis by (subst count_trailing.simps) simp
  next
    case False
    then obtain m where m: "n = 2 * m" by (auto elim: evenE)
    with False 1 have "2 ^ j dvd m \<longleftrightarrow> j \<le> count_trailing m" for j by simp
    with False m "1.prems" show ?thesis
      by (subst count_trailing.simps, cases k) simp_all
  qed
qed

lemma trailing_zeros_dvd: "n < usize_limit \<Longrightarrow> 2 ^ trailing_zeros n dvd n"
  by (simp add: trailing_zeros_def count_trailing_dvd)

lemma trailing_zeros_two_power [simp]: "trailing_zeros (2 ^ k) = k"
proof -
  have "j \<le> count_trailing (2 ^ k) \<longleftrightarrow> j \<le> k" for j
    by (simp flip: two_power_dvd_iff add: dvd_power_iff_le)
  then have "count_trailing (2 ^ k) = k" by (meson le_antisym order_refl)
  then show ?thesis by (simp add: trailing_zeros_def)
qed

lemma mixed_radix_inject:
  fixes k k' i i' n :: nat
  assumes "i < n" "i' < n" "n * k + i = n * k' + i'"
  shows "k = k' \<and> i = i'"
proof -
  have "(n * k + i) div n = k" "(n * k' + i') div n = k'" using assms(1,2) by simp_all
  with assms(3) show ?thesis by simp
qed

lemma nat_xor_1: "(n::nat) XOR 1 = (if even n then n + 1 else n - 1)"
  by (simp only: xor_one_eq) simp

section \<open>Bit views\<close>

text \<open>\<^verbatim>\<open>view_bits::<Lsb0>()\<close> of the crate \<^verbatim>\<open>bitvec\<close> on an array of 64-bit words: bit \<open>i\<close> is bit
  \<open>i mod 64\<close> of word \<open>i div 64\<close>.\<close>

definition view_bit :: "64 word list \<Rightarrow> nat \<Rightarrow> bool" where
  "view_bit ws i = bit (ws ! (i div 64)) (i mod 64)"

definition view_set :: "64 word list \<Rightarrow> nat \<Rightarrow> bool \<Rightarrow> 64 word list" where
  "view_set ws i b =
     ws[i div 64 := (if b then set_bit (i mod 64) else unset_bit (i mod 64)) (ws ! (i div 64))]"

lemma view_bit_set:
  assumes "i < 64 * length ws" "j < 64 * length ws"
  shows "view_bit (view_set ws i b) j = (if j = i then b else view_bit ws j)"
proof (cases "j div 64 = i div 64")
  case True
  then have ij: "j mod 64 = i mod 64 \<longleftrightarrow> j = i" by (metis div_mult_mod_eq)
  have "i div 64 < length ws" using assms(1) by (simp add: less_mult_imp_div_less mult.commute)
  then show ?thesis using True ij
    by (auto simp: view_bit_def view_set_def bit_set_bit_iff bit_unset_bit_iff split: if_splits)
next
  case False
  then show ?thesis by (auto simp: view_bit_def view_set_def)
qed

lemma view_set_back: "view_bit ws i \<Longrightarrow> i < 64 * length ws \<Longrightarrow> view_set (view_set ws i False) i True = ws"
proof -
  assume b: "view_bit ws i" and "i < 64 * length ws"
  then have "i div 64 < length ws" by (simp add: less_mult_imp_div_less mult.commute)
  moreover have "set_bit (i mod 64) (unset_bit (i mod 64) (ws ! (i div 64))) = ws ! (i div 64)"
    using b by (auto intro!: bit_eqI simp: view_bit_def bit_set_bit_iff bit_unset_bit_iff)
  ultimately show ?thesis by (simp add: view_set_def)
qed

lemma length_view_set [simp]: "length (view_set ws i b) = length ws"
  by (simp add: view_set_def)

section \<open>Memory layouts\<close>

text \<open>\<^verbatim>\<open>core::alloc::Layout\<close>: a size and a power-of-two alignment; the size rounded up to the
  alignment does not exceed \<^verbatim>\<open>isize::MAX\<close>.\<close>

record layout =
  l_size :: nat
  l_align :: nat

definition layout_wf :: "layout \<Rightarrow> bool" where
  "layout_wf l \<longleftrightarrow> (\<exists>k < 64. l_align l = 2 ^ k) \<and> int (ceil_to (l_size l) (l_align l)) < isize_limit"

definition is_power_of_two :: "nat \<Rightarrow> bool" where
  "is_power_of_two n \<longleftrightarrow> n \<noteq> 0 \<and> n = 2 ^ count_trailing n"

definition layout_from_size_align :: "nat \<Rightarrow> nat \<Rightarrow> layout option" where
  "layout_from_size_align s a =
     (if is_power_of_two a \<and> a < usize_limit \<and> int (ceil_to s a) < isize_limit
      then Some \<lparr>l_size = s, l_align = a\<rparr> else None)"

definition pad_to_align :: "layout \<Rightarrow> layout" where
  "pad_to_align l = l\<lparr>l_size := ceil_to (l_size l) (l_align l)\<rparr>"

text \<open>\<^verbatim>\<open>Layout::array::<T>(n)\<close> for a \<open>T\<close> of the given size and alignment.\<close>

definition layout_array :: "nat \<Rightarrow> nat \<Rightarrow> nat \<Rightarrow> layout option" where
  "layout_array sz al n =
     (if int (sz * n + (al - 1)) < isize_limit then Some \<lparr>l_size = sz * n, l_align = al\<rparr> else None)"

end
