(* ===== verification/Array_Forest.thy ===== *)
theory Array_Forest
  imports Koe_Prelude
begin

text \<open>
  The forest of complete binary trees of \<^verbatim>\<open>src/src/common/array_forest.rs\<close>: all trees share one
  buffer, level by level, and a cursor is a depth together with an offset in that buffer.

  A Rust \<^verbatim>\<open>Cursor\<close> holds a reference to its forest; here the forest is passed beside the
  cursor, and \<^verbatim>\<open>get_mut\<close> followed by a store is \<open>cursor_put\<close>.  The lemmas relate cursors to
  nodes \<open>(depth, index)\<close>: moving, reading and writing at a valid node never panics, and a
  write changes exactly the node it names.
\<close>

section \<open>Cursors\<close>

record 'a array_forest =
  af_buf :: "'a list"
  af_tree_depth :: nat
  af_tree_cnt :: nat

record cursor =
  cu_depth :: nat
  cu_max_depth :: nat
  cu_offset :: nat

definition cursor_down :: "cursor \<Rightarrow> nat \<Rightarrow> (bool \<times> cursor) res" where
  "cursor_down c child_idx =
     rbind (rassert (child_idx < 2)) (\<lambda>_.
     if cu_depth c = cu_max_depth c then Inr (False, c)
     else rbind (usize_add (cu_depth c) 1) (\<lambda>d.
          rbind (usize_mul (cu_offset c) 2) (\<lambda>o2.
          rbind (usize_add o2 child_idx) (\<lambda>off.
          Inr (True, c\<lparr>cu_depth := d, cu_offset := off\<rparr>)))))"

definition cursor_left :: "cursor \<Rightarrow> (bool \<times> cursor) res" where
  "cursor_left c = cursor_down c 0"

definition cursor_right :: "cursor \<Rightarrow> (bool \<times> cursor) res" where
  "cursor_right c = cursor_down c 1"

definition cursor_up :: "cursor \<Rightarrow> bool \<times> cursor" where
  "cursor_up c =
     (if cu_depth c = 0 then (False, c)
      else (True, c\<lparr>cu_depth := cu_depth c - 1, cu_offset := cu_offset c div 2\<rparr>))"

definition cursor_sibling :: "cursor \<Rightarrow> bool \<times> cursor" where
  "cursor_sibling c =
     (if cu_depth c = 0 then (False, c) else (True, c\<lparr>cu_offset := cu_offset c XOR 1\<rparr>))"

definition cursor_get :: "'a array_forest \<Rightarrow> cursor \<Rightarrow> 'a res" where
  "cursor_get f c =
     rbind (usize_sub (cu_offset c) (af_tree_cnt f)) (\<lambda>idx.
     if idx < length (af_buf f) then Inr (af_buf f ! idx) else Inl IndexOutOfBounds)"

definition cursor_put :: "'a array_forest \<Rightarrow> cursor \<Rightarrow> 'a \<Rightarrow> 'a array_forest res" where
  "cursor_put f c v =
     rbind (usize_sub (cu_offset c) (af_tree_cnt f)) (\<lambda>idx.
     if idx < length (af_buf f) then Inr (f\<lparr>af_buf := (af_buf f)[idx := v]\<rparr>)
     else Inl IndexOutOfBounds)"

section \<open>The forest\<close>

definition offset_start :: "'a array_forest \<Rightarrow> nat \<Rightarrow> nat res" where
  "offset_start f depth = usize_shl (af_tree_cnt f) depth"

definition max_depth :: "'a array_forest \<Rightarrow> nat res" where
  "max_depth f = usize_sub (af_tree_depth f) 1"

definition cursor_idx :: "'a array_forest \<Rightarrow> cursor \<Rightarrow> nat res" where
  "cursor_idx f c = rbind (offset_start f (cu_depth c)) (\<lambda>s. usize_sub (cu_offset c) s)"

text \<open>\<^verbatim>\<open>buf_layout\<close> and \<^verbatim>\<open>new\<close>, for an element type of size \<open>sz\<close> and alignment \<open>al\<close>, with the
  allocator passed in.  \<open>None\<close> is the \<^verbatim>\<open>AllocError\<close> result.\<close>

definition buf_layout :: "nat \<Rightarrow> nat \<Rightarrow> nat \<Rightarrow> nat \<Rightarrow> layout res" where
  "buf_layout sz al tree_cnt tree_depth =
     rbind (usize_shl tree_cnt tree_depth) (\<lambda>len. rexpect (layout_array sz al len))"

definition forest_new ::
  "nat \<Rightarrow> nat \<Rightarrow> nat \<Rightarrow> nat \<Rightarrow> (layout \<Rightarrow> 's \<Rightarrow> ('p option \<times> 's) res) \<Rightarrow> 'a \<Rightarrow> 's \<Rightarrow>
     ('a array_forest option \<times> 's) res" where
  "forest_new sz al tree_cnt tree_depth alloc fill s =
     rbind (buf_layout sz al tree_cnt tree_depth) (\<lambda>l.
     rbind (usize_div (l_size l) sz) (\<lambda>len.
     rbind (alloc l s) (\<lambda>(p, s').
     case p of None \<Rightarrow> Inr (None, s')
     | Some _ \<Rightarrow> Inr (Some \<lparr>af_buf = replicate len fill, af_tree_depth = tree_depth,
                            af_tree_cnt = tree_cnt\<rparr>, s'))))"

definition forest_cursor :: "'a array_forest \<Rightarrow> nat \<Rightarrow> nat \<Rightarrow> cursor res" where
  "forest_cursor f depth idx =
     rbind (rassert (depth \<le> af_tree_depth f)) (\<lambda>_.
     rbind (offset_start f depth) (\<lambda>s.
     rbind (usize_add depth 1) (\<lambda>d1.
     rbind (offset_start f d1) (\<lambda>e.
     rbind (usize_sub e s) (\<lambda>w.
     rbind (rassert (idx < w)) (\<lambda>_.
     rbind (usize_add s idx) (\<lambda>off.
     rbind (max_depth f) (\<lambda>m.
     Inr \<lparr>cu_depth = depth, cu_max_depth = m, cu_offset = off\<rparr>))))))))"

definition slice_bounds :: "'a array_forest \<Rightarrow> nat \<Rightarrow> (nat \<times> nat) res" where
  "slice_bounds f depth =
     rbind (offset_start f depth) (\<lambda>s.
     rbind (usize_sub s (af_tree_cnt f)) (\<lambda>start.
     rbind (usize_add depth 1) (\<lambda>d1.
     rbind (offset_start f d1) (\<lambda>e.
     rbind (usize_sub e (af_tree_cnt f)) (\<lambda>end'.
     if start \<le> end' \<and> end' \<le> length (af_buf f) then Inr (start, end')
     else Inl IndexOutOfBounds)))))"

definition forest_slice :: "'a array_forest \<Rightarrow> nat \<Rightarrow> 'a list res" where
  "forest_slice f depth =
     rbind (slice_bounds f depth) (\<lambda>(s, e). Inr (take (e - s) (drop s (af_buf f))))"

text \<open>\<^verbatim>\<open>slice_mut(depth)[start..end].fill(v)\<close>.\<close>

definition fill_range :: "'a list \<Rightarrow> nat \<Rightarrow> nat \<Rightarrow> 'a \<Rightarrow> 'a list res" where
  "fill_range xs s e v =
     (if s \<le> e \<and> e \<le> length xs then Inr (take s xs @ replicate (e - s) v @ drop e xs)
      else Inl IndexOutOfBounds)"

definition slice_mut_fill ::
  "'a array_forest \<Rightarrow> nat \<Rightarrow> nat \<Rightarrow> nat \<Rightarrow> 'a \<Rightarrow> 'a array_forest res" where
  "slice_mut_fill f depth start end' v =
     rbind (slice_bounds f depth) (\<lambda>(s, e).
     rbind (fill_range (take (e - s) (drop s (af_buf f))) start end' v) (\<lambda>blocks.
     Inr (f\<lparr>af_buf := take s (af_buf f) @ blocks @ drop e (af_buf f)\<rparr>)))"

section \<open>Nodes\<close>

definition forest_wf :: "'a array_forest \<Rightarrow> bool" where
  "forest_wf f \<longleftrightarrow> 0 < af_tree_cnt f \<and> 0 < af_tree_depth f \<and> af_tree_depth f < 64 \<and>
     af_tree_cnt f * 2 ^ af_tree_depth f < usize_limit \<and>
     length (af_buf f) = af_tree_cnt f * 2 ^ af_tree_depth f"

definition node_ok :: "'a array_forest \<Rightarrow> nat \<Rightarrow> nat \<Rightarrow> bool" where
  "node_ok f d i \<longleftrightarrow> d < af_tree_depth f \<and> i < af_tree_cnt f * 2 ^ d"

definition node_pos :: "'a array_forest \<Rightarrow> nat \<Rightarrow> nat \<Rightarrow> nat" where
  "node_pos f d i = af_tree_cnt f * 2 ^ d + i - af_tree_cnt f"

definition nd :: "'a array_forest \<Rightarrow> nat \<Rightarrow> nat \<Rightarrow> 'a" where
  "nd f d i = af_buf f ! node_pos f d i"

definition nd_put :: "'a array_forest \<Rightarrow> nat \<Rightarrow> nat \<Rightarrow> 'a \<Rightarrow> 'a array_forest" where
  "nd_put f d i v = f\<lparr>af_buf := (af_buf f)[node_pos f d i := v]\<rparr>"

definition cursor_at :: "'a array_forest \<Rightarrow> nat \<Rightarrow> nat \<Rightarrow> cursor" where
  "cursor_at f d i = \<lparr>cu_depth = d, cu_max_depth = af_tree_depth f - 1,
     cu_offset = af_tree_cnt f * 2 ^ d + i\<rparr>"

lemma level_mono: "d \<le> e \<Longrightarrow> c * 2 ^ d \<le> c * (2::nat) ^ e"
  by simp

lemma tree_cnt_le_level: "c \<le> c * (2::nat) ^ d"
  by simp

lemma node_offset_less:
  assumes "forest_wf f" "node_ok f d i"
  shows "af_tree_cnt f * 2 ^ d + i < af_tree_cnt f * 2 ^ af_tree_depth f"
proof -
  have "af_tree_cnt f * 2 ^ d + i < af_tree_cnt f * 2 ^ Suc d"
    using assms by (simp add: node_ok_def)
  also have "\<dots> \<le> af_tree_cnt f * 2 ^ af_tree_depth f"
    using assms by (intro level_mono) (simp add: node_ok_def)
  finally show ?thesis .
qed

lemma node_pos_less: "forest_wf f \<Longrightarrow> node_ok f d i \<Longrightarrow> node_pos f d i < length (af_buf f)"
  using node_offset_less [of f d i] by (simp add: node_pos_def forest_wf_def)

lemma node_pos_inject:
  assumes "node_ok f d i" "node_ok f d' i'" "node_pos f d i = node_pos f d' i'"
  shows "d = d' \<and> i = i'"
proof -
  let ?c = "af_tree_cnt f"
  have eq: "?c * 2 ^ d + i = ?c * 2 ^ d' + i'"
    using assms(3) tree_cnt_le_level [of ?c d] tree_cnt_le_level [of ?c d']
    unfolding node_pos_def by linarith
  have no: "\<not> e < e'" if "?c * 2 ^ e + j = ?c * 2 ^ e' + j'" "j < ?c * 2 ^ e" for e e' j j'
  proof
    assume "e < e'"
    then have "?c * 2 ^ Suc e \<le> ?c * 2 ^ e'" by (intro level_mono) simp
    then have "2 * (?c * 2 ^ e) \<le> ?c * 2 ^ e'" by (simp only: power_Suc mult.left_commute)
    with that show False by linarith
  qed
  have "\<not> d < d'" "\<not> d' < d"
    using no [OF eq] no [OF eq [symmetric]] assms by (auto simp: node_ok_def)
  with eq show ?thesis by auto
qed

section \<open>Reading and writing nodes\<close>

lemma forest_wf_put [simp]: "forest_wf (nd_put f d i v) = forest_wf f"
  by (simp add: forest_wf_def nd_put_def)

lemma node_ok_put [simp]: "node_ok (nd_put f d i v) = node_ok f"
  by (simp add: node_ok_def nd_put_def fun_eq_iff)

lemma put_fields [simp]:
  "af_tree_depth (nd_put f d i v) = af_tree_depth f"
  "af_tree_cnt (nd_put f d i v) = af_tree_cnt f"
  by (simp_all add: nd_put_def)

lemma cursor_at_put [simp]: "cursor_at (nd_put f d i v) = cursor_at f"
  by (simp add: cursor_at_def fun_eq_iff)

lemma nd_nd_put:
  "forest_wf f \<Longrightarrow> node_ok f d i \<Longrightarrow> node_ok f d' i' \<Longrightarrow>
     nd (nd_put f d i v) d' i' = (if d' = d \<and> i' = i then v else nd f d' i')"
  using node_pos_inject [of f d i d' i'] node_pos_less [of f d i]
  by (auto simp: nd_def nd_put_def node_pos_def nth_list_update)

lemma max_depth_ok: "forest_wf f \<Longrightarrow> max_depth f = Inr (af_tree_depth f - 1)"
  by (simp add: max_depth_def forest_wf_def)

lemma offset_start_ok:
  assumes "forest_wf f" "d \<le> af_tree_depth f"
  shows "offset_start f d = Inr (af_tree_cnt f * 2 ^ d)"
proof -
  have "af_tree_cnt f * 2 ^ d \<le> af_tree_cnt f * 2 ^ af_tree_depth f"
    using assms by (intro level_mono)
  then have "af_tree_cnt f * 2 ^ d < usize_limit" "d < 64"
    using assms unfolding forest_wf_def by linarith+
  then show ?thesis by (simp add: offset_start_def)
qed

lemma tree_depth_less_limit: "forest_wf f \<Longrightarrow> d \<le> af_tree_depth f \<Longrightarrow> d < usize_limit"
  by (auto simp: forest_wf_def usize_limit_def)

lemma forest_cursor_ok:
  assumes "forest_wf f" "node_ok f d i"
  shows "forest_cursor f d i = Inr (cursor_at f d i)"
proof -
  have "d + 1 \<le> af_tree_depth f" using assms by (simp add: node_ok_def)
  moreover have "af_tree_cnt f * 2 ^ d + i < usize_limit"
    using node_offset_less [OF assms] assms by (simp add: forest_wf_def)
  moreover have "d + 1 < usize_limit"
    using tree_depth_less_limit [OF assms(1), of "d + 1"] assms by (simp add: node_ok_def)
  ultimately show ?thesis
    using assms
    by (simp add: forest_cursor_def offset_start_ok max_depth_ok cursor_at_def node_ok_def)
qed

lemma cursor_get_ok:
  "forest_wf f \<Longrightarrow> node_ok f d i \<Longrightarrow> cursor_get f (cursor_at f d i) = Inr (nd f d i)"
  using node_pos_less [of f d i] tree_cnt_le_level [of "af_tree_cnt f" d]
  by (simp add: cursor_get_def cursor_at_def nd_def node_pos_def trans_le_add1)

lemma cursor_put_ok:
  "forest_wf f \<Longrightarrow> node_ok f d i \<Longrightarrow> cursor_put f (cursor_at f d i) v = Inr (nd_put f d i v)"
  using node_pos_less [of f d i] tree_cnt_le_level [of "af_tree_cnt f" d]
  by (simp add: cursor_put_def cursor_at_def nd_put_def node_pos_def trans_le_add1)

lemma cursor_idx_ok:
  "forest_wf f \<Longrightarrow> node_ok f d i \<Longrightarrow> cursor_idx f (cursor_at f d i) = Inr i"
  by (simp add: cursor_idx_def cursor_at_def offset_start_ok node_ok_def)

lemma cursor_at_depth [simp]: "cu_depth (cursor_at f d i) = d"
  by (simp add: cursor_at_def)

section \<open>Moving\<close>

lemma node_ok_child:
  "node_ok f d i \<Longrightarrow> Suc d < af_tree_depth f \<Longrightarrow> k < 2 \<Longrightarrow> node_ok f (Suc d) (2 * i + k)"
  by (simp add: node_ok_def)

lemma node_ok_parent: "node_ok f (Suc d) i \<Longrightarrow> node_ok f d (i div 2)"
  by (auto simp: node_ok_def)

lemma cursor_down_ok:
  assumes "forest_wf f" "node_ok f d i" "Suc d < af_tree_depth f" "k < 2"
  shows "cursor_down (cursor_at f d i) k = Inr (True, cursor_at f (Suc d) (2 * i + k))"
proof -
  have "af_tree_cnt f * 2 ^ Suc d + (2 * i + k) < usize_limit"
    using node_offset_less [OF assms(1) node_ok_child [OF assms(2-4)]] assms(1)
    by (simp add: forest_wf_def)
  moreover have "d + 1 < usize_limit"
    using tree_depth_less_limit [OF assms(1), of "Suc d"] assms(3) by simp
  ultimately show ?thesis
    using assms by (simp add: cursor_down_def cursor_at_def algebra_simps)
qed

lemma cursor_down_end: "k < 2 \<Longrightarrow>
  cursor_down (cursor_at f (af_tree_depth f - 1) i) k = Inr (False, cursor_at f (af_tree_depth f - 1) i)"
  by (simp add: cursor_down_def cursor_at_def)

lemma cursor_up_ok: "cursor_up (cursor_at f (Suc d) i) = (True, cursor_at f d (i div 2))"
proof -
  have "(af_tree_cnt f * 2 ^ Suc d + i) div 2 = af_tree_cnt f * 2 ^ d + i div 2"
    by simp
  then show ?thesis by (simp add: cursor_up_def cursor_at_def)
qed

lemma cursor_sibling_ok:
  "cursor_sibling (cursor_at f (Suc d) i) = (True, cursor_at f (Suc d) (i XOR 1))"
proof -
  have "even (af_tree_cnt f * 2 ^ Suc d)" by simp
  then have "(af_tree_cnt f * 2 ^ Suc d + i) XOR 1 = af_tree_cnt f * 2 ^ Suc d + (i XOR 1)"
    by (auto simp only: nat_xor_1 split: if_split) (auto elim: oddE)
  then show ?thesis by (simp add: cursor_sibling_def cursor_at_def)
qed

lemma node_ok_sibling: "node_ok f (Suc d) i \<Longrightarrow> node_ok f (Suc d) (i XOR 1)"
proof -
  assume ok: "node_ok f (Suc d) i"
  then have "i < 2 * (af_tree_cnt f * 2 ^ d)" by (simp add: node_ok_def mult.left_commute)
  then have "(i XOR 1) < 2 * (af_tree_cnt f * 2 ^ d)"
    unfolding nat_xor_1 by (auto elim!: evenE)
  with ok show ?thesis by (simp add: node_ok_def mult.left_commute)
qed

section \<open>Slices\<close>

lemma two_levels_fit:
  assumes "forest_wf f" "d < af_tree_depth f"
  shows "af_tree_cnt f * 2 ^ d + af_tree_cnt f * 2 ^ d \<le> length (af_buf f)"
proof -
  have "af_tree_cnt f * 2 ^ Suc d \<le> af_tree_cnt f * 2 ^ af_tree_depth f"
    using assms by (intro level_mono) simp
  then have "2 * (af_tree_cnt f * 2 ^ d) \<le> af_tree_cnt f * 2 ^ af_tree_depth f"
    by (simp only: power_Suc mult.left_commute)
  then show ?thesis using assms(1) unfolding forest_wf_def by linarith
qed

lemma slice_bounds_ok:
  assumes "forest_wf f" "d < af_tree_depth f"
  shows "slice_bounds f d = Inr (af_tree_cnt f * 2 ^ d - af_tree_cnt f,
     af_tree_cnt f * 2 ^ Suc d - af_tree_cnt f)"
proof -
  have "d + 1 < usize_limit"
    using tree_depth_less_limit [OF assms(1), of "d + 1"] assms by simp
  moreover have "af_tree_cnt f * 2 ^ d - af_tree_cnt f \<le> af_tree_cnt f * 2 ^ Suc d - af_tree_cnt f"
    by (intro diff_le_mono level_mono) simp
  moreover have "af_tree_cnt f * 2 ^ Suc d - af_tree_cnt f \<le> length (af_buf f)"
    using two_levels_fit [OF assms] by simp
  ultimately show ?thesis
    using assms tree_cnt_le_level [of "af_tree_cnt f" d]
      tree_cnt_le_level [of "af_tree_cnt f" "Suc d"]
    by (simp add: slice_bounds_def offset_start_ok del: power_Suc)
qed

lemma forest_slice_ok:
  assumes "forest_wf f" "d < af_tree_depth f"
  shows "forest_slice f d = Inr (map (nd f d) [0..<af_tree_cnt f * 2 ^ d])"
proof -
  let ?c = "af_tree_cnt f" and ?n = "af_tree_cnt f * 2 ^ d"
  have len: "?n - ?c + ?n \<le> length (af_buf f)"
    using two_levels_fit [OF assms] by linarith
  have "?c * 2 ^ Suc d - ?c - (?n - ?c) = ?n"
    using tree_cnt_le_level [of ?c d] by simp
  moreover have "take ?n (drop (?n - ?c) (af_buf f)) = map (nd f d) [0..<?n]"
    using len tree_cnt_le_level [of ?c d]
    by (intro nth_equalityI) (simp_all add: nd_def node_pos_def)
  ultimately show ?thesis
    using assms by (simp only: forest_slice_def slice_bounds_ok rbind_Inr prod.case)
qed

definition nd_fill :: "'a array_forest \<Rightarrow> nat \<Rightarrow> nat \<Rightarrow> nat \<Rightarrow> 'a \<Rightarrow> 'a array_forest" where
  "nd_fill f d s e v = f\<lparr>af_buf := take (node_pos f d s) (af_buf f) @ replicate (e - s) v @
     drop (node_pos f d e) (af_buf f)\<rparr>"

lemma fill_pos:
  assumes "forest_wf f" "d < af_tree_depth f" "s \<le> e" "e \<le> af_tree_cnt f * 2 ^ d"
  shows "node_pos f d s + (e - s) = node_pos f d e" "node_pos f d e \<le> length (af_buf f)"
proof -
  let ?c = "af_tree_cnt f"
  show "node_pos f d s + (e - s) = node_pos f d e"
    using tree_cnt_le_level [of ?c d] assms unfolding node_pos_def by linarith
  show "node_pos f d e \<le> length (af_buf f)"
    using two_levels_fit [OF assms(1,2)] assms(4) unfolding node_pos_def by linarith
qed

lemma fill_window:
  assumes "s \<le> e" "e \<le> n" "k + n \<le> length b"
  shows "take k b @ (take s (take n (drop k b)) @ r @ drop e (take n (drop k b))) @ drop (k + n) b =
     take (k + s) b @ r @ drop (k + e) b"
proof -
  have "take k b @ take s (take n (drop k b)) = take (k + s) b"
    using assms by (simp add: take_add min_def)
  moreover have "drop e (take n (drop k b)) @ drop n (drop k b) = drop e (drop k b)"
    using assms drop_append [of e "take n (drop k b)" "drop n (drop k b)"]
    by (simp only: append_take_drop_id) simp
  ultimately show ?thesis by (simp add: add.commute)
qed

lemma slice_mut_fill_ok:
  assumes "forest_wf f" "d < af_tree_depth f" "s \<le> e" "e \<le> af_tree_cnt f * 2 ^ d"
  shows "slice_mut_fill f d s e v = Inr (nd_fill f d s e v)"
proof -
  define b n k where "b = af_buf f" and "n = af_tree_cnt f * 2 ^ d" and "k = n - af_tree_cnt f"
  have c: "af_tree_cnt f \<le> n" unfolding n_def by (rule tree_cnt_le_level)
  have "af_tree_cnt f * 2 ^ Suc d = n + n" by (simp add: n_def)
  then have bounds: "slice_bounds f d = Inr (k, k + n)"
    using slice_bounds_ok [OF assms(1,2)] c by (simp add: n_def k_def)
  have len: "k + n \<le> length b"
    using two_levels_fit [OF assms(1,2)] by (simp add: n_def k_def b_def)
  have pos: "node_pos f d s = k + s" "node_pos f d e = k + e"
    using c by (simp_all add: node_pos_def n_def k_def)
  have en: "e \<le> n" using assms(4) by (simp add: n_def)
  have "slice_mut_fill f d s e v = Inr (f\<lparr>af_buf := take k b @
      (take s (take n (drop k b)) @ replicate (e - s) v @ drop e (take n (drop k b))) @
      drop (k + n) b\<rparr>)"
    using assms(3) en len
    by (simp add: slice_mut_fill_def bounds fill_range_def flip: b_def)
  then show ?thesis
    unfolding fill_window [OF assms(3) en len] nd_fill_def pos by (simp add: b_def)
qed

lemma nd_fill_fields [simp]:
  "af_tree_depth (nd_fill f d s e v) = af_tree_depth f"
  "af_tree_cnt (nd_fill f d s e v) = af_tree_cnt f"
  by (simp_all add: nd_fill_def)

lemma node_ok_fill [simp]: "node_ok (nd_fill f d s e v) = node_ok f"
  by (simp add: node_ok_def fun_eq_iff)

lemma forest_wf_fill:
  assumes "forest_wf f" "d < af_tree_depth f" "s \<le> e" "e \<le> af_tree_cnt f * 2 ^ d"
  shows "forest_wf (nd_fill f d s e v)"
proof -
  have "length (af_buf (nd_fill f d s e v)) = length (af_buf f)"
    using fill_pos [OF assms] by (simp add: nd_fill_def)
  with assms(1) show ?thesis by (simp add: forest_wf_def)
qed

lemma nd_nd_fill:
  assumes wf: "forest_wf f" and d: "d < af_tree_depth f" "s \<le> e" "e \<le> af_tree_cnt f * 2 ^ d"
    and ok: "node_ok f d' i'"
  shows "nd (nd_fill f d s e v) d' i' = (if d' = d \<and> s \<le> i' \<and> i' < e then v else nd f d' i')"
proof -
  note pos = fill_pos [OF wf d]
  let ?p = "node_pos f d' i'"
  have eq: "node_pos (nd_fill f d s e v) d' i' = ?p" by (simp add: node_pos_def)
  have p: "?p < length (af_buf f)" using wf ok by (rule node_pos_less)
  have "nd (nd_fill f d s e v) d' i' =
      (if node_pos f d s \<le> ?p \<and> ?p < node_pos f d e then v else af_buf f ! ?p)"
    unfolding nd_def eq using pos p by (auto simp: nd_fill_def nth_append)
  moreover have "node_pos f d s \<le> ?p \<and> ?p < node_pos f d e \<longleftrightarrow> d' = d \<and> s \<le> i' \<and> i' < e"
  proof
    assume a: "node_pos f d s \<le> ?p \<and> ?p < node_pos f d e"
    define j where "j = s + (?p - node_pos f d s)"
    have "node_pos f d j = node_pos f d s + (j - s)"
      using tree_cnt_le_level [of "af_tree_cnt f" d] unfolding node_pos_def j_def by linarith
    with a pos(1) d(2) have j: "?p = node_pos f d j" "s \<le> j" "j < e"
      unfolding j_def by linarith+
    then have "node_ok f d j" using d by (simp add: node_ok_def)
    from node_pos_inject [OF ok this j(1)] j show "d' = d \<and> s \<le> i' \<and> i' < e" by simp
  next
    assume a: "d' = d \<and> s \<le> i' \<and> i' < e"
    then have "node_pos f d s \<le> node_pos f d i'" "node_pos f d i' < node_pos f d e"
      using tree_cnt_le_level [of "af_tree_cnt f" d] unfolding node_pos_def by linarith+
    with a show "node_pos f d s \<le> ?p \<and> ?p < node_pos f d e" by simp
  qed
  ultimately show ?thesis by (simp add: nd_def)
qed

end
