(* ===== verification/Buddy_Tree.thy ===== *)
theory Buddy_Tree
  imports Koe_Prelude
begin

text \<open>
  The abstract view of a buddy system: a family of \<open>n\<close> complete binary trees of height \<open>D\<close>,
  addressed by order and index.  Node \<open>(k, i)\<close> covers the frames \<open>x\<close> with \<open>x div 2 ^ k = i\<close>, its
  parent is \<open>(k + 1, i div 2)\<close>, and its value is one more than the order of the largest free
  block below it, or zero.  Nodes outside the trees have value zero.

  A node is \<^emph>\<open>split\<close> when its value is the maximum of its children.  In a consistent tree a node
  that is not split is \<^emph>\<open>whole\<close>: a block that is free or handed out as a unit, over children
  which still record that they are free.
\<close>

section \<open>Trees, blocks and free frames\<close>

type_synonym tree = "nat \<Rightarrow> nat \<Rightarrow> nat"

definition tput :: "tree \<Rightarrow> nat \<Rightarrow> nat \<Rightarrow> nat \<Rightarrow> tree" where
  "tput t k i v = (\<lambda>k' i'. if k' = k \<and> i' = i then v else t k' i')"

definition anc :: "nat \<Rightarrow> nat \<Rightarrow> nat \<Rightarrow> nat" where
  "anc k i m = i div 2 ^ (m - k)"

definition block :: "nat \<Rightarrow> nat \<Rightarrow> nat set" where
  "block k i = {x. x div 2 ^ k = i}"

definition split_at :: "tree \<Rightarrow> nat \<Rightarrow> nat \<Rightarrow> bool" where
  "split_at t k j \<longleftrightarrow> t (Suc k) j = max (t k (2 * j)) (t k (2 * j + 1))"

definition whole_at :: "tree \<Rightarrow> nat \<Rightarrow> nat \<Rightarrow> bool" where
  "whole_at t k j \<longleftrightarrow> (t (Suc k) j = Suc (Suc k) \<or> t (Suc k) j = 0) \<and>
     t k (2 * j) = Suc k \<and> t k (2 * j + 1) = Suc k"

definition bounded :: "tree \<Rightarrow> bool" where
  "bounded t \<longleftrightarrow> (\<forall>k i. t k i \<le> Suc k)"

definition tree_inv :: "nat \<Rightarrow> tree \<Rightarrow> bool" where
  "tree_inv D t \<longleftrightarrow> bounded t \<and> (\<forall>k j. k < D \<longrightarrow> split_at t k j \<or> whole_at t k j)"

definition splits_above :: "nat \<Rightarrow> tree \<Rightarrow> nat \<Rightarrow> nat \<Rightarrow> bool" where
  "splits_above D t k i \<longleftrightarrow> (\<forall>m. k \<le> m \<and> m < D \<longrightarrow> split_at t m (anc k i (Suc m)))"

definition free_in :: "nat \<Rightarrow> nat \<Rightarrow> tree \<Rightarrow> nat set" where
  "free_in D n t = {x. x < n * 2 ^ D \<and> (\<forall>m \<le> D. t m (x div 2 ^ m) \<noteq> 0)}"

text \<open>A block handed out by the system.\<close>

definition alloc_in :: "nat \<Rightarrow> tree \<Rightarrow> nat \<Rightarrow> nat \<Rightarrow> bool" where
  "alloc_in D t k i \<longleftrightarrow> k \<le> D \<and> t k i = 0 \<and>
     (\<forall>k'. k = Suc k' \<longrightarrow> whole_at t k' i) \<and> splits_above D t k i"

section \<open>Ancestors\<close>

lemma anc_self [simp]: "anc k i k = i"
  by (simp add: anc_def)

lemma div_two_power_Suc: "x div 2 ^ Suc m = x div 2 ^ m div (2::nat)"
  by (simp only: power_Suc mult.commute [of 2] div_mult2_eq)

lemma anc_Suc: "k \<le> m \<Longrightarrow> anc k i (Suc m) = anc k i m div 2"
  by (simp only: anc_def Suc_diff_le power_Suc mult.commute [of 2] div_mult2_eq)

lemma anc_parent: "Suc k \<le> m \<Longrightarrow> anc (Suc k) (i div 2) m = anc k i m"
proof -
  assume "Suc k \<le> m"
  then have "m - k = Suc (m - Suc k)" by simp
  then show ?thesis by (simp only: anc_def power_Suc div_mult2_eq)
qed

lemma div_two_power_anc: "k \<le> m \<Longrightarrow> x div 2 ^ m = anc k (x div 2 ^ k) m"
  by (simp add: anc_def div_mult2_eq [symmetric] power_add [symmetric])

lemma anc_trans: "k \<le> l \<Longrightarrow> l \<le> m \<Longrightarrow> anc l (anc k i l) m = anc k i m"
  by (simp add: anc_def div_mult2_eq [symmetric] power_add [symmetric])

lemma child_cases: "i = 2 * (i div 2) \<or> i = 2 * (i div 2) + (1::nat)"
  by linarith

lemma sibling_max:
  "max (t k i) (t k (i XOR 1)) = max (t k (2 * (i div 2))) (t k (2 * (i div 2) + 1))" for t :: tree
proof (cases "even i")
  case True
  then have "i XOR 1 = i + 1" by (simp add: nat_xor_1 del: One_nat_def)
  with True show ?thesis by (auto elim!: evenE)
next
  case False
  then obtain j where "i = 2 * j + 1" by (auto elim: oddE)
  then show ?thesis by (simp add: nat_xor_1 max.commute del: One_nat_def)
qed

lemma split_at_ge_child: "split_at t k (i div 2) \<Longrightarrow> t k i \<le> t (Suc k) (i div 2)"
  using child_cases [of i] unfolding split_at_def by (metis max.cobounded1 max.cobounded2)

lemma split_at_le: "bounded t \<Longrightarrow> split_at t k j \<Longrightarrow> t (Suc k) j \<le> Suc k"
  by (simp add: split_at_def bounded_def)

lemma whole_at_child: "whole_at t k (i div 2) \<Longrightarrow> t k i = Suc k"
  using child_cases [of i] unfolding whole_at_def by metis

section \<open>Repairing the ancestors of a node\<close>

function tfix :: "nat \<Rightarrow> tree \<Rightarrow> nat \<Rightarrow> nat \<Rightarrow> tree" where
  "tfix D t k i =
     (if D \<le> k then t
      else if t (Suc k) (i div 2) = max (t k i) (t k (i XOR 1)) then t
      else tfix D (tput t (Suc k) (i div 2) (max (t k i) (t k (i XOR 1)))) (Suc k) (i div 2))"
  by pat_completeness auto
termination
  by (relation "measure (\<lambda>(D, t, k, i). D - k)") auto

declare tfix.simps [simp del]

text \<open>What the ancestors of \<open>(k, i)\<close>, other than its parent, are like before the repair.\<close>

definition fixable :: "nat \<Rightarrow> tree \<Rightarrow> nat \<Rightarrow> nat \<Rightarrow> bool" where
  "fixable D t k i \<longleftrightarrow> (\<forall>m. k < m \<and> m < D \<longrightarrow>
     split_at t m (anc k i (Suc m)) \<or> t m (anc k i m) = Suc m)"

lemma splits_above_from_parent:
  assumes "bounded t" "fixable D t k i" "split_at t k (i div 2)"
  shows "splits_above D t k i"
  unfolding splits_above_def
proof (intro allI impI)
  fix m assume "k \<le> m \<and> m < D"
  then have "k \<le> m" "m < D" by simp_all
  then show "split_at t m (anc k i (Suc m))"
  proof (induction m rule: nat_induct_at_least)
    case base
    then show ?case using assms(3) by (simp add: anc_Suc)
  next
    case (Suc m)
    then have "t (Suc m) (anc k i (Suc m)) \<le> Suc m"
      using assms(1) by (intro split_at_le) auto
    then have "t (Suc m) (anc k i (Suc m)) \<noteq> Suc (Suc m)" by simp
    moreover have "k < Suc m \<and> Suc m < D" using Suc by simp
    ultimately show ?case using assms(2) unfolding fixable_def by blast
  qed
qed

lemma bounded_tput: "bounded t \<Longrightarrow> v \<le> Suc k \<Longrightarrow> bounded (tput t k i v)"
  by (simp add: bounded_def tput_def)

lemma fixable_tput_parent:
  "fixable D t k i \<Longrightarrow> fixable D (tput t (Suc k) (i div 2) v) (Suc k) (i div 2)"
  unfolding fixable_def by (auto simp: anc_parent split_at_def tput_def)

lemma tfix_spec:
  assumes "bounded t" "fixable D t k i"
  shows "bounded (tfix D t k i) \<and> splits_above D (tfix D t k i) k i \<and>
    (\<forall>m j. \<not> (k < m \<and> m \<le> D \<and> j = anc k i m) \<longrightarrow> tfix D t k i m j = t m j)"
  using assms
proof (induction D t k i rule: tfix.induct)
  case (1 D t k i)
  let ?p = "max (t k i) (t k (i XOR 1))" and ?j = "i div 2"
  consider "D \<le> k" | "k < D" "t (Suc k) ?j = ?p" | "k < D" "t (Suc k) ?j \<noteq> ?p" by linarith
  then show ?case
  proof cases
    case 1
    then have "tfix D t k i = t" by (simp add: tfix.simps)
    moreover have "splits_above D t k i" using 1 by (auto simp: splits_above_def)
    ultimately show ?thesis using "1.prems" by simp
  next
    case 2
    then have "tfix D t k i = t" by (simp add: tfix.simps)
    moreover have "split_at t k ?j" unfolding split_at_def using 2(2) by (simp only: sibling_max)
    ultimately show ?thesis
      using splits_above_from_parent [OF "1.prems"] "1.prems" by simp
  next
    case 3
    define T where "T = tfix D (tput t (Suc k) ?j ?p) (Suc k) ?j"
    have eq: "tfix D t k i = T" using 3 unfolding T_def by (subst tfix.simps) simp
    have "bounded (tput t (Suc k) ?j ?p)"
      using "1.prems"(1) by (intro bounded_tput) (auto simp: bounded_def le_SucI)
    from "1.IH" [OF _ _ this fixable_tput_parent [OF "1.prems"(2)]] 3
    have IH: "bounded T" "splits_above D T (Suc k) ?j"
      "\<And>m j. \<not> (Suc k < m \<and> m \<le> D \<and> j = anc (Suc k) ?j m) \<Longrightarrow>
         T m j = tput t (Suc k) ?j ?p m j"
      by (auto simp: T_def)
    have "T (Suc k) ?j = ?p" "\<And>l. T k l = t k l"
      using IH(3) by (simp_all add: tput_def)
    then have sp: "split_at T k ?j" unfolding split_at_def by (simp only: sibling_max)
    have "splits_above D T k i"
      unfolding splits_above_def
    proof (intro allI impI)
      fix m assume m: "k \<le> m \<and> m < D"
      show "split_at T m (anc k i (Suc m))"
      proof (cases "m = k")
        case True
        with sp show ?thesis by (simp add: anc_Suc)
      next
        case False
        with m IH(2) show ?thesis by (simp add: splits_above_def anc_parent)
      qed
    qed
    moreover have "T m j = t m j" if no: "\<not> (k < m \<and> m \<le> D \<and> j = anc k i m)" for m j
    proof -
      have "\<not> (Suc k < m \<and> m \<le> D \<and> j = anc (Suc k) ?j m)"
        using no by (auto simp: anc_parent)
      from IH(3) [OF this] no 3 show ?thesis by (auto simp: tput_def anc_Suc)
    qed
    ultimately show ?thesis using IH(1) by (simp add: eq)
  qed
qed

section \<open>Free frames\<close>

text \<open>Ancestors which are split, or at least not zero, do not decide whether a frame is free.\<close>

lemma ancestors_nonzero:
  assumes "\<And>m. k \<le> m \<Longrightarrow> m < D \<Longrightarrow>
      split_at t m (anc k i (Suc m)) \<or> t (Suc m) (anc k i (Suc m)) \<noteq> 0"
    and "\<And>m. m \<le> D \<Longrightarrow> \<not> (k < m \<and> x div 2 ^ m = anc k i m) \<Longrightarrow> t m (x div 2 ^ m) \<noteq> 0"
    and "m \<le> D"
  shows "t m (x div 2 ^ m) \<noteq> 0"
  using assms(3)
proof (induction m)
  case 0
  then show ?case using assms(2) [of 0] by simp
next
  case (Suc m)
  show ?case
  proof (cases "k < Suc m \<and> x div 2 ^ Suc m = anc k i (Suc m)")
    case True
    have "x div 2 ^ Suc m = x div 2 ^ m div 2" by (rule div_two_power_Suc)
    with True have par: "anc k i (Suc m) = x div 2 ^ m div 2" by simp
    from Suc have "t m (x div 2 ^ m) \<noteq> 0" by simp
    then have "t (Suc m) (x div 2 ^ m div 2) \<noteq> 0"
      using assms(1) [of m] split_at_ge_child [of t m "x div 2 ^ m"] True Suc.prems
      unfolding par by linarith
    with True par show ?thesis by simp
  next
    case False
    with assms(2) Suc.prems show ?thesis by blast
  qed
qed

lemma mem_free_in_iff:
  assumes "\<And>m. k \<le> m \<Longrightarrow> m < D \<Longrightarrow>
      split_at t m (anc k i (Suc m)) \<or> t (Suc m) (anc k i (Suc m)) \<noteq> 0"
  shows "x \<in> free_in D n t \<longleftrightarrow> x < n * 2 ^ D \<and>
    (\<forall>m \<le> D. \<not> (k < m \<and> x div 2 ^ m = anc k i m) \<longrightarrow> t m (x div 2 ^ m) \<noteq> 0)"
proof -
  have "t m (x div 2 ^ m) \<noteq> 0"
    if "\<forall>m \<le> D. \<not> (k < m \<and> x div 2 ^ m = anc k i m) \<longrightarrow> t m (x div 2 ^ m) \<noteq> 0" "m \<le> D" for m
    by (rule ancestors_nonzero [where k = k and i = i and D = D]) (use assms that in simp_all)
  then show ?thesis by (auto simp: free_in_def)
qed

lemma full_below:
  assumes "tree_inv D t" "k \<le> D" "t k i = Suc k" "x \<in> block k i" "m \<le> k"
  shows "t m (x div 2 ^ m) = Suc m"
  using assms(5)
proof (induction m rule: inc_induct)
  case base
  then show ?case using assms(3,4) by (simp add: block_def)
next
  case (step m)
  have par: "x div 2 ^ Suc m = x div 2 ^ m div 2" by (rule div_two_power_Suc)
  have "bounded t" "split_at t m (x div 2 ^ Suc m) \<or> whole_at t m (x div 2 ^ Suc m)"
    using assms(1,2) step by (auto simp: tree_inv_def)
  then have "whole_at t m (x div 2 ^ Suc m)"
    using split_at_le [of t m "x div 2 ^ Suc m"] step.IH by auto
  then show ?case unfolding par by (rule whole_at_child)
qed

text \<open>A block is a range of frames.\<close>

lemma block_eq: "block k i = {i * 2 ^ k ..< Suc i * 2 ^ k}"
proof -
  have "x div 2 ^ k = i \<longleftrightarrow> i \<le> x div 2 ^ k \<and> x div 2 ^ k < Suc i" for x
    by linarith
  then show ?thesis
    unfolding block_def atLeastLessThan_def atLeast_def lessThan_def
    by (simp only: less_eq_div_iff_mult_less_eq div_less_iff_less_mult zero_less_power
        zero_less_numeral Collect_conj_eq)
qed

lemma block_parent: "x \<in> block k i \<Longrightarrow> k \<le> m \<Longrightarrow> x div 2 ^ m = anc k i m"
  by (simp add: block_def div_two_power_anc)

lemma block_overlap:
  assumes "x \<in> block k i" "x \<in> block k' i'" "k \<le> k'"
  shows "i' = anc k i k'"
  using block_parent [OF assms(1,3)] assms(2) by (simp add: block_def)

section \<open>Handing out and returning a block\<close>

text \<open>The change both operations make: node \<open>(k, i)\<close> gets a value and its ancestors are repaired.\<close>

definition tset :: "nat \<Rightarrow> tree \<Rightarrow> nat \<Rightarrow> nat \<Rightarrow> nat \<Rightarrow> tree" where
  "tset D t k i v = tfix D (tput t k i v) k i"

lemma fixable_tput:
  assumes "tree_inv D t"
  shows "fixable D (tput t k i v) k i"
  unfolding fixable_def
proof (intro allI impI)
  fix m assume m: "k < m \<and> m < D"
  then have "split_at t m (anc k i (Suc m)) \<or> whole_at t m (anc k i m div 2)"
    using assms by (auto simp: tree_inv_def anc_Suc)
  then have "split_at t m (anc k i (Suc m)) \<or> t m (anc k i m) = Suc m"
    using whole_at_child by blast
  with m show "split_at (tput t k i v) m (anc k i (Suc m)) \<or> tput t k i v m (anc k i m) = Suc m"
    by (auto simp: split_at_def tput_def)
qed

lemma tset_spec:
  assumes "tree_inv D t" "v \<le> Suc k"
  shows "bounded (tset D t k i v)" "splits_above D (tset D t k i v) k i"
    "tset D t k i v k i = v"
    "\<And>m j. \<not> (k \<le> m \<and> j = anc k i m) \<Longrightarrow> tset D t k i v m j = t m j"
proof -
  have "bounded (tput t k i v)"
    using assms by (intro bounded_tput) (simp_all add: tree_inv_def)
  note spec = tfix_spec [OF this fixable_tput [OF assms(1)]]
  show "bounded (tset D t k i v)" "splits_above D (tset D t k i v) k i"
    using spec by (simp_all add: tset_def)
  have same: "tset D t k i v m j = tput t k i v m j" if "\<not> (k < m \<and> m \<le> D \<and> j = anc k i m)" for m j
    using spec that unfolding tset_def by blast
  show "tset D t k i v k i = v" by (subst same) (simp_all add: tput_def)
  show "tset D t k i v m j = t m j" if "\<not> (k \<le> m \<and> j = anc k i m)" for m j
    using that by (subst same) (auto simp: tput_def)
qed

lemma full_whole:
  assumes "tree_inv D t" "Suc k \<le> D" "t (Suc k) i = Suc (Suc k)"
  shows "whole_at t k i"
proof -
  have "\<not> split_at t k i"
    using assms split_at_le [of t k i] by (auto simp: tree_inv_def)
  then show ?thesis using assms unfolding tree_inv_def by (meson Suc_le_lessD)
qed

text \<open>A node which is not an ancestor of \<open>(k, i)\<close> has children which are not.\<close>

lemma child_not_above:
  "\<not> (k \<le> m \<and> j = anc k i (Suc m)) \<Longrightarrow> l = 2 * j \<or> l = 2 * j + 1 \<Longrightarrow> \<not> (k \<le> m \<and> l = anc k i m)"
  by (auto simp: anc_Suc)

lemma tset_children:
  assumes "tree_inv D t" "v \<le> Suc k" "\<not> (k \<le> m \<and> j = anc k i (Suc m))"
  shows "tset D t k i v m (2 * j) = t m (2 * j)"
    "tset D t k i v m (2 * j + 1) = t m (2 * j + 1)"
  using child_not_above [OF assms(3)] by (auto intro: tset_spec(4) [OF assms(1,2)])

lemma tset_inv:
  assumes "tree_inv D t" "v = 0 \<or> v = Suc k" "\<And>k'. k = Suc k' \<Longrightarrow> whole_at t k' i"
  shows "tree_inv D (tset D t k i v)"
proof -
  have "v \<le> Suc k" using assms(2) by auto
  note spec = tset_spec [OF assms(1) this, where i = i]
  have "split_at (tset D t k i v) m j \<or> whole_at (tset D t k i v) m j" if m: "m < D" for m j
  proof (cases "k \<le> m \<and> j = anc k i (Suc m)")
    case True
    with m spec(2) show ?thesis by (simp add: splits_above_def)
  next
    case False
    note ch = tset_children [OF assms(1) \<open>v \<le> Suc k\<close> False]
    show ?thesis
    proof (cases "Suc m = k \<and> j = i")
      case True
      with assms(2,3) ch spec(3) show ?thesis by (auto simp: whole_at_def)
    next
      case False
      with \<open>\<not> (k \<le> m \<and> j = anc k i (Suc m))\<close>
      have "\<not> (k \<le> Suc m \<and> j = anc k i (Suc m))" by (auto simp: le_Suc_eq)
      then have "tset D t k i v (Suc m) j = t (Suc m) j" by (rule spec(4))
      with ch assms(1) m show ?thesis
        unfolding tree_inv_def split_at_def whole_at_def by presburger
    qed
  qed
  with spec(1) show ?thesis by (simp add: tree_inv_def)
qed

lemma free_in_tset_out:
  assumes "tree_inv D t" "v \<le> Suc k" "x \<notin> block k i"
    and "\<And>m. k \<le> m \<Longrightarrow> m < D \<Longrightarrow>
      split_at t m (anc k i (Suc m)) \<or> t (Suc m) (anc k i (Suc m)) \<noteq> 0"
  shows "x \<in> free_in D n (tset D t k i v) \<longleftrightarrow> x \<in> free_in D n t"
proof -
  note spec = tset_spec [OF assms(1,2), where i = i]
  have "tset D t k i v m (x div 2 ^ m) = t m (x div 2 ^ m)"
    if "\<not> (k < m \<and> x div 2 ^ m = anc k i m)" for m
    using that assms(3) by (intro spec(4)) (auto simp: block_def le_less)
  moreover have "x \<in> free_in D n (tset D t k i v) \<longleftrightarrow> x < n * 2 ^ D \<and> (\<forall>m \<le> D.
      \<not> (k < m \<and> x div 2 ^ m = anc k i m) \<longrightarrow> tset D t k i v m (x div 2 ^ m) \<noteq> 0)"
    using spec(2) by (intro mem_free_in_iff) (simp add: splits_above_def)
  moreover have "x \<in> free_in D n t \<longleftrightarrow> x < n * 2 ^ D \<and>
      (\<forall>m \<le> D. \<not> (k < m \<and> x div 2 ^ m = anc k i m) \<longrightarrow> t m (x div 2 ^ m) \<noteq> 0)"
    using assms(4) by (intro mem_free_in_iff)
  ultimately show ?thesis by simp
qed

lemma free_in_take:
  assumes "tree_inv D t" "k \<le> D" "\<And>m. k \<le> m \<Longrightarrow> m \<le> D \<Longrightarrow> t m (anc k i m) \<noteq> 0"
  shows "free_in D n (tset D t k i 0) = free_in D n t - block k i"
proof -
  have "x \<notin> free_in D n (tset D t k i 0)" if "x \<in> block k i" for x
    using that tset_spec(3) [OF assms(1), of 0 k i] assms(2)
    by (auto simp: free_in_def block_def)
  moreover have "x \<in> free_in D n (tset D t k i 0) \<longleftrightarrow> x \<in> free_in D n t" if "x \<notin> block k i" for x
    using assms(1,3) that by (intro free_in_tset_out) simp_all
  ultimately show ?thesis by blast
qed

lemma free_in_return:
  assumes inv: "tree_inv D t" and al: "alloc_in D t k i" and fits: "block k i \<subseteq> {..< n * 2 ^ D}"
  shows "free_in D n (tset D t k i (Suc k)) = free_in D n t \<union> block k i"
proof -
  let ?t = "tset D t k i (Suc k)"
  note spec = tset_spec [OF inv order_refl, where k = k and i = i]
  have k: "k \<le> D" using al by (simp add: alloc_in_def)
  have inv': "tree_inv D ?t"
    using al by (intro tset_inv inv) (auto simp: alloc_in_def)
  have "x \<in> free_in D n ?t" if x: "x \<in> block k i" for x
  proof -
    have "?t m (x div 2 ^ m) \<noteq> 0" if "\<not> (k < m \<and> x div 2 ^ m = anc k i m)" for m
    proof (cases "m \<le> k")
      case True
      with full_below [OF inv' k spec(3) x] show ?thesis by simp
    next
      case False
      with that block_parent [OF x, of m] show ?thesis by simp
    qed
    moreover have "x < n * 2 ^ D" using fits x by blast
    ultimately show ?thesis
      using spec(2) by (subst mem_free_in_iff [where k = k and i = i]) (auto simp: splits_above_def)
  qed
  moreover have "x \<in> free_in D n ?t \<longleftrightarrow> x \<in> free_in D n t" if "x \<notin> block k i" for x
    using inv al that by (intro free_in_tset_out) (auto simp: alloc_in_def splits_above_def)
  ultimately show ?thesis by blast
qed

section \<open>Blocks in use\<close>

lemma block_subset_anc: "k \<le> m \<Longrightarrow> block k i \<subseteq> block m (anc k i m)"
  by (auto simp: block_def div_two_power_anc)

lemma block_start: "i * 2 ^ k \<in> block k i"
  by (simp add: block_def)

lemma block_disjoint_not_above:
  assumes "block k i \<inter> block k' i' = {}"
  shows "\<not> (k \<le> k' \<and> i' = anc k i k')" "\<not> (k' \<le> k \<and> i = anc k' i' k)"
  using assms block_subset_anc block_start by blast+

lemma alloc_in_disjoint_le:
  assumes "alloc_in D t k i" "alloc_in D t k' i'" "(k, i) \<noteq> (k', i')" "k \<le> k'"
  shows "block k i \<inter> block k' i' = {}"
proof (rule ccontr)
  assume "block k i \<inter> block k' i' \<noteq> {}"
  then have i': "i' = anc k i k'" using assms(4) block_overlap by blast
  with assms(3,4) obtain m where m: "k' = Suc m" "k \<le> m"
    by (cases k') (auto simp: le_Suc_eq)
  then have "split_at t m i'" "whole_at t m i'" "t (Suc m) i' = 0"
    using assms(1,2) i' by (auto simp: alloc_in_def splits_above_def)
  then show False by (simp add: split_at_def whole_at_def)
qed

lemma alloc_in_disjoint:
  assumes "alloc_in D t k i" "alloc_in D t k' i'" "(k, i) \<noteq> (k', i')"
  shows "block k i \<inter> block k' i' = {}"
  using alloc_in_disjoint_le [OF assms] alloc_in_disjoint_le [OF assms(2,1)] assms(3)
  by (metis Int_commute nat_le_linear)

lemma alloc_in_not_free: "alloc_in D t k i \<Longrightarrow> block k i \<inter> free_in D n t = {}"
  by (auto simp: alloc_in_def free_in_def block_def)

lemma alloc_in_tset_self:
  assumes "tree_inv D t" "k \<le> D" "t k i = Suc k"
  shows "alloc_in D (tset D t k i 0) k i"
proof -
  note spec = tset_spec [OF assms(1) le0, where k = k and i = i]
  have "whole_at (tset D t k i 0) k' i" if k': "k = Suc k'" for k'
  proof -
    have "whole_at t k' i" using full_whole assms k' by blast
    moreover have "tset D t k i 0 k' j = t k' j" for j using k' by (intro spec(4)) simp
    ultimately show ?thesis using spec(3) k' by (simp add: whole_at_def)
  qed
  with assms(2) spec(2,3) show ?thesis by (simp add: alloc_in_def)
qed

lemma alloc_in_tset:
  assumes "tree_inv D t" "v \<le> Suc k" "alloc_in D t k' i'" "block k i \<inter> block k' i' = {}"
  shows "alloc_in D (tset D t k i v) k' i'"
proof -
  note spec = tset_spec [OF assms(1,2), where i = i]
  note na = block_disjoint_not_above [OF assms(4)]
  have "tset D t k i v k' i' = 0"
    using spec(4) [OF na(1)] assms(3) by (simp add: alloc_in_def)
  moreover have "whole_at (tset D t k i v) m i'" if m: "k' = Suc m" for m
  proof -
    have "\<not> (k \<le> m \<and> i' = anc k i (Suc m))" using na(1) m by auto
    from tset_children [OF assms(1,2) this] spec(4) [OF na(1)] m assms(3) show ?thesis
      by (simp add: whole_at_def alloc_in_def)
  qed
  moreover have "split_at (tset D t k i v) m (anc k' i' (Suc m))" if m: "k' \<le> m" "m < D" for m
  proof (cases "k \<le> m \<and> anc k' i' (Suc m) = anc k i (Suc m)")
    case True
    with spec(2) m show ?thesis by (simp add: splits_above_def)
  next
    case False
    let ?j = "anc k' i' (Suc m)"
    have "\<not> (k \<le> Suc m \<and> ?j = anc k i (Suc m))"
      using False na(2) m by (auto simp: le_Suc_eq)
    then have "tset D t k i v (Suc m) ?j = t (Suc m) ?j" by (rule spec(4))
    moreover note tset_children [OF assms(1,2) False]
    moreover have "split_at t m ?j" using assms(3) m by (simp add: alloc_in_def splits_above_def)
    ultimately show ?thesis unfolding split_at_def by metis
  qed
  ultimately show ?thesis using assms(3) by (simp add: alloc_in_def splits_above_def)
qed

section \<open>Marking a block free at start-up\<close>

text \<open>Before anything has been handed out, a zero node stands over zero nodes.\<close>

definition quiet :: "nat \<Rightarrow> tree \<Rightarrow> bool" where
  "quiet D t \<longleftrightarrow> (\<forall>k j. k < D \<and> t (Suc k) j = 0 \<longrightarrow> split_at t k j)"

definition tfill :: "tree \<Rightarrow> nat \<Rightarrow> nat \<Rightarrow> tree" where
  "tfill t k i = (\<lambda>m j. if m \<le> k \<and> anc m j k = i then Suc m else t m j)"

definition tforce :: "nat \<Rightarrow> tree \<Rightarrow> nat \<Rightarrow> nat \<Rightarrow> tree" where
  "tforce D t k i = tfix D (tfill t k i) k i"

lemma fixable_tfill:
  assumes "tree_inv D t"
  shows "fixable D (tfill t k i) k i"
proof -
  have "fixable D (tput t k i 0) k i" using assms by (rule fixable_tput)
  then show ?thesis
    unfolding fixable_def split_at_def tput_def tfill_def by auto
qed

lemma tforce_spec:
  assumes "tree_inv D t"
  shows "bounded (tforce D t k i)" "splits_above D (tforce D t k i) k i"
    "\<And>m j. \<not> (k < m \<and> j = anc k i m) \<Longrightarrow> tforce D t k i m j = tfill t k i m j"
proof -
  have "bounded (tfill t k i)"
    using assms by (auto simp: tree_inv_def bounded_def tfill_def)
  note spec = tfix_spec [OF this fixable_tfill [OF assms]]
  show "bounded (tforce D t k i)" "splits_above D (tforce D t k i) k i"
    using spec by (simp_all add: tforce_def)
  show "tforce D t k i m j = tfill t k i m j" if "\<not> (k < m \<and> j = anc k i m)" for m j
    using spec that unfolding tforce_def by blast
qed

lemma anc_child: "m < k \<Longrightarrow> l = 2 * j \<or> l = 2 * j + 1 \<Longrightarrow> anc m l k = anc (Suc m) j k"
  using anc_parent [of m k l] by auto

lemma tforce_node:
  assumes "tree_inv D t" "m < D" "k \<le> D"
  shows "split_at (tforce D t k i) m j \<or> whole_at (tforce D t k i) m j"
    "quiet D t \<Longrightarrow> tforce D t k i (Suc m) j = 0 \<Longrightarrow> split_at (tforce D t k i) m j"
proof -
  note spec = tforce_spec [OF assms(1), where k = k and i = i]
  let ?t = "tforce D t k i"
  consider "k \<le> m" "j = anc k i (Suc m)" | "m < k" "anc (Suc m) j k = i"
    | "\<not> (k \<le> m \<and> j = anc k i (Suc m))" "\<not> (m < k \<and> anc (Suc m) j k = i)" by linarith
  then have "split_at ?t m j \<or> whole_at ?t m j \<and> ?t (Suc m) j \<noteq> 0 \<or>
      ?t (Suc m) j = t (Suc m) j \<and> ?t m (2 * j) = t m (2 * j) \<and> ?t m (2 * j + 1) = t m (2 * j + 1)"
  proof cases
    case 1
    with spec(2) assms(2) show ?thesis by (simp add: splits_above_def)
  next
    case 2
    have "?t m l = Suc m" if "l = 2 * j \<or> l = 2 * j + 1" for l
      using 2 anc_child [OF 2(1) that] by (subst spec(3)) (simp_all add: tfill_def)
    moreover have "?t (Suc m) j = Suc (Suc m)"
      using 2 by (subst spec(3)) (simp_all add: tfill_def)
    ultimately have "?t (Suc m) j = Suc (Suc m)" "?t m (2 * j) = Suc m" "?t m (2 * j + 1) = Suc m"
      by simp_all
    then show ?thesis by (simp add: whole_at_def)
  next
    case 3
    have "?t m l = t m l" if "l = 2 * j \<or> l = 2 * j + 1" for l
    proof -
      have "\<not> (k \<le> m \<and> l = anc k i m)" by (rule child_not_above [OF 3(1) that])
      moreover have "anc m l k = anc (Suc m) j k" if "m < k"
        using that \<open>l = 2 * j \<or> l = 2 * j + 1\<close> by (rule anc_child)
      ultimately show ?thesis using 3(2) by (subst spec(3)) (auto simp: tfill_def le_less)
    qed
    moreover have "?t (Suc m) j = t (Suc m) j"
      using 3 by (subst spec(3)) (auto simp: tfill_def Suc_le_eq less_Suc_eq_le)
    ultimately show ?thesis by simp
  qed
  then show "split_at ?t m j \<or> whole_at ?t m j"
    "quiet D t \<Longrightarrow> ?t (Suc m) j = 0 \<Longrightarrow> split_at ?t m j"
    using assms(1,2) unfolding tree_inv_def quiet_def split_at_def whole_at_def by metis+
qed

lemma tforce_inv:
  assumes "tree_inv D t" "k \<le> D"
  shows "tree_inv D (tforce D t k i)" "quiet D t \<Longrightarrow> quiet D (tforce D t k i)"
  using tforce_node [OF assms(1) _ assms(2), where i = i] tforce_spec(1) [OF assms(1), where k = k and i = i]
  unfolding tree_inv_def [of _ "tforce D t k i"] quiet_def [of _ "tforce D t k i"] by blast+

lemma free_in_tforce:
  assumes inv: "tree_inv D t" and q: "quiet D t" and k: "k \<le> D"
    and fits: "block k i \<subseteq> {..< n * 2 ^ D}"
  shows "free_in D n (tforce D t k i) = free_in D n t \<union> block k i"
proof -
  let ?t = "tforce D t k i"
  note spec = tforce_spec [OF inv, where k = k and i = i]
  have iff': "x \<in> free_in D n ?t \<longleftrightarrow> x < n * 2 ^ D \<and> (\<forall>m \<le> D.
      \<not> (k < m \<and> x div 2 ^ m = anc k i m) \<longrightarrow> tfill t k i m (x div 2 ^ m) \<noteq> 0)" for x
    using spec(2) by (subst mem_free_in_iff [where k = k and i = i])
      (auto simp: splits_above_def spec(3))
  have iff: "x \<in> free_in D n t \<longleftrightarrow> x < n * 2 ^ D \<and>
      (\<forall>m \<le> D. \<not> (k < m \<and> x div 2 ^ m = anc k i m) \<longrightarrow> t m (x div 2 ^ m) \<noteq> 0)" for x
    using q by (intro mem_free_in_iff) (auto simp: quiet_def)
  have "tfill t k i m (x div 2 ^ m) = (if m \<le> k \<and> x \<in> block k i then Suc m else t m (x div 2 ^ m))"
    for m x
    by (auto simp: tfill_def block_def simp flip: div_two_power_anc)
  moreover have "m \<le> k" if "x \<in> block k i" "\<not> (k < m \<and> x div 2 ^ m = anc k i m)" for m x
    using that block_parent [OF that(1), of m] by auto
  ultimately have "x \<in> free_in D n ?t \<longleftrightarrow> x \<in> free_in D n t \<or> x \<in> block k i" for x
    unfolding iff' iff using fits by auto
  then show ?thesis by blast
qed

text \<open>The empty system.\<close>

lemma tree_inv_zero: "tree_inv D (\<lambda>_ _. 0)" "quiet D (\<lambda>_ _. 0)"
  by (simp_all add: tree_inv_def bounded_def split_at_def quiet_def)

lemma free_in_zero: "free_in D n (\<lambda>_ _. 0) = {}"
  by (auto simp: free_in_def)

end
