(* ===== verification/Frame_Alloc.thy ===== *)
theory Frame_Alloc
  imports Buddy_Tree
begin

text \<open>
  The contract of a frame allocator, and what a client of it may rely on: over any sequence of
  requests, the extents handed out are disjoint from one another and from the free frames, and no
  frame is lost or invented.  The contract speaks of blocks \<open>(k, i)\<close> of \<open>2 ^ k\<close> frames, which the
  allocator hands out by their first frame \<open>i * 2 ^ k\<close>.
\<close>

section \<open>A client\<close>

datatype request = Reserve nat | Release nat

type_synonym extent = "nat \<times> nat"

definition frames_of :: "extent \<Rightarrow> nat set" where
  "frames_of e = {fst e ..< fst e + 2 ^ snd e}"

lemma frames_of_block: "frames_of (i * 2 ^ k, k) = block k i"
  by (simp add: frames_of_def block_eq add.commute)

lemma extent_eqI:
  "fst e = i * 2 ^ snd e \<Longrightarrow> fst e' = j * 2 ^ snd e' \<Longrightarrow> (snd e, i) = (snd e', j) \<Longrightarrow> e = e'"
  for e e' :: extent
  by (cases e, cases e') simp

text \<open>\<open>Reserve k\<close> asks for a block of order \<open>k\<close> and \<open>Release n\<close> gives back the \<open>n\<close>-th extent held.\<close>

fun client_step ::
  "('s \<Rightarrow> nat \<Rightarrow> (nat option \<times> 's) res) \<Rightarrow> ('s \<Rightarrow> nat \<Rightarrow> nat \<Rightarrow> 's res) \<Rightarrow>
     request \<Rightarrow> 's \<times> extent list \<Rightarrow> ('s \<times> extent list) res" where
  "client_step reserve release (Reserve k) (s, held) =
     rbind (reserve s k) (\<lambda>(r, s').
     Inr (s', case r of None \<Rightarrow> held | Some x \<Rightarrow> (x, k) # held))"
| "client_step reserve release (Release n) (s, held) =
     (if n < length held
      then rbind (release s (fst (held ! n)) (snd (held ! n))) (\<lambda>s'.
           Inr (s', take n held @ drop (Suc n) held))
      else Inr (s, held))"

definition client_run ::
  "('s \<Rightarrow> nat \<Rightarrow> (nat option \<times> 's) res) \<Rightarrow> ('s \<Rightarrow> nat \<Rightarrow> nat \<Rightarrow> 's res) \<Rightarrow>
     request list \<Rightarrow> 's \<times> extent list \<Rightarrow> ('s \<times> extent list) res" where
  "client_run reserve release = rfold (client_step reserve release)"

fun request_ok :: "nat \<Rightarrow> request \<Rightarrow> bool" where
  "request_ok m (Reserve k) \<longleftrightarrow> k \<le> m"
| "request_ok m (Release n) \<longleftrightarrow> True"

lemma remove_nth:
  assumes "n < length xs" "distinct xs"
  shows "set (take n xs @ drop (Suc n) xs) = set xs - {xs ! n}"
    "distinct (take n xs @ drop (Suc n) xs)"
proof -
  define ys zs where "ys = take n xs" and "zs = drop (Suc n) xs"
  have xs: "xs = ys @ xs ! n # zs" using assms(1) by (simp add: ys_def zs_def id_take_nth_drop)
  then have d: "distinct (ys @ xs ! n # zs)" using assms(2) by simp
  have "set xs = set (ys @ xs ! n # zs)" using xs by simp
  with d show "set (take n xs @ drop (Suc n) xs) = set xs - {xs ! n}"
    "distinct (take n xs @ drop (Suc n) xs)"
    unfolding ys_def [symmetric] zs_def [symmetric] by auto
qed

section \<open>The contract\<close>

locale frame_allocator =
  fixes inv :: "'s \<Rightarrow> bool"
    and limit :: "'s \<Rightarrow> nat"
    and free_set :: "'s \<Rightarrow> nat set"
    and used :: "'s \<Rightarrow> nat \<Rightarrow> nat \<Rightarrow> bool"
    and reserve :: "'s \<Rightarrow> nat \<Rightarrow> (nat option \<times> 's) res"
    and release :: "'s \<Rightarrow> nat \<Rightarrow> nat \<Rightarrow> 's res"
  assumes reserve_law: "inv s \<Longrightarrow> k \<le> limit s \<Longrightarrow> reserve s k = Inr (None, s) \<or>
      (\<exists>i s'. reserve s k = Inr (Some (i * 2 ^ k), s') \<and> inv s' \<and> limit s' = limit s \<and>
        block k i \<subseteq> free_set s \<and> free_set s' = free_set s - block k i \<and> used s' k i \<and>
        (\<forall>k' j. used s k' j \<longrightarrow> used s' k' j))"
    and release_law: "inv s \<Longrightarrow> used s k i \<Longrightarrow>
      \<exists>s'. release s (i * 2 ^ k) k = Inr s' \<and> inv s' \<and> limit s' = limit s \<and>
        free_set s' = free_set s \<union> block k i \<and>
        (\<forall>k' j. used s k' j \<and> (k', j) \<noteq> (k, i) \<longrightarrow> used s' k' j)"
    and used_disjoint: "used s k i \<Longrightarrow> used s k' j \<Longrightarrow> (k, i) \<noteq> (k', j) \<Longrightarrow>
      block k i \<inter> block k' j = {}"
    and used_not_free: "used s k i \<Longrightarrow> block k i \<inter> free_set s = {}"
begin

definition held_ok :: "'s \<Rightarrow> extent list \<Rightarrow> bool" where
  "held_ok s held \<longleftrightarrow> distinct held \<and> (\<forall>e \<in> set held. \<exists>i. fst e = i * 2 ^ snd e \<and> used s (snd e) i)"

definition footprint :: "'s \<Rightarrow> extent list \<Rightarrow> nat set" where
  "footprint s held = free_set s \<union> \<Union> (frames_of ` set held)"

lemma held_obtain:
  assumes "held_ok s held" "e \<in> set held"
  obtains i where "fst e = i * 2 ^ snd e" "used s (snd e) i" "frames_of e = block (snd e) i"
proof -
  obtain i where "fst e = i * 2 ^ snd e" "used s (snd e) i"
    using assms by (auto simp: held_ok_def)
  moreover from this have "frames_of e = block (snd e) i"
    using frames_of_block [of i "snd e"] by (simp add: frames_of_def)
  ultimately show ?thesis using that by blast
qed

lemma held_disjoint:
  assumes "held_ok s held" "e \<in> set held" "e' \<in> set held" "e \<noteq> e'"
  shows "frames_of e \<inter> frames_of e' = {}"
proof -
  obtain i where i: "fst e = i * 2 ^ snd e" "used s (snd e) i" "frames_of e = block (snd e) i"
    using held_obtain [OF assms(1,2)] .
  obtain j where j: "fst e' = j * 2 ^ snd e'" "used s (snd e') j" "frames_of e' = block (snd e') j"
    using held_obtain [OF assms(1,3)] .
  have "(snd e, i) \<noteq> (snd e', j)" using extent_eqI [OF i(1) j(1)] assms(4) by blast
  with used_disjoint [OF i(2) j(2)] show ?thesis by (simp add: i(3) j(3))
qed

lemma held_not_free:
  assumes "held_ok s held" "e \<in> set held"
  shows "frames_of e \<inter> free_set s = {}"
proof -
  obtain i where "used s (snd e) i" "frames_of e = block (snd e) i"
    using held_obtain [OF assms] by blast
  then show ?thesis using used_not_free by simp
qed

lemma reserve_held:
  assumes inv: "inv s" and k: "k \<le> limit s" and held: "held_ok s held"
  shows "\<exists>s' held'. client_step reserve release (Reserve k) (s, held) = Inr (s', held') \<and> inv s' \<and>
    limit s' = limit s \<and> held_ok s' held' \<and> footprint s' held' = footprint s held"
  using reserve_law [OF inv k]
proof (elim disjE exE conjE)
  assume "reserve s k = Inr (None, s)"
  with inv held show ?thesis by simp
next
  fix i s' assume r: "reserve s k = Inr (Some (i * 2 ^ k), s')" "inv s'" "limit s' = limit s"
    "block k i \<subseteq> free_set s" "free_set s' = free_set s - block k i" "used s' k i"
    "\<forall>k' j. used s k' j \<longrightarrow> used s' k' j"
  have "(i * 2 ^ k, k) \<notin> set held"
    using held_not_free [OF held, of "(i * 2 ^ k, k)"] r(4) block_start [of i k]
    by (auto simp: frames_of_block)
  with held r have "held_ok s' ((i * 2 ^ k, k) # held)" by (auto simp: held_ok_def)
  moreover have "footprint s' ((i * 2 ^ k, k) # held) = footprint s held"
    using r(4,5) by (auto simp: footprint_def frames_of_block)
  ultimately show ?thesis using r by simp
qed

lemma release_held:
  assumes inv: "inv s" and held: "held_ok s held"
  shows "\<exists>s' held'. client_step reserve release (Release n) (s, held) = Inr (s', held') \<and> inv s' \<and>
    limit s' = limit s \<and> held_ok s' held' \<and> footprint s' held' = footprint s held"
proof (cases "n < length held")
  case True
  define e rest where "e = held ! n" and "rest = take n held @ drop (Suc n) held"
  have e: "e \<in> set held" using True by (simp add: e_def)
  have rest: "set rest = set held - {e}" "distinct rest"
    using remove_nth [OF True] held by (simp_all add: held_ok_def rest_def e_def)
  obtain i where i: "fst e = i * 2 ^ snd e" "used s (snd e) i" "frames_of e = block (snd e) i"
    using held_obtain [OF held e] .
  obtain s' where s': "release s (i * 2 ^ snd e) (snd e) = Inr s'" "inv s'" "limit s' = limit s"
    "free_set s' = free_set s \<union> block (snd e) i"
    "\<forall>k' j. used s k' j \<and> (k', j) \<noteq> (snd e, i) \<longrightarrow> used s' k' j"
    using release_law [OF inv i(2)] by blast
  have "used s' (snd e') j" if "e' \<in> set rest" "fst e' = j * 2 ^ snd e'" "used s (snd e') j" for e' j
  proof -
    have "(snd e', j) \<noteq> (snd e, i)" using extent_eqI [OF that(2) i(1)] that(1) rest(1) by blast
    with s'(5) that(3) show ?thesis by blast
  qed
  then have "held_ok s' rest" using held rest unfolding held_ok_def by blast
  moreover have "footprint s' rest = footprint s held"
    using s'(4) i(3) rest(1) e by (auto simp: footprint_def)
  moreover have "client_step reserve release (Release n) (s, held) = Inr (s', rest)"
    using True s'(1) i(1) by (simp add: rest_def e_def)
  ultimately show ?thesis using s'(2,3) by blast
next
  case False
  with inv held show ?thesis by simp
qed

lemma run_held:
  assumes "inv s" "held_ok s held" "\<forall>r \<in> set reqs. request_ok (limit s) r"
  shows "\<exists>s' held'. client_run reserve release reqs (s, held) = Inr (s', held') \<and> inv s' \<and>
    limit s' = limit s \<and> held_ok s' held' \<and> footprint s' held' = footprint s held"
  using assms
proof (induction reqs arbitrary: s held)
  case Nil
  then show ?case by (simp add: client_run_def)
next
  case (Cons r reqs)
  have "\<exists>s' held'. client_step reserve release r (s, held) = Inr (s', held') \<and> inv s' \<and>
      limit s' = limit s \<and> held_ok s' held' \<and> footprint s' held' = footprint s held"
  proof (cases r)
    case (Reserve k)
    with reserve_held [OF Cons.prems(1) _ Cons.prems(2)] Cons.prems(3) show ?thesis by simp
  next
    case (Release n)
    with release_held [OF Cons.prems(1,2)] show ?thesis by simp
  qed
  then obtain s1 h1 where 1: "client_step reserve release r (s, held) = Inr (s1, h1)" "inv s1"
    "limit s1 = limit s" "held_ok s1 h1" "footprint s1 h1 = footprint s held" by blast
  with Cons.IH [OF 1(2,4)] Cons.prems(3) show ?case by (simp add: client_run_def)
qed

text \<open>The guarantee to a client that starts with nothing.\<close>

lemma run_from_start:
  assumes "inv s" "\<forall>r \<in> set reqs. request_ok (limit s) r"
  shows "\<exists>s' held. client_run reserve release reqs (s, []) = Inr (s', held) \<and> inv s' \<and>
    (\<forall>e \<in> set held. frames_of e \<inter> free_set s' = {} \<and>
      (\<forall>e' \<in> set held. e \<noteq> e' \<longrightarrow> frames_of e \<inter> frames_of e' = {})) \<and>
    free_set s' \<union> \<Union> (frames_of ` set held) = free_set s"
proof -
  have "held_ok s []" by (simp add: held_ok_def)
  from run_held [OF assms(1) this assms(2)] obtain s' held where
    "client_run reserve release reqs (s, []) = Inr (s', held)" "inv s'" "held_ok s' held"
    "footprint s' held = footprint s []" by blast
  with held_disjoint held_not_free show ?thesis
    by (intro exI [of _ s'] exI [of _ held]) (simp add: footprint_def)
qed

end

end
