(* ===== verification/Buddy.thy ===== *)
theory Buddy
  imports Array_Forest Frame_Alloc
begin

text \<open>
  The buddy system of \<^verbatim>\<open>src/src/mem/phy/buddy.rs\<close>: each node of the forest records the largest
  free block below it.

  The search of \<^verbatim>\<open>reserve\<close> is a loop over a cursor and an explicit stack; it is a total function
  here, since the depth of a cursor is a \<^verbatim>\<open>usize\<close> whose increment panics on overflow.
\<close>

section \<open>Buddies\<close>

datatype buddy = Buddy (level: nat)

text \<open>The order derived for \<^verbatim>\<open>Buddy\<close> compares the single field.\<close>

definition buddy_le :: "buddy \<Rightarrow> buddy \<Rightarrow> bool" where
  "buddy_le a b \<longleftrightarrow> level a \<le> level b"

definition buddy_lt :: "buddy \<Rightarrow> buddy \<Rightarrow> bool" where
  "buddy_lt a b \<longleftrightarrow> level a < level b"

instantiation buddy :: linorder
begin

definition less_eq_buddy :: "buddy \<Rightarrow> buddy \<Rightarrow> bool" where
  "less_eq_buddy = buddy_le"

definition less_buddy :: "buddy \<Rightarrow> buddy \<Rightarrow> bool" where
  "less_buddy = buddy_lt"

instance
  by standard (auto simp: less_eq_buddy_def less_buddy_def buddy_le_def buddy_lt_def intro: buddy.expand)

end

definition buddy_free :: "nat \<Rightarrow> buddy res" where
  "buddy_free order =
     rbind (rassert (order \<noteq> 255)) (\<lambda>_. rbind (u8_add order 1) (\<lambda>v. Inr (Buddy v)))"

definition buddy_reserved :: buddy where
  "buddy_reserved = Buddy 0"

definition is_reserved :: "buddy \<Rightarrow> bool" where
  "is_reserved b \<longleftrightarrow> level b = 0"

definition is_free :: "buddy \<Rightarrow> bool" where
  "is_free b \<longleftrightarrow> \<not> is_reserved b"

definition buddy_order :: "buddy \<Rightarrow> nat res" where
  "buddy_order b = u8_sub (level b) 1"

section \<open>The buddy system\<close>

definition BUDDY_MAX_ORDER :: nat where "BUDDY_MAX_ORDER = 18"

definition BUDDY_MAX_DEPTH :: nat where "BUDDY_MAX_DEPTH = BUDDY_MAX_ORDER"

record buddy_system =
  bs_map :: "buddy array_forest"
  bs_max_order :: nat

definition buddy_new ::
  "nat \<Rightarrow> (layout \<Rightarrow> 's \<Rightarrow> ('p option \<times> 's) res) \<Rightarrow> 's \<Rightarrow> (buddy_system option \<times> 's) res" where
  "buddy_new page_cnt boot_alloc s =
     rbind (next_power_of_two page_cnt) (\<lambda>dummy_page_cnt.
     rbind (ilog2 dummy_page_cnt) (\<lambda>lg.
     let max_order = min (lg mod 256) BUDDY_MAX_ORDER in
     rbind (u8_add max_order 1) (\<lambda>tree_depth.
     rbind (usize_shl 1 max_order) (\<lambda>w.
     rbind (div_ceil page_cnt w) (\<lambda>tree_cnt.
     rbind (forest_new 1 1 tree_cnt tree_depth boot_alloc buddy_reserved s) (\<lambda>(m, s').
     Inr (map_option (\<lambda>f. \<lparr>bs_map = f, bs_max_order = max_order\<rparr>) m, s')))))))"

definition depth_to_order :: "buddy_system \<Rightarrow> nat \<Rightarrow> nat res" where
  "depth_to_order b depth =
     rbind (max_depth (bs_map b)) (\<lambda>m. rbind (usize_sub m depth) (\<lambda>o'. Inr (o' mod 256)))"

definition order_to_depth :: "buddy_system \<Rightarrow> nat \<Rightarrow> nat res" where
  "order_to_depth b order = rbind (max_depth (bs_map b)) (\<lambda>m. usize_sub m order)"

text \<open>\<^verbatim>\<open>fixup_map\<close>: recompute the ancestors of the cursor until one does not change.\<close>

lemma cursor_up_sibling_depth:
  "cu_depth c \<noteq> 0 \<Longrightarrow> cu_depth (snd (cursor_up (snd (cursor_sibling c)))) < cu_depth c"
  by (simp add: cursor_up_def cursor_sibling_def)

function fixup_map :: "buddy array_forest \<Rightarrow> cursor \<Rightarrow> buddy array_forest res" where
  "fixup_map f c =
     (if cu_depth c = 0 then Inr f
      else rbind (cursor_get f c) (\<lambda>me.
           rbind (cursor_get f (snd (cursor_sibling c))) (\<lambda>sib.
           rbind (cursor_get f (snd (cursor_up (snd (cursor_sibling c))))) (\<lambda>cur.
           if cur = max me sib then Inr f
           else rbind (cursor_put f (snd (cursor_up (snd (cursor_sibling c)))) (max me sib)) (\<lambda>f'.
                fixup_map f' (snd (cursor_up (snd (cursor_sibling c)))))))))"
  by pat_completeness auto
termination
  by (relation "measure (\<lambda>(f, c). cu_depth c)") (simp_all add: cursor_up_sibling_depth)

declare fixup_map.simps [simp del]

definition buddy_system_free :: "buddy_system \<Rightarrow> nat \<Rightarrow> nat \<Rightarrow> buddy_system res" where
  "buddy_system_free b idx order =
     rbind (order_to_depth b order) (\<lambda>depth.
     rbind (usize_shr idx order) (\<lambda>i.
     rbind (forest_cursor (bs_map b) depth i) (\<lambda>c.
     rbind (cursor_get (bs_map b) c) (\<lambda>buddy.
     rbind (rassert (is_reserved buddy)) (\<lambda>_.
     rbind (buddy_free order) (\<lambda>v.
     rbind (cursor_put (bs_map b) c v) (\<lambda>f.
     rbind (fixup_map f c) (\<lambda>f'. Inr (b\<lparr>bs_map := f'\<rparr>)))))))))"

text \<open>One iteration of the loop of \<^verbatim>\<open>free_forced\<close>.\<close>

definition free_forced_level ::
  "nat \<Rightarrow> nat \<Rightarrow> nat \<Rightarrow> nat \<Rightarrow> buddy array_forest \<Rightarrow> buddy array_forest res" where
  "free_forced_level idx max_d target_depth depth f =
     rbind (usize_sub max_d depth) (\<lambda>order.
     rbind (usize_sub depth target_depth) (\<lambda>up.
     rbind (usize_shl 1 up) (\<lambda>block_cnt.
     rbind (usize_shr idx order) (\<lambda>start.
     rbind (usize_add start block_cnt) (\<lambda>end'.
     rbind (buddy_free (order mod 256)) (\<lambda>v.
     slice_mut_fill f depth start end' v))))))"

definition free_forced :: "buddy_system \<Rightarrow> nat \<Rightarrow> nat \<Rightarrow> buddy_system res" where
  "free_forced b idx order =
     rbind (rassert (order \<le> bs_max_order b)) (\<lambda>_.
     rbind (max_depth (bs_map b)) (\<lambda>max_d.
     rbind (usize_sub max_d order) (\<lambda>target_depth.
     rbind (rfold (free_forced_level idx max_d target_depth)
              [target_depth..<Suc max_d] (bs_map b)) (\<lambda>f.
     rbind (usize_shr idx order) (\<lambda>i.
     rbind (forest_cursor f target_depth i) (\<lambda>c.
     rbind (fixup_map f c) (\<lambda>f'. Inr (b\<lparr>bs_map := f'\<rparr>))))))))"

text \<open>The scan of \<^verbatim>\<open>reserve\<close> over the roots.\<close>

fun find_root :: "nat \<Rightarrow> nat \<Rightarrow> buddy list \<Rightarrow> nat option res" where
  "find_root order idx [] = Inr None"
| "find_root order idx (root # rest) =
     (if is_free root
      then rbind (buddy_order root) (\<lambda>k.
           if order < k then Inr (Some idx) else find_root order (Suc idx) rest)
      else find_root order (Suc idx) rest)"

text \<open>The search loop of \<^verbatim>\<open>reserve\<close>.  The stack is an \<^verbatim>\<open>ArrayVec\<close> of capacity
  \<open>BUDDY_MAX_DEPTH\<close>; \<open>None\<close> is the end of the loop with no block found.\<close>

definition search_weight :: "cursor \<Rightarrow> nat" where
  "search_weight c = 3 ^ (usize_limit - cu_depth c)"

lemma cursor_down_depth:
  "cursor_down c k = Inr (True, c') \<Longrightarrow>
     cu_depth c' = Suc (cu_depth c) \<and> cu_depth c' < usize_limit"
  by (auto simp: cursor_down_def res_iffs usize_add_def split: if_splits)

lemma search_weight_split:
  assumes "cursor_right c = Inr (True, r)" "cursor_left c = Inr (x, l)"
  shows "search_weight l + search_weight r < search_weight c"
proof -
  have r: "cu_depth r = Suc (cu_depth c)" "cu_depth r < usize_limit"
    using assms(1) by (auto simp: cursor_right_def dest: cursor_down_depth)
  have "cu_depth c \<noteq> cu_max_depth c"
    using assms(1) by (auto simp: cursor_right_def cursor_down_def)
  then have "x = True" using assms(2)
    by (auto simp: cursor_left_def cursor_down_def res_iffs split: if_splits)
  then have l: "cu_depth l = Suc (cu_depth c)"
    using assms(2) by (auto simp: cursor_left_def dest: cursor_down_depth)
  obtain n where n: "usize_limit - cu_depth c = Suc n"
    using r by (metis Suc_diff_Suc Suc_lessD)
  then have "usize_limit - Suc (cu_depth c) = n" by simp
  with n l r show ?thesis by (simp add: search_weight_def)
qed

function (sequential) reserve_search ::
  "buddy_system \<Rightarrow> nat \<Rightarrow> cursor \<Rightarrow> cursor list \<Rightarrow> cursor option res" where
  "reserve_search b order c stack =
     rbind (cursor_get (bs_map b) c) (\<lambda>cur.
     if is_reserved cur then
       (case stack of [] \<Rightarrow> Inr None | c' # stack' \<Rightarrow> reserve_search b order c' stack')
     else
       rbind (depth_to_order b (cu_depth c)) (\<lambda>cur_max_order.
       rbind (buddy_order cur) (\<lambda>cur_order.
       if cur_order < order then
         (case stack of [] \<Rightarrow> Inr None | c' # stack' \<Rightarrow> reserve_search b order c' stack')
       else if cur_order = order \<and> cur_order = cur_max_order then Inr (Some c)
       else
         rbind (cursor_right c) (\<lambda>(not_end, rewind).
         if \<not> not_end then Inl AssertFailed
         else if BUDDY_MAX_DEPTH \<le> length stack then Inl CapacityExceeded
         else rbind (cursor_left c) (\<lambda>(_, c'). reserve_search b order c' (rewind # stack))))))"
  by pat_completeness auto
termination
proof (relation "measure (\<lambda>(b, order, c, stack).
    search_weight c + sum_list (map search_weight stack))", goal_cases)
  case 1
  show ?case by simp
next
  case (2 b order c stack cur c' stack')
  then show ?case by (simp add: search_weight_def)
next
  case (3 b order c stack cur x1 x2 c' stack')
  then show ?case by (simp add: search_weight_def)
next
  case (4 b order c stack cur x1 x2 y not_end rewind z zz c')
  then show ?case using search_weight_split [of c rewind] by auto
qed

declare reserve_search.simps [simp del]

definition buddy_reserve :: "buddy_system \<Rightarrow> nat \<Rightarrow> (nat option \<times> buddy_system) res" where
  "buddy_reserve b order =
     rbind (rassert (order \<le> bs_max_order b)) (\<lambda>_.
     rbind (forest_slice (bs_map b) 0) (\<lambda>roots.
     rbind (find_root order 0 roots) (\<lambda>ro.
     case ro of None \<Rightarrow> Inr (None, b)
     | Some ri \<Rightarrow>
       rbind (forest_cursor (bs_map b) 0 ri) (\<lambda>start.
       rbind (reserve_search b order start []) (\<lambda>found.
       case found of None \<Rightarrow> Inl UnreachableCode
       | Some c \<Rightarrow>
         rbind (cursor_idx (bs_map b) c) (\<lambda>idx.
         rbind (forest_cursor (bs_map b) (cu_depth c) idx) (\<lambda>cm.
         rbind (cursor_put (bs_map b) cm buddy_reserved) (\<lambda>f.
         rbind (fixup_map f cm) (\<lambda>f'.
         rbind (usize_shl idx order) (\<lambda>r.
         Inr (Some r, b\<lparr>bs_map := f'\<rparr>)))))))))))"

section \<open>The tree of a forest\<close>

definition top_order :: "'a array_forest \<Rightarrow> nat" where
  "top_order f = af_tree_depth f - 1"

definition node_at :: "'a array_forest \<Rightarrow> nat \<Rightarrow> nat \<Rightarrow> bool" where
  "node_at f k i \<longleftrightarrow> k \<le> top_order f \<and> i < af_tree_cnt f * 2 ^ (top_order f - k)"

definition lv :: "buddy array_forest \<Rightarrow> tree" where
  "lv f k i = (if node_at f k i then level (nd f (top_order f - k) i) else 0)"

definition buddy_inv :: "buddy_system \<Rightarrow> bool" where
  "buddy_inv b \<longleftrightarrow> forest_wf (bs_map b) \<and> bs_max_order b = top_order (bs_map b) \<and>
     bs_max_order b \<le> BUDDY_MAX_ORDER \<and> tree_inv (bs_max_order b) (lv (bs_map b))"

definition free_frames :: "buddy_system \<Rightarrow> nat set" where
  "free_frames b = free_in (bs_max_order b) (af_tree_cnt (bs_map b)) (lv (bs_map b))"

definition in_use :: "buddy_system \<Rightarrow> nat \<Rightarrow> nat \<Rightarrow> bool" where
  "in_use b k i \<longleftrightarrow> node_at (bs_map b) k i \<and> alloc_in (bs_max_order b) (lv (bs_map b)) k i"

lemma node_at_ok: "forest_wf f \<Longrightarrow> node_at f k i \<Longrightarrow> node_ok f (top_order f - k) i"
  by (auto simp: node_at_def node_ok_def forest_wf_def top_order_def)

lemma top_order_put [simp]: "top_order (nd_put f d i v) = top_order f"
  by (simp add: top_order_def)

lemma node_at_put [simp]: "node_at (nd_put f d i v) = node_at f"
  by (simp add: node_at_def fun_eq_iff)

lemma node_at_parent: "node_at f k i \<Longrightarrow> k < top_order f \<Longrightarrow> node_at f (Suc k) (i div 2)"
proof -
  assume a: "node_at f k i" "k < top_order f"
  then have "top_order f - k = Suc (top_order f - Suc k)" by simp
  with a have "i < 2 * (af_tree_cnt f * 2 ^ (top_order f - Suc k))"
    by (simp add: node_at_def mult.left_commute)
  with a show ?thesis by (simp add: node_at_def)
qed

lemma node_at_anc: "node_at f k i \<Longrightarrow> k \<le> m \<Longrightarrow> m \<le> top_order f \<Longrightarrow> node_at f m (anc k i m)"
proof (induction "m - k" arbitrary: m)
  case (Suc n)
  then obtain m' where m: "m = Suc m'" "k \<le> m'" "n = m' - k" by (cases m) auto
  with Suc have "node_at f m' (anc k i m')" by simp
  with m Suc.prems(3) show ?case using node_at_parent [of f m'] by (simp add: anc_Suc)
qed simp

lemma node_at_child:
  assumes "node_at f (Suc k) i" "l = 2 * i \<or> l = 2 * i + 1"
  shows "node_at f k l"
proof -
  have "top_order f - k = Suc (top_order f - Suc k)" using assms(1) unfolding node_at_def by arith
  then have "2 * (af_tree_cnt f * 2 ^ (top_order f - Suc k)) = af_tree_cnt f * 2 ^ (top_order f - k)"
    by simp
  with assms show ?thesis unfolding node_at_def by linarith
qed

lemma level_max: "level (max a b) = max (level a) (level b)"
  by (auto simp: max_def less_eq_buddy_def buddy_le_def)

lemma lv_put:
  assumes "forest_wf f" "node_at f k i"
  shows "lv (nd_put f (top_order f - k) i v) = tput (lv f) k i (level v)"
proof (intro ext)
  fix k' i'
  have "nd (nd_put f (top_order f - k) i v) (top_order f - k') i' =
      (if k' = k \<and> i' = i then v else nd f (top_order f - k') i')" if "node_at f k' i'"
    using nd_nd_put [OF assms(1) node_at_ok [OF assms] node_at_ok [OF assms(1) that]] assms(2) that
    by (auto simp: node_at_def)
  with assms show "lv (nd_put f (top_order f - k) i v) k' i' = tput (lv f) k i (level v) k' i'"
    by (auto simp: lv_def tput_def)
qed

lemma lv_get:
  "forest_wf f \<Longrightarrow> node_at f k i \<Longrightarrow>
     cursor_get f (cursor_at f (top_order f - k) i) = Inr (Buddy (lv f k i))"
  by (simp add: cursor_get_ok node_at_ok lv_def)

lemma sibling_node: "node_at f k i \<Longrightarrow> k < top_order f \<Longrightarrow> node_at f k (i XOR 1)"
  using node_at_child [OF node_at_parent [of f k i], of "i XOR 1"] unfolding nat_xor_1
  by (auto elim!: evenE oddE)

text \<open>\<^verbatim>\<open>fixup_map\<close> is the repair of the abstract tree.\<close>

lemma fixup_map_tfix:
  assumes "forest_wf f" "node_at f k i"
  shows "\<exists>f'. fixup_map f (cursor_at f (top_order f - k) i) = Inr f' \<and> forest_wf f' \<and>
    top_order f' = top_order f \<and> af_tree_cnt f' = af_tree_cnt f \<and>
    lv f' = tfix (top_order f) (lv f) k i"
  using assms
proof (induction "top_order f - k" arbitrary: f k i)
  case 0
  then show ?case by (simp add: fixup_map.simps tfix.simps)
next
  case (Suc d)
  let ?D = "top_order f" and ?p = "max (lv f k i) (lv f k (i XOR 1))"
  have k: "k < ?D" and d: "?D - k = Suc d" "?D - Suc k = d" using Suc.hyps(2) by auto
  note par = node_at_parent [OF Suc.prems(2) k]
  note get = lv_get [OF Suc.prems] lv_get [OF Suc.prems(1) sibling_node [OF Suc.prems(2) k]]
    lv_get [OF Suc.prems(1) par]
  have cur: "snd (cursor_up (snd (cursor_sibling (cursor_at f (Suc d) i)))) = cursor_at f d (i div 2)"
    "snd (cursor_sibling (cursor_at f (Suc d) i)) = cursor_at f (Suc d) (i XOR 1)"
  proof -
    have "(i XOR 1) div 2 = i div 2" unfolding nat_xor_1 by (auto elim!: oddE)
    then show "snd (cursor_up (snd (cursor_sibling (cursor_at f (Suc d) i)))) = cursor_at f d (i div 2)"
      by (simp only: cursor_sibling_ok cursor_up_ok snd_conv)
  qed (simp only: cursor_sibling_ok snd_conv)
  have mx: "max (Buddy (lv f k i)) (Buddy (lv f k (i XOR 1))) = Buddy ?p"
    using level_max by (intro buddy.expand) simp
  have step: "fixup_map f (cursor_at f (Suc d) i) =
      (if lv f (Suc k) (i div 2) = ?p then Inr f
       else fixup_map (nd_put f d (i div 2) (Buddy ?p)) (cursor_at f d (i div 2)))"
    using get cur cursor_put_ok [OF Suc.prems(1) node_at_ok [OF Suc.prems(1) par]]
    by (subst fixup_map.simps) (simp only: d mx cursor_at_depth nat.distinct if_False rbind_Inr
        buddy.inject)
  show ?case
  proof (cases "lv f (Suc k) (i div 2) = ?p")
    case True
    with k step show ?thesis
      by (simp only: d if_True) (simp add: Suc.prems tfix.simps)
  next
    case False
    let ?f = "nd_put f d (i div 2) (Buddy ?p)"
    have lv: "lv ?f = tput (lv f) (Suc k) (i div 2) ?p"
      using lv_put [OF Suc.prems(1) par, of "Buddy ?p"] by (simp only: d buddy.sel)
    have "tfix ?D (lv f) k i = tfix ?D (lv ?f) (Suc k) (i div 2)"
      using False k by (subst tfix.simps) (simp only: lv if_False not_le [symmetric] simp_thms)
    moreover obtain f' where "fixup_map ?f (cursor_at ?f (top_order ?f - Suc k) (i div 2)) = Inr f'"
      "forest_wf f'" "top_order f' = top_order ?f" "af_tree_cnt f' = af_tree_cnt ?f"
      "lv f' = tfix (top_order ?f) (lv ?f) (Suc k) (i div 2)"
      using Suc.hyps(1) [of ?f "Suc k" "i div 2"] Suc.prems(1) par d by auto
    ultimately show ?thesis using False step d by simp
  qed
qed

section \<open>Searching\<close>

lemma find_root_spec:
  "\<exists>r. find_root order k xs = Inr r \<and>
     (case r of None \<Rightarrow> \<forall>x \<in> set xs. level x \<le> Suc order
      | Some j \<Rightarrow> k \<le> j \<and> j < k + length xs \<and> Suc order < level (xs ! (j - k)))"
proof (induction xs arbitrary: k)
  case (Cons x xs)
  obtain r where r: "find_root order (Suc k) xs = Inr r"
    "case r of None \<Rightarrow> \<forall>x \<in> set xs. level x \<le> Suc order
     | Some j \<Rightarrow> Suc k \<le> j \<and> j < Suc k + length xs \<and> Suc order < level (xs ! (j - Suc k))"
    using Cons [of "Suc k"] by blast
  show ?case
  proof (cases "Suc order < level x")
    case True
    then show ?thesis by (auto simp: is_free_def is_reserved_def buddy_order_def)
  next
    case False
    then have "find_root order k (x # xs) = Inr r"
      using r(1) by (auto simp: is_free_def is_reserved_def buddy_order_def)
    with r(2) False show ?thesis
      by (auto split: option.splits simp: nth_Cons' Suc_diff_le)
  qed
qed simp

lemma depth_to_order_ok:
  "buddy_inv b \<Longrightarrow> k \<le> bs_max_order b \<Longrightarrow> depth_to_order b (top_order (bs_map b) - k) = Inr k"
  by (auto simp: depth_to_order_def buddy_inv_def max_depth_ok top_order_def BUDDY_MAX_ORDER_def)

lemma order_to_depth_ok:
  "buddy_inv b \<Longrightarrow> k \<le> bs_max_order b \<Longrightarrow> order_to_depth b k = Inr (top_order (bs_map b) - k)"
  by (auto simp: order_to_depth_def buddy_inv_def max_depth_ok top_order_def)

text \<open>Going down from a node that is not a leaf.\<close>

lemma cursor_left_right:
  assumes "forest_wf f" "node_at f (Suc k) i"
  shows "cursor_right (cursor_at f (top_order f - Suc k) i) =
      Inr (True, cursor_at f (top_order f - k) (2 * i + 1))"
    "cursor_left (cursor_at f (top_order f - Suc k) i) =
      Inr (True, cursor_at f (top_order f - k) (2 * i))"
proof -
  have d: "Suc (top_order f - Suc k) = top_order f - k"
    using assms(2) unfolding node_at_def by arith
  have "Suc (top_order f - Suc k) < af_tree_depth f"
    using assms unfolding node_at_def top_order_def by arith
  note down = cursor_down_ok [OF assms(1) node_at_ok [OF assms] this, unfolded d]
  show "cursor_right (cursor_at f (top_order f - Suc k) i) =
      Inr (True, cursor_at f (top_order f - k) (2 * i + 1))"
    "cursor_left (cursor_at f (top_order f - Suc k) i) =
      Inr (True, cursor_at f (top_order f - k) (2 * i))"
    using down [of 1] down [of 0] by (simp_all add: cursor_right_def cursor_left_def)
qed

lemma reserve_search_found:
  assumes "forest_wf (bs_map b)" "node_at (bs_map b) k i" "lv (bs_map b) k i = Suc k"
    "depth_to_order b (top_order (bs_map b) - k) = Inr k"
  shows "reserve_search b k (cursor_at (bs_map b) (top_order (bs_map b) - k) i) st =
    Inr (Some (cursor_at (bs_map b) (top_order (bs_map b) - k) i))"
  using assms by (subst reserve_search.simps) (simp add: lv_get is_reserved_def buddy_order_def)

lemma reserve_search_pop:
  assumes "forest_wf (bs_map b)" "node_at (bs_map b) k i" "lv (bs_map b) k i \<le> order"
    "depth_to_order b (top_order (bs_map b) - k) = Inr k"
  shows "reserve_search b order (cursor_at (bs_map b) (top_order (bs_map b) - k) i) (c # st) =
    reserve_search b order c st"
  using assms by (subst reserve_search.simps) (auto simp: lv_get is_reserved_def buddy_order_def)

lemma reserve_search_down:
  assumes "forest_wf (bs_map b)" "node_at (bs_map b) (Suc k) i" "order < lv (bs_map b) (Suc k) i"
    "depth_to_order b (top_order (bs_map b) - Suc k) = Inr (Suc k)" "order \<le> k"
    "length st < BUDDY_MAX_DEPTH"
  shows "reserve_search b order (cursor_at (bs_map b) (top_order (bs_map b) - Suc k) i) st =
    reserve_search b order (cursor_at (bs_map b) (top_order (bs_map b) - k) (2 * i))
      (cursor_at (bs_map b) (top_order (bs_map b) - k) (2 * i + 1) # st)"
proof -
  let ?v = "lv (bs_map b) (Suc k) i"
  have "buddy_order (Buddy ?v) = Inr (?v - 1)" "\<not> ?v - 1 < order"
    "\<not> (?v - 1 = order \<and> ?v - 1 = Suc k)"
    using assms(3,5) by (auto simp: buddy_order_def)
  with assms show ?thesis
    by (subst reserve_search.simps)
      (auto simp: lv_get is_reserved_def cursor_left_right not_le)
qed

lemma reserve_search_step:
  assumes inv: "buddy_inv b" and at: "node_at (bs_map b) (Suc k) i"
    and v: "order < lv (bs_map b) (Suc k) i" "order \<le> k" "length st + Suc k \<le> BUDDY_MAX_DEPTH"
  shows "\<exists>l st'. (l = 2 * i \<or> l = 2 * i + 1) \<and> node_at (bs_map b) k l \<and> order < lv (bs_map b) k l \<and>
    length st' + k \<le> BUDDY_MAX_DEPTH \<and>
    reserve_search b order (cursor_at (bs_map b) (top_order (bs_map b) - Suc k) i) st =
      reserve_search b order (cursor_at (bs_map b) (top_order (bs_map b) - k) l) st'"
proof -
  let ?f = "bs_map b" and ?D = "top_order (bs_map b)"
  have wf: "forest_wf ?f" and D: "bs_max_order b = ?D" using inv by (auto simp: buddy_inv_def)
  have k: "Suc k \<le> ?D" using at by (simp add: node_at_def)
  then have ord: "depth_to_order b (?D - m) = Inr m" if "m \<le> Suc k" for m
    using depth_to_order_ok [OF inv] that D by simp
  have nodes: "node_at ?f k (2 * i)" "node_at ?f k (2 * i + 1)"
    using node_at_child [OF at] by blast+
  have down: "reserve_search b order (cursor_at ?f (?D - Suc k) i) st =
      reserve_search b order (cursor_at ?f (?D - k) (2 * i)) (cursor_at ?f (?D - k) (2 * i + 1) # st)"
    using at v ord by (intro reserve_search_down wf) auto
  have "split_at (lv ?f) k i \<or> whole_at (lv ?f) k i"
    using inv k D by (auto simp: buddy_inv_def tree_inv_def)
  then have lr: "order < lv ?f k (2 * i) \<or> order < lv ?f k (2 * i + 1)"
    using v by (auto simp: split_at_def whole_at_def)
  show ?thesis
  proof (cases "order < lv ?f k (2 * i)")
    case True
    with nodes down v show ?thesis
      by (intro exI [of _ "2 * i"] exI [of _ "cursor_at ?f (?D - k) (2 * i + 1) # st"]) simp
  next
    case False
    then have "reserve_search b order (cursor_at ?f (?D - Suc k) i) st =
        reserve_search b order (cursor_at ?f (?D - k) (2 * i + 1)) st"
      using ord [of k] unfolding down by (intro reserve_search_pop wf nodes) simp_all
    with False nodes lr v show ?thesis
      by (intro exI [of _ "2 * i + 1"] exI [of _ st]) simp
  qed
qed

text \<open>Below a node whose value exceeds \<open>order\<close>, the search finds a free block of that order, and
  every node on the way to it has a value exceeding \<open>order\<close>.\<close>

lemma reserve_search_ok:
  assumes inv: "buddy_inv b" and "node_at (bs_map b) k i" "order < lv (bs_map b) k i" "order \<le> k"
    "length st + k \<le> BUDDY_MAX_DEPTH"
  shows "\<exists>j. reserve_search b order (cursor_at (bs_map b) (top_order (bs_map b) - k) i) st =
      Inr (Some (cursor_at (bs_map b) (top_order (bs_map b) - order) j)) \<and>
    node_at (bs_map b) order j \<and> lv (bs_map b) order j = Suc order \<and> anc order j k = i \<and>
    (\<forall>m. order \<le> m \<and> m \<le> k \<longrightarrow> order < lv (bs_map b) m (anc order j m))"
  using assms(2-)
proof (induction "k - order" arbitrary: k i st)
  case 0
  then have k: "k = order" by simp
  have "forest_wf (bs_map b)" "lv (bs_map b) order i \<le> Suc order"
    "depth_to_order b (top_order (bs_map b) - order) = Inr order"
    using inv depth_to_order_ok [OF inv] "0.prems"(1) k
    by (auto simp: buddy_inv_def tree_inv_def bounded_def node_at_def)
  with "0.prems" k reserve_search_found [of b order i st] show ?case
    by (intro exI [of _ i]) auto
next
  case (Suc n)
  then obtain k' where k: "k = Suc k'" by (cases k) auto
  with Suc.hyps(2) have ok: "n = k' - order" "order \<le> k'" by auto
  let ?f = "bs_map b" and ?D = "top_order (bs_map b)"
  obtain l st' where l: "l = 2 * i \<or> l = 2 * i + 1" "node_at ?f k' l" "order < lv ?f k' l"
    "length st' + k' \<le> BUDDY_MAX_DEPTH"
    and eq: "reserve_search b order (cursor_at ?f (?D - k) i) st =
      reserve_search b order (cursor_at ?f (?D - k') l) st'"
    using reserve_search_step [OF inv, of k' i order st] Suc.prems ok(2) k by blast
  obtain j where j: "reserve_search b order (cursor_at ?f (?D - k') l) st' =
      Inr (Some (cursor_at ?f (?D - order) j))" "node_at ?f order j" "lv ?f order j = Suc order"
    "anc order j k' = l" "\<And>m. order \<le> m \<Longrightarrow> m \<le> k' \<Longrightarrow> order < lv ?f m (anc order j m)"
    using Suc.hyps(1) [OF ok(1) l(2,3) ok(2) l(4)] by blast
  have "anc order j k = i" using j(4) l(1) ok k by (auto simp: anc_Suc)
  with j eq Suc.prems(2) k show ?case by (auto simp: le_Suc_eq)
qed

section \<open>Reserving and freeing\<close>

lemma node_at_block:
  assumes "node_at f k i"
  shows "block k i \<subseteq> {..< af_tree_cnt f * 2 ^ top_order f}"
proof -
  have "Suc i * 2 ^ k \<le> (af_tree_cnt f * 2 ^ (top_order f - k)) * 2 ^ k"
    using assms by (intro mult_le_mono1) (simp add: node_at_def)
  also have "\<dots> = af_tree_cnt f * 2 ^ top_order f"
    using assms by (simp add: node_at_def mult.assoc flip: power_add)
  finally have "Suc i * 2 ^ k \<le> af_tree_cnt f * 2 ^ top_order f" .
  then show ?thesis unfolding block_eq by (meson ivl_subset lessThan_iff less_le_trans atLeastLessThan_iff subsetI)
qed

lemma frames_below_limit:
  "forest_wf f \<Longrightarrow> af_tree_cnt f * 2 ^ top_order f < usize_limit"
proof -
  assume "forest_wf f"
  moreover have "af_tree_cnt f * 2 ^ top_order f \<le> af_tree_cnt f * 2 ^ af_tree_depth f"
    by (intro level_mono) (simp add: top_order_def)
  ultimately show ?thesis unfolding forest_wf_def by linarith
qed

lemma block_below_limit:
  "forest_wf f \<Longrightarrow> node_at f k i \<Longrightarrow> x \<in> block k i \<Longrightarrow> x < usize_limit"
  using node_at_block frames_below_limit by fastforce

text \<open>Writing one node and repairing its ancestors, as \<^verbatim>\<open>reserve\<close> and \<^verbatim>\<open>free\<close> do.\<close>

lemma put_fixup:
  assumes "forest_wf f" "node_at f k i"
  shows "\<exists>f1 f'. cursor_put f (cursor_at f (top_order f - k) i) v = Inr f1 \<and>
    fixup_map f1 (cursor_at f (top_order f - k) i) = Inr f' \<and> forest_wf f' \<and>
    top_order f' = top_order f \<and> af_tree_cnt f' = af_tree_cnt f \<and>
    lv f' = tset (top_order f) (lv f) k i (level v)"
  using fixup_map_tfix [of "nd_put f (top_order f - k) i v" k i] assms
  by (simp add: cursor_put_ok node_at_ok lv_put tset_def)

text \<open>The change they make to the system, and what a block must satisfy to be taken.\<close>

definition updated :: "buddy_system \<Rightarrow> nat \<Rightarrow> nat \<Rightarrow> nat \<Rightarrow> buddy_system \<Rightarrow> bool" where
  "updated b k i v b' \<longleftrightarrow> forest_wf (bs_map b') \<and> bs_max_order b' = bs_max_order b \<and>
     top_order (bs_map b') = top_order (bs_map b) \<and> af_tree_cnt (bs_map b') = af_tree_cnt (bs_map b) \<and>
     lv (bs_map b') = tset (bs_max_order b) (lv (bs_map b)) k i v"

definition takeable :: "buddy_system \<Rightarrow> nat \<Rightarrow> nat \<Rightarrow> bool" where
  "takeable b k i \<longleftrightarrow> node_at (bs_map b) k i \<and> lv (bs_map b) k i = Suc k \<and>
     (\<forall>m. k \<le> m \<and> m \<le> bs_max_order b \<longrightarrow> lv (bs_map b) m (anc k i m) \<noteq> 0)"

lemma buddy_reserve_found:
  assumes inv: "buddy_inv b" and order: "order \<le> bs_max_order b"
    and r: "r < af_tree_cnt (bs_map b)" "Suc order < lv (bs_map b) (bs_max_order b) r"
    "forest_slice (bs_map b) 0 = Inr roots" "find_root order 0 roots = Inr (Some r)"
  shows "\<exists>i b'. buddy_reserve b order = Inr (Some (i * 2 ^ order), b') \<and>
    takeable b order i \<and> updated b order i 0 b'"
proof -
  let ?f = "bs_map b"
  have wf: "forest_wf ?f" and D: "bs_max_order b = top_order ?f" "top_order ?f \<le> BUDDY_MAX_DEPTH"
    using inv by (auto simp: buddy_inv_def BUDDY_MAX_DEPTH_def)
  have root: "node_at ?f (top_order ?f) r" using r(1) by (simp add: node_at_def)
  obtain i where i: "reserve_search b order (cursor_at ?f 0 r) [] =
      Inr (Some (cursor_at ?f (top_order ?f - order) i))" "node_at ?f order i"
    "lv ?f order i = Suc order"
    "\<And>m. order \<le> m \<Longrightarrow> m \<le> top_order ?f \<Longrightarrow> order < lv ?f m (anc order i m)"
    using reserve_search_ok [OF inv root, of order "[]"] r(2) order D by auto
  note ok = node_at_ok [OF wf i(2)]
  obtain f1 f' where f': "cursor_put ?f (cursor_at ?f (top_order ?f - order) i) buddy_reserved = Inr f1"
    "fixup_map f1 (cursor_at ?f (top_order ?f - order) i) = Inr f'" "forest_wf f'"
    "top_order f' = top_order ?f" "af_tree_cnt f' = af_tree_cnt ?f"
    "lv f' = tset (top_order ?f) (lv ?f) order i 0"
    using put_fixup [OF wf i(2), of buddy_reserved] by (auto simp: buddy_reserved_def)
  have "i * 2 ^ order < usize_limit" using block_below_limit [OF wf i(2) block_start] .
  moreover have "order < 64" using order D by (simp add: BUDDY_MAX_DEPTH_def BUDDY_MAX_ORDER_def)
  moreover have "forest_cursor ?f 0 r = Inr (cursor_at ?f 0 r)"
    using forest_cursor_ok [OF wf, of 0 r] node_at_ok [OF wf root] by simp
  ultimately have "buddy_reserve b order = Inr (Some (i * 2 ^ order), b\<lparr>bs_map := f'\<rparr>)"
    using order r(3,4) i(1) f'(1,2) cursor_idx_ok [OF wf ok] forest_cursor_ok [OF wf ok]
    by (simp add: buddy_reserve_def)
  moreover have "takeable b order i" using i D unfolding takeable_def by fastforce
  moreover have "updated b order i 0 (b\<lparr>bs_map := f'\<rparr>)" using f' D by (simp add: updated_def)
  ultimately show ?thesis by blast
qed

lemma buddy_reserve_cases:
  assumes inv: "buddy_inv b" and order: "order \<le> bs_max_order b"
  shows "(\<forall>r < af_tree_cnt (bs_map b). lv (bs_map b) (bs_max_order b) r \<le> Suc order) \<and>
      buddy_reserve b order = Inr (None, b) \<or>
    (\<exists>r < af_tree_cnt (bs_map b). Suc order < lv (bs_map b) (bs_max_order b) r) \<and>
    (\<exists>i b'. buddy_reserve b order = Inr (Some (i * 2 ^ order), b') \<and>
    takeable b order i \<and> updated b order i 0 b')"
proof -
  let ?f = "bs_map b" and ?D = "bs_max_order b"
  define roots where "roots = map (nd ?f 0) [0..<af_tree_cnt ?f]"
  have wf: "forest_wf ?f" and D: "?D = top_order ?f" using inv by (auto simp: buddy_inv_def)
  have slice: "forest_slice ?f 0 = Inr roots"
    using forest_slice_ok [OF wf, of 0] wf by (simp add: forest_wf_def roots_def)
  have lv: "lv ?f ?D r = level (roots ! r)" if "r < af_tree_cnt ?f" for r
    using that D by (simp add: lv_def node_at_def roots_def)
  obtain res where res: "find_root order 0 roots = Inr res"
    "case res of None \<Rightarrow> \<forall>x \<in> set roots. level x \<le> Suc order
     | Some j \<Rightarrow> 0 \<le> j \<and> j < 0 + length roots \<and> Suc order < level (roots ! (j - 0))"
    using find_root_spec [of order 0 roots] by blast
  show ?thesis
  proof (cases res)
    case None
    then have "buddy_reserve b order = Inr (None, b)"
      using slice res(1) order by (simp add: buddy_reserve_def)
    moreover have "lv ?f ?D r \<le> Suc order" if "r < af_tree_cnt ?f" for r
      using that res(2) None by (simp add: lv) (simp add: roots_def)
    ultimately show ?thesis by blast
  next
    case (Some r)
    then have "r < af_tree_cnt ?f" "Suc order < lv ?f ?D r"
      using res(2) lv by (auto simp: roots_def)
    with buddy_reserve_found [OF inv order this slice] res(1) Some show ?thesis by blast
  qed
qed

lemma updated_inv:
  assumes "buddy_inv b" "updated b k i v b'" "v = 0 \<or> v = Suc k"
    "\<And>k'. k = Suc k' \<Longrightarrow> whole_at (lv (bs_map b)) k' i"
  shows "buddy_inv b'"
  using assms tset_inv [of "bs_max_order b" "lv (bs_map b)" v k i]
  by (auto simp: buddy_inv_def updated_def)

lemma updated_in_use:
  assumes "buddy_inv b" "updated b k i v b'" "v \<le> Suc k" "in_use b k' i'"
    "block k i \<inter> block k' i' = {}"
  shows "in_use b' k' i'"
  using assms alloc_in_tset [of "bs_max_order b" "lv (bs_map b)" v k k' i' i]
  by (auto simp: buddy_inv_def updated_def in_use_def node_at_def)

lemma buddy_inv_tree: "buddy_inv b \<Longrightarrow> tree_inv (bs_max_order b) (lv (bs_map b))"
  unfolding buddy_inv_def by blast

lemma node_at_order: "buddy_inv b \<Longrightarrow> node_at (bs_map b) k i \<Longrightarrow> k \<le> bs_max_order b"
  by (simp add: buddy_inv_def node_at_def)

lemma takeable_free:
  assumes inv: "buddy_inv b" and tk: "takeable b k i"
  shows "block k i \<subseteq> free_frames b"
proof
  fix x assume x: "x \<in> block k i"
  have k: "k \<le> bs_max_order b" using node_at_order inv tk by (auto simp: takeable_def)
  have "x < af_tree_cnt (bs_map b) * 2 ^ bs_max_order b"
    using node_at_block [of "bs_map b" k i] inv tk x by (auto simp: buddy_inv_def takeable_def)
  moreover have "lv (bs_map b) m (x div 2 ^ m) \<noteq> 0" if "m \<le> bs_max_order b" for m
  proof (cases "m \<le> k")
    case True
    then show ?thesis
      using full_below [OF buddy_inv_tree [OF inv] k _ x True] tk by (simp add: takeable_def)
  next
    case False
    with that tk block_parent [OF x, of m] show ?thesis by (simp add: takeable_def)
  qed
  ultimately show "x \<in> free_frames b" by (simp add: free_frames_def free_in_def)
qed

lemma taken:
  assumes inv: "buddy_inv b" and tk: "takeable b k i" and up: "updated b k i 0 b'"
  shows "buddy_inv b'" "free_frames b' = free_frames b - block k i" "in_use b' k i"
proof -
  have k: "k \<le> bs_max_order b" using node_at_order inv tk by (auto simp: takeable_def)
  note t = buddy_inv_tree [OF inv]
  show "buddy_inv b'"
    using full_whole [OF t] k tk by (intro updated_inv [OF inv up]) (auto simp: takeable_def)
  show "free_frames b' = free_frames b - block k i"
    using free_in_take [OF t k] up tk by (simp add: free_frames_def updated_def takeable_def)
  show "in_use b' k i"
    using alloc_in_tset_self [OF t k] up tk
    by (auto simp: in_use_def updated_def takeable_def node_at_def)
qed

lemma returned:
  assumes inv: "buddy_inv b" and us: "in_use b k i" and up: "updated b k i (Suc k) b'"
  shows "buddy_inv b'" "free_frames b' = free_frames b \<union> block k i"
proof -
  show "buddy_inv b'"
    using us by (intro updated_inv [OF inv up]) (auto simp: in_use_def alloc_in_def)
  show "free_frames b' = free_frames b \<union> block k i"
    using free_in_return [of "bs_max_order b" "lv (bs_map b)" k i "af_tree_cnt (bs_map b)"]
      node_at_block [of "bs_map b" k i] inv us up
    by (auto simp: free_frames_def updated_def in_use_def buddy_inv_def)
qed

lemma buddy_system_free_updated:
  assumes inv: "buddy_inv b" and us: "in_use b k i"
  shows "\<exists>b'. buddy_system_free b (i * 2 ^ k) k = Inr b' \<and> updated b k i (Suc k) b'"
proof -
  let ?f = "bs_map b"
  have wf: "forest_wf ?f" and D: "bs_max_order b = top_order ?f" "top_order ?f \<le> 18"
    using inv by (auto simp: buddy_inv_def BUDDY_MAX_ORDER_def)
  have at: "node_at ?f k i" and z: "lv ?f k i = 0"
    using us by (auto simp: in_use_def alloc_in_def)
  have k: "k \<le> bs_max_order b" using node_at_order [OF inv at] .
  obtain f1 f' where f': "cursor_put ?f (cursor_at ?f (top_order ?f - k) i) (Buddy (Suc k)) = Inr f1"
    "fixup_map f1 (cursor_at ?f (top_order ?f - k) i) = Inr f'" "forest_wf f'"
    "top_order f' = top_order ?f" "af_tree_cnt f' = af_tree_cnt ?f"
    "lv f' = tset (top_order ?f) (lv ?f) k i (Suc k)"
    using put_fixup [OF wf at, of "Buddy (Suc k)"] by auto
  have "buddy_system_free b (i * 2 ^ k) k = Inr (b\<lparr>bs_map := f'\<rparr>)"
    using order_to_depth_ok [OF inv k] forest_cursor_ok [OF wf node_at_ok [OF wf at]]
      lv_get [OF wf at] f'(1,2) k D z
    by (simp add: buddy_system_free_def is_reserved_def buddy_free_def)
  then show ?thesis using f' D by (simp add: updated_def)
qed

section \<open>Start-up\<close>

lemma lv_fill:
  assumes "forest_wf f" "m \<le> top_order f" "s \<le> e" "e \<le> af_tree_cnt f * 2 ^ (top_order f - m)"
  shows "lv (nd_fill f (top_order f - m) s e v) =
    (\<lambda>m' j. if m' = m \<and> s \<le> j \<and> j < e then level v else lv f m' j)"
proof (intro ext)
  fix m' j
  let ?g = "nd_fill f (top_order f - m) s e v"
  have g: "top_order ?g = top_order f" "node_at ?g = node_at f"
    by (simp_all add: top_order_def node_at_def fun_eq_iff)
  have "top_order f - m < af_tree_depth f" using assms(1) by (auto simp: forest_wf_def top_order_def)
  from nd_nd_fill [OF assms(1) this assms(3,4) node_at_ok [OF assms(1)]]
  have "nd ?g (top_order f - m') j =
      (if m' = m \<and> s \<le> j \<and> j < e then v else nd f (top_order f - m') j)" if "node_at f m' j"
    using that assms(2) by (auto simp: node_at_def)
  moreover have "node_at f m' j" if "m' = m" "j < e"
    using that assms(2,4) by (simp add: node_at_def)
  ultimately show "lv ?g m' j = (if m' = m \<and> s \<le> j \<and> j < e then level v else lv f m' j)"
    by (auto simp: lv_def g)
qed

text \<open>One level of \<^verbatim>\<open>free_forced\<close> marks the nodes of that level inside the block.\<close>

lemma free_forced_level_ok:
  assumes wf: "forest_wf f" and at: "node_at f k i" and m: "m \<le> k" and D: "top_order f \<le> BUDDY_MAX_ORDER"
  shows "\<exists>f'. free_forced_level (i * 2 ^ k) (top_order f) (top_order f - k) (top_order f - m) f = Inr f' \<and>
    forest_wf f' \<and> af_tree_depth f' = af_tree_depth f \<and> af_tree_cnt f' = af_tree_cnt f \<and>
    lv f' = (\<lambda>m' j. if m' = m \<and> anc m j k = i then Suc m else lv f m' j)"
proof -
  let ?D = "top_order f" and ?s = "i * 2 ^ (k - m)"
  have k: "k \<le> ?D" using at by (simp add: node_at_def)
  then have ord: "?D - (?D - m) = m" "?D - m - (?D - k) = k - m" using m by simp_all
  have "i * 2 ^ k = ?s * 2 ^ m" using m by (simp add: mult.assoc flip: power_add)
  then have start: "i * 2 ^ k div 2 ^ m = ?s" by (simp only:) simp
  have "Suc i * 2 ^ (k - m) \<le> (af_tree_cnt f * 2 ^ (?D - k)) * 2 ^ (k - m)"
    using at by (intro mult_le_mono1) (simp add: node_at_def)
  then have fits: "?s + 2 ^ (k - m) \<le> af_tree_cnt f * 2 ^ (?D - m)"
    using k m by (simp add: add.commute mult.assoc flip: power_add)
  have "af_tree_cnt f * 2 ^ (?D - m) \<le> af_tree_cnt f * 2 ^ ?D" by (intro level_mono) simp
  then have lim: "?s + 2 ^ (k - m) < usize_limit" "2 ^ (k - m) < usize_limit"
    using fits frames_below_limit [OF wf] by linarith+
  have small: "m < 64" "k - m < 64" "m < 255"
    using m k D by (simp_all add: BUDDY_MAX_ORDER_def)
  have d: "?D - m < af_tree_depth f" using wf by (auto simp: forest_wf_def top_order_def)
  let ?f = "nd_fill f (?D - m) ?s (?s + 2 ^ (k - m)) (Buddy (Suc m))"
  have "free_forced_level (i * 2 ^ k) ?D (?D - k) (?D - m) f = Inr ?f"
    using slice_mut_fill_ok [OF wf d _ fits] k m small lim start
    by (simp add: free_forced_level_def ord buddy_free_def)
  moreover have "forest_wf ?f" using forest_wf_fill [OF wf d _ fits] by simp
  moreover have "lv ?f = (\<lambda>m' j. if m' = m \<and> anc m j k = i then Suc m else lv f m' j)"
  proof -
    have "anc m j k = i \<longleftrightarrow> ?s \<le> j \<and> j < ?s + 2 ^ (k - m)" for j
    proof -
      have "j \<in> block (k - m) i \<longleftrightarrow> j \<in> {?s ..< Suc i * 2 ^ (k - m)}" by (simp only: block_eq)
      then show ?thesis by (simp add: block_def anc_def add.commute)
    qed
    moreover have "lv ?f = (\<lambda>m' j. if m' = m \<and> ?s \<le> j \<and> j < ?s + 2 ^ (k - m)
        then level (Buddy (Suc m)) else lv f m' j)"
      using m k by (intro lv_fill wf fits) simp_all
    ultimately show ?thesis by (simp only: buddy.sel)
  qed
  ultimately show ?thesis by simp
qed

lemma free_forced_levels_ok:
  assumes "forest_wf f" "node_at f k i" "top_order f \<le> BUDDY_MAX_ORDER" "d \<le> k"
  shows "\<exists>f'. rfold (free_forced_level (i * 2 ^ k) (top_order f) (top_order f - k))
      [top_order f - d..<Suc (top_order f)] f = Inr f' \<and> forest_wf f' \<and>
    af_tree_depth f' = af_tree_depth f \<and> af_tree_cnt f' = af_tree_cnt f \<and>
    lv f' = (\<lambda>m j. if m \<le> d \<and> anc m j k = i then Suc m else lv f m j)"
  using assms
proof (induction d arbitrary: f)
  case 0
  have "[top_order f - 0..<Suc (top_order f)] = [top_order f]" by simp
  with free_forced_level_ok [OF 0(1,2,4,3)] show ?case by (auto simp: fun_eq_iff)
next
  case (Suc d)
  let ?D = "top_order f"
  have D: "Suc d \<le> ?D" using Suc.prems by (simp add: node_at_def)
  then have list: "[?D - Suc d..<Suc ?D] = (?D - Suc d) # [?D - d..<Suc ?D]"
    by (subst upt_conv_Cons) (simp_all add: Suc_diff_Suc)
  obtain f1 where f1: "free_forced_level (i * 2 ^ k) ?D (?D - k) (?D - Suc d) f = Inr f1"
    "forest_wf f1" "af_tree_depth f1 = af_tree_depth f" "af_tree_cnt f1 = af_tree_cnt f"
    "lv f1 = (\<lambda>m' j. if m' = Suc d \<and> anc (Suc d) j k = i then Suc (Suc d) else lv f m' j)"
    using free_forced_level_ok [OF Suc.prems(1,2,4,3)] by auto
  have top: "top_order f1 = ?D" by (simp add: top_order_def f1)
  have "node_at f1 k i" using Suc.prems(2) by (simp add: node_at_def top f1)
  from Suc.IH [OF f1(2) this, unfolded top] Suc.prems obtain f' where f':
    "rfold (free_forced_level (i * 2 ^ k) ?D (?D - k)) [?D - d..<Suc ?D] f1 = Inr f'"
    "forest_wf f'" "af_tree_depth f' = af_tree_depth f" "af_tree_cnt f' = af_tree_cnt f"
    "lv f' = (\<lambda>m j. if m \<le> d \<and> anc m j k = i then Suc m else lv f1 m j)"
    using f1 by auto
  then have "lv f' = (\<lambda>m j. if m \<le> Suc d \<and> anc m j k = i then Suc m else lv f m j)"
    using f1(5) by (auto simp: fun_eq_iff le_Suc_eq)
  with f' f1(1) show ?case by (simp only: list rfold.simps rbind_Inr) blast
qed

lemma free_forced_ok:
  assumes inv: "buddy_inv b" and at: "node_at (bs_map b) k i"
  shows "\<exists>b'. free_forced b (i * 2 ^ k) k = Inr b' \<and> forest_wf (bs_map b') \<and>
    bs_max_order b' = bs_max_order b \<and> top_order (bs_map b') = top_order (bs_map b) \<and>
    af_tree_cnt (bs_map b') = af_tree_cnt (bs_map b) \<and>
    lv (bs_map b') = tforce (bs_max_order b) (lv (bs_map b)) k i"
proof -
  let ?f = "bs_map b" and ?D = "top_order (bs_map b)"
  have wf: "forest_wf ?f" and D: "bs_max_order b = ?D" "?D \<le> BUDDY_MAX_ORDER"
    using inv by (auto simp: buddy_inv_def)
  have k: "k \<le> ?D" "k < 64" using at D by (auto simp: node_at_def BUDDY_MAX_ORDER_def)
  obtain f where f: "rfold (free_forced_level (i * 2 ^ k) ?D (?D - k)) [?D - k..<Suc ?D] ?f = Inr f"
    "forest_wf f" "af_tree_depth f = af_tree_depth ?f" "af_tree_cnt f = af_tree_cnt ?f"
    "lv f = tfill (lv ?f) k i"
    using free_forced_levels_ok [OF wf at D(2) order_refl] by (auto simp: tfill_def)
  then have top: "top_order f = ?D" by (simp add: top_order_def)
  have at': "node_at f k i" using at by (simp add: node_at_def top f(4))
  obtain f' where f': "fixup_map f (cursor_at f (?D - k) i) = Inr f'" "forest_wf f'"
    "top_order f' = ?D" "af_tree_cnt f' = af_tree_cnt ?f" "lv f' = tforce ?D (lv ?f) k i"
    using fixup_map_tfix [OF f(2) at'] f(4,5) by (auto simp: top tforce_def)
  have "free_forced b (i * 2 ^ k) k = Inr (b\<lparr>bs_map := f'\<rparr>)"
    using f(1) f'(1) k D max_depth_ok [OF wf, folded top_order_def]
      forest_cursor_ok [OF f(2) node_at_ok [OF f(2) at']]
    by (simp add: free_forced_def top del: upt_Suc)
  with f' D show ?thesis by simp
qed

definition starting :: "buddy_system \<Rightarrow> bool" where
  "starting b \<longleftrightarrow> buddy_inv b \<and> quiet (bs_max_order b) (lv (bs_map b))"

lemma lv_empty:
  assumes "forest_wf f" "af_buf f = replicate n (Buddy 0)"
  shows "lv f = (\<lambda>_ _. 0)"
proof (intro ext)
  fix k i
  have "nd f (top_order f - k) i = Buddy 0" if "node_at f k i"
    using node_pos_less [OF assms(1) node_at_ok [OF assms(1) that]] assms(2) by (simp add: nd_def)
  then show "lv f k i = 0" by (simp add: lv_def)
qed

lemma ceil_div_mult: "0 < m \<Longrightarrow> ceil_to p m div m * m = ceil_to p m"
  by (simp add: ceil_to_multiple)

lemma forest_new_ok:
  assumes n: "c * 2 ^ d < 2 ^ 60" and "d < 64" "alloc \<lparr>l_size = c * 2 ^ d, l_align = 1\<rparr> s = Inr (Some a, s')"
  shows "forest_new 1 1 c d alloc v s =
    Inr (Some \<lparr>af_buf = replicate (c * 2 ^ d) v, af_tree_depth = d, af_tree_cnt = c\<rparr>, s')"
proof -
  have "usize_shl c d = Inr (c * 2 ^ d)"
    using assms by (intro usize_shl_ok) (simp_all add: usize_limit_def)
  moreover have "int (c * 2 ^ d) < isize_limit"
  proof -
    have "int (c * 2 ^ d) < int (2 ^ 60)" using n by (simp only: of_nat_less_iff)
    also have "int (2 ^ 60) < isize_limit" by (simp add: isize_limit_def)
    finally show ?thesis .
  qed
  ultimately show ?thesis
    using assms(3) by (simp add: forest_new_def buf_layout_def layout_array_def)
qed

text \<open>The size of the forest for a number of pages: twice the pages, rounded up to whole trees.\<close>

definition map_bytes :: "nat \<Rightarrow> nat" where
  "map_bytes page_cnt = 2 * ceil_to page_cnt (2 ^ min (pow2_exp page_cnt) BUDDY_MAX_ORDER)"

lemma buddy_new_ok:
  assumes p: "0 < page_cnt" "page_cnt \<le> 2 ^ 40"
    and al: "alloc \<lparr>l_size = map_bytes page_cnt, l_align = 1\<rparr> s = Inr (Some a, s')"
  shows "\<exists>b. buddy_new page_cnt alloc s = Inr (Some b, s') \<and> starting b \<and> free_frames b = {} \<and>
    bs_max_order b = min (pow2_exp page_cnt) BUDDY_MAX_ORDER \<and>
    page_cnt \<le> af_tree_cnt (bs_map b) * 2 ^ bs_max_order b"
proof -
  define mo where "mo = min (pow2_exp page_cnt) BUDDY_MAX_ORDER"
  define tc where "tc = ceil_to page_cnt (2 ^ mo) div 2 ^ mo"
  have e: "pow2_exp page_cnt \<le> 40" using p by (simp add: pow2_exp_le_iff)
  then have "(2::nat) ^ pow2_exp page_cnt \<le> 2 ^ 40" by (intro power_increasing) simp_all
  then have np: "next_power_of_two page_cnt = Inr (2 ^ pow2_exp page_cnt)"
    by (intro next_power_of_two_ok) (simp add: usize_limit_def)
  have mo: "mo \<le> 18" "mo < 64" "min (pow2_exp page_cnt mod 256) BUDDY_MAX_ORDER = mo"
    using e by (simp_all add: mo_def BUDDY_MAX_ORDER_def)
  then have small: "(2::nat) ^ mo \<le> 2 ^ 18" by (intro power_increasing) simp_all
  have tcm: "tc * 2 ^ mo = ceil_to page_cnt (2 ^ mo)" unfolding tc_def by (rule ceil_div_mult) simp
  then have "tc * 2 ^ mo < 2 ^ 40 + 2 ^ 18"
    using ceil_to_less [of "2 ^ mo" page_cnt] small p by simp
  then have lim: "tc * 2 ^ Suc mo < 2 ^ 60" "page_cnt \<le> tc * 2 ^ mo"
    using tcm ceil_to_ge [of page_cnt "2 ^ mo"] by simp_all
  have al': "alloc \<lparr>l_size = tc * 2 ^ Suc mo, l_align = 1\<rparr> s = Inr (Some a, s')"
    using al by (simp add: map_bytes_def mult.left_commute [of tc 2] tcm flip: mo_def)
  have "0 < tc" using p lim(2) by (cases tc) auto
  then have new: "forest_new 1 1 tc (Suc mo) alloc buddy_reserved s = Inr (Some \<lparr>af_buf =
      replicate (tc * 2 ^ Suc mo) buddy_reserved, af_tree_depth = Suc mo, af_tree_cnt = tc\<rparr>, s')"
    (is "_ = Inr (Some ?f, s')")
    using lim(1) mo al' by (intro forest_new_ok) simp_all
  have "(2::nat) ^ mo < usize_limit" using small by (simp add: usize_limit_def)
  then have "buddy_new page_cnt alloc s = Inr (Some \<lparr>bs_map = ?f, bs_max_order = mo\<rparr>, s')"
    using new mo np
    by (simp add: buddy_new_def mo(3) div_ceil_eq flip: tc_def del: power_Suc replicate_Suc)
  moreover have wf: "forest_wf ?f"
    using \<open>0 < tc\<close> mo lim(1) by (simp add: forest_wf_def usize_limit_def)
  moreover from wf have "lv ?f = (\<lambda>_ _. 0)" by (rule lv_empty) (simp add: buddy_reserved_def)
  ultimately show ?thesis
    using mo lim(2) tree_inv_zero free_in_zero
    by (simp add: starting_def buddy_inv_def top_order_def free_frames_def mo_def BUDDY_MAX_ORDER_def)
qed

lemma node_at_within:
  assumes "buddy_inv b" "bs_max_order b = min (pow2_exp page_cnt) BUDDY_MAX_ORDER"
    "page_cnt \<le> af_tree_cnt (bs_map b) * 2 ^ bs_max_order b" and "k \<le> BUDDY_MAX_ORDER" "Suc i * 2 ^ k \<le> page_cnt"
  shows "node_at (bs_map b) k i"
proof -
  have D: "bs_max_order b = top_order (bs_map b)" using assms(1) by (simp add: buddy_inv_def)
  have "2 ^ k \<le> Suc i * 2 ^ k" by simp
  then have "(2::nat) ^ k \<le> 2 ^ pow2_exp page_cnt"
    using assms(5) pow2_exp_ge [of page_cnt] by linarith
  then have k: "k \<le> bs_max_order b" using assms(2,4) by simp
  then have "Suc i * 2 ^ k \<le> (af_tree_cnt (bs_map b) * 2 ^ (bs_max_order b - k)) * 2 ^ k"
    using assms(3,5) by (simp add: mult.assoc flip: power_add)
  then have "Suc i \<le> af_tree_cnt (bs_map b) * 2 ^ (bs_max_order b - k)"
    by (simp only: mult_le_cancel2) simp
  then show ?thesis using k D by (simp add: node_at_def)
qed

lemma free_forced_starting:
  assumes "starting b" "node_at (bs_map b) k i"
  shows "\<exists>b'. free_forced b (i * 2 ^ k) k = Inr b' \<and> starting b' \<and> free_frames b' = free_frames b \<union> block k i \<and>
    bs_max_order b' = bs_max_order b \<and> af_tree_cnt (bs_map b') = af_tree_cnt (bs_map b)"
proof -
  have inv: "buddy_inv b" and q: "quiet (bs_max_order b) (lv (bs_map b))"
    using assms(1) by (simp_all add: starting_def)
  obtain b' where b': "free_forced b (i * 2 ^ k) k = Inr b'" "forest_wf (bs_map b')"
    "bs_max_order b' = bs_max_order b" "top_order (bs_map b') = top_order (bs_map b)"
    "af_tree_cnt (bs_map b') = af_tree_cnt (bs_map b)"
    "lv (bs_map b') = tforce (bs_max_order b) (lv (bs_map b)) k i"
    using free_forced_ok [OF inv assms(2)] by blast
  have k: "k \<le> bs_max_order b" by (rule node_at_order [OF inv assms(2)])
  have D: "bs_max_order b = top_order (bs_map b)" using inv by (simp add: buddy_inv_def)
  note t = buddy_inv_tree [OF inv]
  have "starting b'" using inv b' tforce_inv(1) [OF t k] tforce_inv(2) [OF t k q] by (simp add: starting_def buddy_inv_def)
  moreover have "free_frames b' = free_frames b \<union> block k i"
    using free_in_tforce [OF t q k] node_at_block [OF assms(2)] b' D by (simp add: free_frames_def)
  ultimately show ?thesis using b' by blast
qed

section \<open>The contract\<close>

interpretation buddy: frame_allocator buddy_inv bs_max_order free_frames in_use
  buddy_reserve buddy_system_free
proof
  fix b order assume inv: "buddy_inv b" and order: "order \<le> bs_max_order b"
  show "buddy_reserve b order = Inr (None, b) \<or>
    (\<exists>i b'. buddy_reserve b order = Inr (Some (i * 2 ^ order), b') \<and> buddy_inv b' \<and>
      bs_max_order b' = bs_max_order b \<and> block order i \<subseteq> free_frames b \<and>
      free_frames b' = free_frames b - block order i \<and> in_use b' order i \<and>
      (\<forall>k j. in_use b k j \<longrightarrow> in_use b' k j))"
    using buddy_reserve_cases [OF inv order]
  proof (elim disjE exE conjE)
    fix i b' assume r: "buddy_reserve b order = Inr (Some (i * 2 ^ order), b')" "takeable b order i"
      "updated b order i 0 b'"
    have "in_use b' k j" if "in_use b k j" for k j
      using that updated_in_use [OF inv r(3)] takeable_free [OF inv r(2)]
        alloc_in_not_free [of "bs_max_order b" "lv (bs_map b)" k j "af_tree_cnt (bs_map b)"]
      by (fastforce simp: in_use_def free_frames_def)
    moreover have "bs_max_order b' = bs_max_order b" using r(3) by (simp add: updated_def)
    ultimately show ?thesis using r(1) taken [OF inv r(2,3)] takeable_free [OF inv r(2)] by blast
  qed simp
next
  fix b k i assume inv: "buddy_inv b" and us: "in_use b k i"
  obtain b' where b': "buddy_system_free b (i * 2 ^ k) k = Inr b'" "updated b k i (Suc k) b'"
    using buddy_system_free_updated [OF inv us] by blast
  have "in_use b' k' j" if "in_use b k' j" "(k', j) \<noteq> (k, i)" for k' j
    using that us alloc_in_disjoint [of "bs_max_order b" "lv (bs_map b)" k i k' j]
    by (intro updated_in_use [OF inv b'(2)]) (auto simp: in_use_def)
  moreover have "bs_max_order b' = bs_max_order b" using b'(2) by (simp add: updated_def)
  ultimately show "\<exists>b'. buddy_system_free b (i * 2 ^ k) k = Inr b' \<and> buddy_inv b' \<and>
      bs_max_order b' = bs_max_order b \<and> free_frames b' = free_frames b \<union> block k i \<and>
      (\<forall>k' j. in_use b k' j \<and> (k', j) \<noteq> (k, i) \<longrightarrow> in_use b' k' j)"
    using b'(1) returned [OF inv us b'(2)] by blast
next
  fix b k i k' j assume "in_use b k i" "in_use b k' j" "(k, i) \<noteq> (k', j)"
  then show "block k i \<inter> block k' j = {}"
    by (intro alloc_in_disjoint [of "bs_max_order b" "lv (bs_map b)"]) (simp_all add: in_use_def)
next
  fix b k i assume "in_use b k i"
  then show "block k i \<inter> free_frames b = {}"
    using alloc_in_not_free by (auto simp: in_use_def free_frames_def)
qed

text \<open>The invariant of a concrete system can be checked node by node.\<close>

definition tree_inv_upto :: "nat \<Rightarrow> nat \<Rightarrow> tree \<Rightarrow> bool" where
  "tree_inv_upto n D t \<longleftrightarrow> list_all (\<lambda>k. list_all (\<lambda>i. t k i \<le> Suc k) [0..<n * 2 ^ (D - k)]) [0..<Suc D] \<and>
     list_all (\<lambda>k. list_all (\<lambda>j. split_at t k j \<or> whole_at t k j) [0..<n * 2 ^ (D - Suc k)]) [0..<D]"

lemma tree_inv_upto:
  assumes "tree_inv_upto (af_tree_cnt f) (top_order f) (lv f)"
  shows "tree_inv (top_order f) (lv f)"
proof -
  let ?n = "af_tree_cnt f" and ?D = "top_order f"
  have "\<forall>k \<in> {0..<Suc ?D}. \<forall>i \<in> {0..<?n * 2 ^ (?D - k)}. lv f k i \<le> Suc k"
    using assms unfolding tree_inv_upto_def list_all_iff set_upt by blast
  then have "lv f k i \<le> Suc k" for k i
    by (cases "node_at f k i") (simp add: node_at_def, simp add: lv_def)
  moreover have "split_at (lv f) k j \<or> whole_at (lv f) k j" if k: "k < ?D" for k j
  proof (cases "node_at f (Suc k) j")
    case True
    with assms k show ?thesis by (auto simp: tree_inv_upto_def list_all_iff node_at_def)
  next
    case False
    then have "\<not> node_at f k (2 * j)" "\<not> node_at f k (2 * j + 1)"
      using node_at_parent [of f k "2 * j"] node_at_parent [of f k "2 * j + 1"] k by auto
    with False show ?thesis by (simp add: split_at_def lv_def)
  qed
  ultimately show ?thesis by (simp add: tree_inv_def bounded_def)
qed

text \<open>Four free frames in one tree.\<close>

definition four_frames :: buddy_system where
  "four_frames = \<lparr>bs_map = \<lparr>af_buf = map Buddy [3, 2, 2, 1, 1, 1, 1, 0], af_tree_depth = 3,
     af_tree_cnt = 1\<rparr>, bs_max_order = 2\<rparr>"

lemma four_frames_inv: "buddy_inv four_frames"
proof -
  have "tree_inv_upto 1 2 (lv (bs_map four_frames))" by code_simp
  then have "tree_inv 2 (lv (bs_map four_frames))"
    using tree_inv_upto [of "bs_map four_frames"] by (simp add: four_frames_def top_order_def)
  then show ?thesis
    by (simp add: buddy_inv_def four_frames_def forest_wf_def top_order_def usize_limit_def
        BUDDY_MAX_ORDER_def)
qed

lemma four_frames_max_order [simp]: "bs_max_order four_frames = 2"
  by (simp add: four_frames_def)

lemma reserve_Some:
  assumes "buddy_inv b" "order \<le> bs_max_order b" "buddy_reserve b order = Inr (Some x, b')"
  obtains i where "x = i * 2 ^ order" "takeable b order i" "updated b order i 0 b'"
  using buddy_reserve_cases [OF assms(1,2)] assms(3) by auto

lemma free_when_free:
  assumes "buddy_inv b" "node_at (bs_map b) k i" "lv (bs_map b) k i \<noteq> 0"
  shows "buddy_system_free b (i * 2 ^ k) k = Inl AssertFailed"
proof -
  have wf: "forest_wf (bs_map b)" using assms(1) by (simp add: buddy_inv_def)
  have k: "k \<le> bs_max_order b" "k < 64"
    using node_at_order [OF assms(1,2)] assms(1) by (auto simp: buddy_inv_def BUDDY_MAX_ORDER_def)
  then show ?thesis
    using order_to_depth_ok [OF assms(1) k(1)] forest_cursor_ok [OF wf node_at_ok [OF wf assms(2)]]
      lv_get [OF wf assms(2)] assms(3)
    by (simp add: buddy_system_free_def is_reserved_def)
qed

lemma free_after_reserve:
  assumes inv: "buddy_inv b" and r: "takeable b k i" "updated b k i 0 b'"
  obtains b'' where "buddy_system_free b' (i * 2 ^ k) k = Inr b''" "buddy_inv b''"
    "free_frames b'' = free_frames b" "node_at (bs_map b'') k i" "lv (bs_map b'') k i = Suc k"
proof -
  note t = taken [OF inv r]
  obtain b'' where b'': "buddy_system_free b' (i * 2 ^ k) k = Inr b''" "updated b' k i (Suc k) b''"
    using buddy_system_free_updated [OF t(1,3)] by blast
  have "free_frames b'' = free_frames b"
    using returned [OF t(1,3) b''(2)] t(2) takeable_free [OF inv r(1)] by auto
  moreover have "node_at (bs_map b'') k i" "lv (bs_map b'') k i = Suc k"
    using b''(2) t(3) tset_spec(3) [OF buddy_inv_tree [OF t(1)] order_refl]
    by (simp_all add: updated_def in_use_def node_at_def)
  ultimately show ?thesis using that b''(1) returned(1) [OF t(1,3) b''(2)] by blast
qed

section \<open>Properties\<close>

text \<open>C4. A client of the buddy system may issue any sequence of reservations (of orders up to the
  maximum) and releases of extents it holds: no call panics, the extents held are disjoint from
  one another and from the free frames, and the free frames together with the extents held are
  exactly the frames that were free at the start.\<close>

theorem buddy_client_run:
  assumes "buddy_inv b" and "\<forall>r \<in> set reqs. request_ok (bs_max_order b) r"
  shows "\<exists>b' held. client_run buddy_reserve buddy_system_free reqs (b, []) = Inr (b', held) \<and>
    buddy_inv b' \<and>
    (\<forall>e \<in> set held. frames_of e \<inter> free_frames b' = {} \<and>
      (\<forall>e' \<in> set held. e \<noteq> e' \<longrightarrow> frames_of e \<inter> frames_of e' = {})) \<and>
    free_frames b' \<union> \<Union> (frames_of ` set held) = free_frames b"
  using assms by (rule buddy.run_from_start)

theorem buddy_client_run_witness:
  "\<exists>b' held. client_run buddy_reserve buddy_system_free [Reserve 1, Reserve 0, Release 1]
      (four_frames, []) = Inr (b', held) \<and> buddy_inv b' \<and>
    (\<forall>e \<in> set held. frames_of e \<inter> free_frames b' = {} \<and>
      (\<forall>e' \<in> set held. e \<noteq> e' \<longrightarrow> frames_of e \<inter> frames_of e' = {})) \<and>
    free_frames b' \<union> \<Union> (frames_of ` set held) = free_frames four_frames"
  using buddy_client_run [OF four_frames_inv, of "[Reserve 1, Reserve 0, Release 1]"] by simp

text \<open>C10. \<^verbatim>\<open>reserve\<close> answers exactly by the roots: it hands out a block when some root records a free
  block larger than the order asked for, and then the frames of the answer were free, start at a
  multiple of \<open>2 ^ order\<close>, and are the only ones that stop being free; otherwise it answers
  \<^verbatim>\<open>None\<close> and changes nothing.  It does not panic, so its \<^verbatim>\<open>unreachable!\<close> is not reached.\<close>

theorem buddy_reserve_exact:
  assumes "buddy_inv b" and "order \<le> bs_max_order b"
  shows "if \<exists>r < af_tree_cnt (bs_map b). Suc order < level (nd (bs_map b) 0 r)
    then \<exists>x b'. buddy_reserve b order = Inr (Some x, b') \<and> buddy_inv b' \<and> 2 ^ order dvd x \<and>
      {x ..< x + 2 ^ order} \<subseteq> free_frames b \<and> free_frames b' = free_frames b - {x ..< x + 2 ^ order}
    else buddy_reserve b order = Inr (None, b)"
proof -
  have D: "bs_max_order b = top_order (bs_map b)" using assms(1) by (simp add: buddy_inv_def)
  have lv: "lv (bs_map b) (bs_max_order b) r = level (nd (bs_map b) 0 r)"
    if "r < af_tree_cnt (bs_map b)" for r
    using that by (simp add: lv_def node_at_def D)
  have blk: "block order i = {i * 2 ^ order ..< i * 2 ^ order + 2 ^ order}" for i
    using frames_of_block [of i order] by (simp add: frames_of_def)
  show ?thesis
    using buddy_reserve_cases [OF assms]
  proof (elim disjE exE conjE)
    fix r i b' assume "r < af_tree_cnt (bs_map b)" "Suc order < lv (bs_map b) (bs_max_order b) r"
      and r: "buddy_reserve b order = Inr (Some (i * 2 ^ order), b')" "takeable b order i"
      "updated b order i 0 b'"
    moreover note taken [OF assms(1) r(2,3)] takeable_free [OF assms(1) r(2)]
    ultimately show ?thesis using lv unfolding blk by (metis (no_types, lifting) dvd_triv_right)
  next
    assume "\<forall>r<af_tree_cnt (bs_map b). lv (bs_map b) (bs_max_order b) r \<le> Suc order"
      and "buddy_reserve b order = Inr (None, b)"
    then show ?thesis using lv by (auto simp: not_less)
  qed
qed

theorem buddy_reserve_exact_witness:
  "\<exists>x b'. buddy_reserve four_frames 1 = Inr (Some x, b') \<and> buddy_inv b' \<and> 2 ^ 1 dvd x \<and>
    {x ..< x + 2 ^ 1} \<subseteq> free_frames four_frames \<and>
    free_frames b' = free_frames four_frames - {x ..< x + 2 ^ 1}"
proof -
  have "\<exists>r < af_tree_cnt (bs_map four_frames). Suc 1 < level (nd (bs_map four_frames) 0 r)"
    by (intro exI [of _ 0]) (simp add: four_frames_def nd_def node_pos_def)
  then show ?thesis using buddy_reserve_exact [OF four_frames_inv, of 1] by simp
qed

text \<open>C11. Freeing what \<^verbatim>\<open>reserve\<close> just returned, with the same order, does not panic and restores
  the set of free frames.\<close>

theorem reserve_free_roundtrip:
  assumes "buddy_inv b" and "order \<le> bs_max_order b" and "buddy_reserve b order = Inr (Some x, b')"
  shows "\<exists>b''. buddy_system_free b' x order = Inr b'' \<and> buddy_inv b'' \<and> free_frames b'' = free_frames b"
  using reserve_Some [OF assms] free_after_reserve [OF assms(1)] by metis

lemma four_frames_reserve: "\<exists>x b'. buddy_reserve four_frames 1 = Inr (Some x, b')"
proof -
  have "Suc 1 < lv (bs_map four_frames) (bs_max_order four_frames) 0"
    by (simp add: four_frames_def lv_def node_at_def top_order_def nd_def node_pos_def)
  moreover have "0 < af_tree_cnt (bs_map four_frames)" by (simp add: four_frames_def)
  ultimately show ?thesis using buddy_reserve_cases [OF four_frames_inv, of 1] by fastforce
qed

theorem reserve_free_roundtrip_witness:
  "\<exists>x b' b''. buddy_reserve four_frames 1 = Inr (Some x, b') \<and> buddy_system_free b' x 1 = Inr b'' \<and>
     buddy_inv b'' \<and> free_frames b'' = free_frames four_frames"
  using four_frames_reserve reserve_free_roundtrip [OF four_frames_inv, of 1] by fastforce

text \<open>C28. A double free is caught: after a block returned by \<^verbatim>\<open>reserve\<close> has been freed, freeing it
  again fails the assertion.\<close>

theorem double_free_panics:
  assumes "buddy_inv b" and "order \<le> bs_max_order b" and "buddy_reserve b order = Inr (Some x, b')"
    and "buddy_system_free b' x order = Inr b''"
  shows "buddy_system_free b'' x order = Inl AssertFailed"
proof -
  obtain i where i: "x = i * 2 ^ order" "takeable b order i" "updated b order i 0 b'"
    using reserve_Some [OF assms(1-3)] .
  obtain c where "buddy_system_free b' (i * 2 ^ order) order = Inr c" "buddy_inv c"
    "node_at (bs_map c) order i" "lv (bs_map c) order i = Suc order"
    using free_after_reserve [OF assms(1) i(2,3)] .
  with assms(4) i(1) free_when_free [of c order i] show ?thesis by simp
qed

theorem double_free_panics_witness:
  "\<exists>x b' b''. buddy_reserve four_frames 1 = Inr (Some x, b') \<and> buddy_system_free b' x 1 = Inr b'' \<and>
     buddy_system_free b'' x 1 = Inl AssertFailed"
proof -
  obtain x b' where r: "buddy_reserve four_frames 1 = Inr (Some x, b')"
    using four_frames_reserve by blast
  obtain i where i: "x = i * 2 ^ 1" "takeable four_frames 1 i" "updated four_frames 1 i 0 b'"
    using reserve_Some [OF four_frames_inv _ r] by auto
  then obtain b'' where "buddy_system_free b' x 1 = Inr b''"
    using free_after_reserve [OF four_frames_inv i(2,3)] by metis
  with r double_free_panics [OF four_frames_inv _ r] show ?thesis by auto
qed

text \<open>C29. Start-up: a system made for \<open>page_cnt\<close> pages by \<^verbatim>\<open>new\<close> has no free frame and covers all of
  them; \<^verbatim>\<open>free_forced\<close> on a block aligned to its own size keeps the invariant and adds exactly the
  frames of that block to the free frames.\<close>

theorem new_then_free_forced:
  assumes "0 < page_cnt" "page_cnt \<le> 2 ^ 40" and "\<And>l. alloc l s = Inr (Some a, s')"
    and "k \<le> BUDDY_MAX_ORDER" "Suc i * 2 ^ k \<le> page_cnt"
  shows "\<exists>b b'. buddy_new page_cnt alloc s = Inr (Some b, s') \<and> buddy_inv b \<and> free_frames b = {} \<and>
    free_forced b (i * 2 ^ k) k = Inr b' \<and> buddy_inv b' \<and>
    free_frames b' = {i * 2 ^ k ..< Suc i * 2 ^ k}"
proof -
  obtain b where b: "buddy_new page_cnt alloc s = Inr (Some b, s')" "starting b" "free_frames b = {}"
    "bs_max_order b = min (pow2_exp page_cnt) BUDDY_MAX_ORDER"
    "page_cnt \<le> af_tree_cnt (bs_map b) * 2 ^ bs_max_order b"
    using buddy_new_ok [OF assms(1,2), of alloc s a s'] assms(3) by blast
  have inv: "buddy_inv b" using b(2) by (simp add: starting_def)
  obtain b' where "free_forced b (i * 2 ^ k) k = Inr b'" "starting b'" "free_frames b' = block k i"
    using free_forced_starting [OF b(2) node_at_within [OF inv b(4,5) assms(4,5)]] b(3) by auto
  then show ?thesis using b(1,3) inv by (simp add: block_eq starting_def)
qed

theorem new_then_free_forced_witness:
  "\<exists>b b'. buddy_new 6 (\<lambda>l s. Inr (Some (), s)) () = Inr (Some b, ()) \<and> buddy_inv b \<and>
     free_frames b = {} \<and> free_forced b (1 * 2 ^ 1) 1 = Inr b' \<and> buddy_inv b' \<and>
     free_frames b' = {1 * 2 ^ 1 ..< Suc 1 * 2 ^ 1}"
  by (rule new_then_free_forced) (simp_all add: BUDDY_MAX_ORDER_def)

text \<open>A block of the maximum order is never handed out: the scan of the roots asks for a root
  whose free block is strictly larger than the order, and no root can be, so \<^verbatim>\<open>reserve\<close> of the
  maximum order answers \<^verbatim>\<open>None\<close> even on a system whose frames are all free.\<close>

theorem reserve_max_order_refused:
  assumes "buddy_inv b"
  shows "buddy_reserve b (bs_max_order b) = Inr (None, b)"
proof -
  have "lv (bs_map b) (bs_max_order b) r \<le> Suc (bs_max_order b)" for r
    using buddy_inv_tree [OF assms] by (simp add: tree_inv_def bounded_def)
  then show ?thesis using buddy_reserve_cases [OF assms order_refl] by (auto simp: not_less [symmetric])
qed

theorem reserve_max_order_refused_witness: "buddy_reserve four_frames 2 = Inr (None, four_frames)"
  using reserve_max_order_refused [OF four_frames_inv] by simp

text \<open>C36. Freed buddies are not merged: after a block is freed, no node above it records the block
  of its own size as free, whatever the state of the buddy, so the freed frames are not handed
  out again as part of a larger block.\<close>

theorem free_does_not_merge:
  assumes "buddy_inv b" and "in_use b k i" and "buddy_system_free b (i * 2 ^ k) k = Inr b'"
    and "k < m" "m \<le> bs_max_order b"
  shows "level (nd (bs_map b') (bs_max_order b - m) (i div 2 ^ (m - k))) \<le> m"
proof -
  obtain m' where m: "m = Suc m'" "k \<le> m'" "m' < bs_max_order b"
    using assms(4,5) by (cases m) auto
  have up: "updated b k i (Suc k) b'"
    using buddy_system_free_updated [OF assms(1,2)] assms(3) by auto
  note t = tset_spec [OF buddy_inv_tree [OF assms(1)] order_refl, where k = k and i = i]
  have "lv (bs_map b') m (anc k i m) \<le> m"
    using up t(1,2) m split_at_le by (simp add: updated_def splits_above_def)
  moreover have "node_at (bs_map b') m (anc k i m)"
    using node_at_anc [of "bs_map b" k i m] assms(1,2,4,5) up
    by (simp add: in_use_def updated_def buddy_inv_def node_at_def)
  ultimately show ?thesis
    using up assms(1) by (simp add: lv_def anc_def updated_def buddy_inv_def)
qed

theorem free_does_not_merge_witness:
  "\<exists>i b b'. buddy_inv b \<and> in_use b 1 i \<and> buddy_system_free b (i * 2 ^ 1) 1 = Inr b' \<and>
     bs_max_order b = 2 \<and> level (nd (bs_map b') 0 (i div 2)) \<le> 2"
proof -
  obtain x b where r: "buddy_reserve four_frames 1 = Inr (Some x, b)"
    using four_frames_reserve by blast
  obtain i where i: "takeable four_frames 1 i" "updated four_frames 1 i 0 b"
    using reserve_Some [OF four_frames_inv _ r] by auto
  note t = taken [OF four_frames_inv i]
  obtain b' where b': "buddy_system_free b (i * 2 ^ 1) 1 = Inr b'"
    using buddy_system_free_updated [OF t(1,3)] by blast
  have "bs_max_order b = 2" using i(2) by (simp add: updated_def)
  with free_does_not_merge [OF t(1,3) b', of 2] t b' show ?thesis by auto
qed

text \<open>Eight frames, all reserved, as \<^verbatim>\<open>new\<close> leaves them.\<close>

definition eight_reserved :: buddy_system where
  "eight_reserved = \<lparr>bs_map = \<lparr>af_buf = replicate 16 buddy_reserved, af_tree_depth = 4,
     af_tree_cnt = 1\<rparr>, bs_max_order = 3\<rparr>"

text \<open>\<^verbatim>\<open>free_forced\<close> on a block that is not aligned to its own size marks the wrong frames: after
  freeing the four frames from frame 1 on in a system of eight reserved frames, \<^verbatim>\<open>reserve\<close> hands
  out frames 0 and 1, although frame 0 was never freed.\<close>

theorem free_forced_unaligned:
  "rbind (free_forced eight_reserved 1 2) (\<lambda>b. rbind (buddy_reserve b 1) (\<lambda>(x, b'). Inr x)) =
     Inr (Some 0)"
  by code_simp

end
