(* ===== verification/Mem_Addr.thy ===== *)
theory Mem_Addr
  imports Koe_Prelude
begin

unbundle bit_operations_syntax

text \<open>
  Addresses, address ranges and pages: \<^verbatim>\<open>src/src/mem/addr.rs\<close>, with the address spaces of
  \<^verbatim>\<open>src/src/mem/virt.rs\<close> and \<^verbatim>\<open>src/src/mem/phy.rs\<close>.

  A Rust type parameter \<^verbatim>\<open>S: AddrSpace\<close> only carries the constant \<^verbatim>\<open>S::RANGE\<close>, so it is an
  explicit argument \<open>S\<close> of the operations.  \<^verbatim>\<open>Addr<S>\<close> is a newtype over \<^verbatim>\<open>usize\<close>.  Debug
  assertions are part of the operations, since the kernel is built with them.  The locale
  \<open>page_aligned_space\<close> states what the module's documentation requires of every address space;
  it is interpreted at the four spaces that meet it.
\<close>

section \<open>Constants\<close>

definition KiB :: nat where "KiB = 2 ^ 10"
definition MiB :: nat where "MiB = 2 ^ 20"
definition GiB :: nat where "GiB = 2 ^ 30"
definition TiB :: nat where "TiB = 2 ^ 40"

lemma units_code [code]: "KiB = 1024" "MiB = 1048576" "GiB = 1073741824" "TiB = 1099511627776"
  by (simp_all add: KiB_def MiB_def GiB_def TiB_def)

section \<open>Address spaces\<close>

record addr_space =
  RANGE_start :: nat
  RANGE_end :: nat

definition RANGE_contains :: "addr_space \<Rightarrow> nat \<Rightarrow> bool" where
  "RANGE_contains S x \<longleftrightarrow> RANGE_start S \<le> x \<and> x < RANGE_end S"

definition UMASpace :: addr_space where
  "UMASpace = \<lparr>RANGE_start = 0, RANGE_end = 64 * TiB\<rparr>"

definition KernelImageSpace :: addr_space where
  "KernelImageSpace = \<lparr>RANGE_start = 0xFFFFFFFF80000000, RANGE_end = 0xFFFFFFFFFF600000\<rparr>"

definition PhysicalRemapSpace :: addr_space where
  "PhysicalRemapSpace = \<lparr>RANGE_start = 0xFFFF888000000000, RANGE_end = 0xFFFFC88000000000\<rparr>"

definition DataStackSpace :: addr_space where
  "DataStackSpace = \<lparr>RANGE_start = 0xFFFFC90000000000, RANGE_end = 0xFFFFE90000000000\<rparr>"

definition RecursivePagingSpace :: addr_space where
  "RecursivePagingSpace = \<lparr>RANGE_start = 0xFFFFFE8000000000, RANGE_end = 0xFFFFFF0000000000\<rparr>"

section \<open>Page sizes\<close>

datatype page_size = Small | Large | Huge

fun page_order :: "page_size \<Rightarrow> nat" where
  "page_order Small = 12"
| "page_order Large = 21"
| "page_order Huge = 30"

definition page_usize :: "page_size \<Rightarrow> nat" where
  "page_usize p = 2 ^ page_order p"

definition page_align :: "page_size \<Rightarrow> nat" where
  "page_align p = page_usize p"

definition page_MAX :: page_size where "page_MAX = Huge"
definition page_MIN :: page_size where "page_MIN = Small"

definition page_VARIANTS :: "page_size list" where
  "page_VARIANTS = [Small, Large, Huge]"

definition page_layout :: "page_size \<Rightarrow> layout res" where
  "page_layout p = rexpect (layout_from_size_align (page_usize p) (page_align p))"

text \<open>The \<^verbatim>\<open>while\<close> loop of \<^verbatim>\<open>PageSize::fit\<close> over the variants.\<close>

fun fit_scan :: "nat \<Rightarrow> page_size list \<Rightarrow> page_size option" where
  "fit_scan align_order [] = None"
| "fit_scan align_order (v # vs) =
     (if align_order \<le> page_order v then Some v else fit_scan align_order vs)"

definition page_fit :: "layout \<Rightarrow> page_size option" where
  "page_fit l = fit_scan (64 - leading_zeros (l_size (pad_to_align l))) page_VARIANTS"

definition assert_range_is_page_aligned :: "addr_space \<Rightarrow> bool" where
  "assert_range_is_page_aligned S \<longleftrightarrow>
     RANGE_start S mod page_align page_MAX = 0 \<and> RANGE_end S mod page_align page_MAX = 0"

section \<open>Addresses\<close>

datatype addr = Addr (usize: nat)

definition addr_new :: "addr_space \<Rightarrow> nat \<Rightarrow> addr res" where
  "addr_new S v = rbind (rassert (RANGE_start S \<le> v \<and> v < RANGE_end S)) (\<lambda>_. Inr (Addr v))"

definition byte_add :: "addr_space \<Rightarrow> addr \<Rightarrow> nat \<Rightarrow> addr res" where
  "byte_add S a x =
     rbind (usize_add (usize a) x) (\<lambda>v.
     rbind (rassert (RANGE_start S \<le> v)) (\<lambda>_. Inr (Addr v)))"

definition checked_byte_add :: "addr_space \<Rightarrow> addr \<Rightarrow> nat \<Rightarrow> addr option" where
  "checked_byte_add S a x =
     map_option Addr (opt_filter (RANGE_contains S) (checked_add (usize a) x))"

definition byte_sub :: "addr_space \<Rightarrow> addr \<Rightarrow> nat \<Rightarrow> addr res" where
  "byte_sub S a x =
     rbind (usize_sub (usize a) x) (\<lambda>v.
     rbind (rassert (v < RANGE_end S)) (\<lambda>_. Inr (Addr v)))"

definition checked_byte_sub :: "addr_space \<Rightarrow> addr \<Rightarrow> nat \<Rightarrow> addr option" where
  "checked_byte_sub S a x =
     map_option Addr (opt_filter (RANGE_contains S) (checked_sub (usize a) x))"

definition addr_sub :: "addr \<Rightarrow> addr \<Rightarrow> int res" where
  "addr_sub a b = isize_sub (isize_of (usize a)) (isize_of (usize b))"

definition align_ceil :: "addr_space \<Rightarrow> addr \<Rightarrow> nat \<Rightarrow> addr option" where
  "align_ceil S a align =
     map_option Addr
       (opt_filter (\<lambda>x. x < RANGE_end S) (checked_next_multiple_of (usize a) align))"

definition align_floor :: "addr_space \<Rightarrow> addr \<Rightarrow> nat \<Rightarrow> addr option res" where
  "align_floor S a align =
     rbind (usize_rem (usize a) align) (\<lambda>r.
     Inr (map_option Addr (opt_filter (\<lambda>x. RANGE_start S \<le> x) (Some (usize a - r)))))"

definition is_aligned_to :: "addr \<Rightarrow> nat \<Rightarrow> bool res" where
  "is_aligned_to a align = rbind (usize_rem (usize a) align) (\<lambda>r. Inr (r = 0))"

text \<open>\<^verbatim>\<open>Addr::index_range\<close>: the bits \<open>s .. e\<close> of a virtual address.  The argument of
  \<^verbatim>\<open>strict_shl\<close> is a \<^verbatim>\<open>u32\<close>, and it panics when the shift is not below the width.\<close>

definition index_range :: "addr \<Rightarrow> nat \<times> nat \<Rightarrow> nat res" where
  "index_range a r = (case r of (s, e) \<Rightarrow>
     if e \<le> s then Inr 0
     else rbind (if e mod 2 ^ 32 < 64 then Inr (2 ^ (e mod 2 ^ 32)) else Inl Overflow) (\<lambda>bit.
          rbind (usize_sub bit 1) (\<lambda>mask. usize_shr (usize a AND mask) s)))"

section \<open>Address ranges\<close>

record addr_range =
  ar_base :: addr
  ar_size :: nat

definition addr_range_from :: "addr \<Rightarrow> addr \<Rightarrow> addr_range res" where
  "addr_range_from s e =
     rbind (addr_sub e s) (\<lambda>d.
     Inr \<lparr>ar_base = s, ar_size = unwrap_or 0 (usize_try_from d)\<rparr>)"

definition addr_range_new :: "addr_space \<Rightarrow> addr \<Rightarrow> nat \<Rightarrow> addr_range res" where
  "addr_range_new S b sz =
     rbind (usize_add (usize b) sz) (\<lambda>e.
     rbind (rassert (e \<le> RANGE_end S)) (\<lambda>_. Inr \<lparr>ar_base = b, ar_size = sz\<rparr>))"

definition ar_start :: "addr_range \<Rightarrow> addr" where
  "ar_start r = ar_base r"

definition ar_end :: "addr_space \<Rightarrow> addr_range \<Rightarrow> addr res" where
  "ar_end S r = byte_add S (ar_base r) (ar_size r)"

definition ar_is_empty :: "addr_range \<Rightarrow> bool" where
  "ar_is_empty r \<longleftrightarrow> ar_size r = 0"

definition addr_range_empty :: "addr_space \<Rightarrow> addr_range res" where
  "addr_range_empty S =
     rbind (addr_new S (RANGE_start S)) (\<lambda>b. Inr \<lparr>ar_base = b, ar_size = 0\<rparr>)"

definition range_sub :: "addr_space \<Rightarrow> addr_range \<Rightarrow> addr_range \<Rightarrow> (addr_range \<times> addr_range) res" where
  "range_sub S self rhs =
     (if ar_is_empty self then rbind (addr_range_empty S) (\<lambda>e. Inr (e, rhs))
      else if ar_is_empty rhs then rbind (addr_range_empty S) (\<lambda>e. Inr (self, e))
      else
        rbind (addr_sub (ar_base rhs) (ar_base self)) (\<lambda>d1.
        let low_size = min (unwrap_or 0 (usize_try_from d1)) (ar_size self) in
        rbind (addr_sub (ar_base self) (ar_base rhs)) (\<lambda>d2.
        rbind (isize_sub (isize_of (ar_size self)) (isize_of (ar_size rhs))) (\<lambda>d3.
        rbind (isize_add d2 d3) (\<lambda>d4.
        let hi_size = min (unwrap_or 0 (usize_try_from d4)) (ar_size self) in
        rbind (addr_range_new S (ar_base self) low_size) (\<lambda>lo.
        rbind (usize_sub (ar_size self) hi_size) (\<lambda>off.
        rbind (byte_add S (ar_base self) off) (\<lambda>hb.
        rbind (addr_range_new S hb hi_size) (\<lambda>hi.
        Inr (lo, hi))))))))))"

section \<open>Pages\<close>

record page_addr =
  pa_base :: addr
  pa_page_size :: page_size

definition page_addr_new :: "addr \<Rightarrow> page_size \<Rightarrow> page_addr res" where
  "page_addr_new b p =
     rbind (usize_rem (usize b) (page_align p)) (\<lambda>r.
     rbind (rassert (r = 0)) (\<lambda>_. Inr \<lparr>pa_base = b, pa_page_size = p\<rparr>))"

definition checked_page_add :: "addr_space \<Rightarrow> page_addr \<Rightarrow> nat \<Rightarrow> page_addr option res" where
  "checked_page_add S a cnt =
     rbind (usize_mul cnt (page_usize (pa_page_size a))) (\<lambda>bytes.
     Inr (map_option (\<lambda>b. a\<lparr>pa_base := b\<rparr>) (checked_byte_add S (pa_base a) bytes)))"

definition checked_page_sub :: "addr_space \<Rightarrow> page_addr \<Rightarrow> nat \<Rightarrow> page_addr option res" where
  "checked_page_sub S a cnt =
     rbind (usize_mul cnt (page_usize (pa_page_size a))) (\<lambda>bytes.
     Inr (map_option (\<lambda>b. a\<lparr>pa_base := b\<rparr>) (checked_byte_sub S (pa_base a) bytes)))"

record page_range =
  pr_base :: page_addr
  pr_len :: nat

definition page_range_into :: "page_range \<Rightarrow> addr_range res" where
  "page_range_into r =
     rbind (usize_mul (pr_len r) (page_usize (pa_page_size (pr_base r)))) (\<lambda>sz.
     Inr \<lparr>ar_base = pa_base (pr_base r), ar_size = sz\<rparr>)"

text \<open>The items of the iterator \<^verbatim>\<open>(start..).step_by(step).take(len)\<close>: yielding an item also
  computes its successor, which must not overflow.\<close>

definition page_range_item :: "addr_space \<Rightarrow> page_range \<Rightarrow> nat \<Rightarrow> page_addr res" where
  "page_range_item S r i =
     rbind (usize_mul i (page_usize (pa_page_size (pr_base r)))) (\<lambda>off.
     rbind (usize_add (usize (pa_base (pr_base r))) off) (\<lambda>b.
     rbind (usize_add b 1) (\<lambda>_.
     rbind (addr_new S b) (\<lambda>a. page_addr_new a (pa_page_size (pr_base r))))))"

definition page_range_into_iter :: "addr_space \<Rightarrow> page_range \<Rightarrow> page_addr list res" where
  "page_range_into_iter S r = rmap (page_range_item S r) [0..<pr_len r]"

definition page_range_empty :: "addr_space \<Rightarrow> page_size \<Rightarrow> page_range res" where
  "page_range_empty S p =
     rbind (addr_new S (RANGE_start S)) (\<lambda>a.
     rbind (page_addr_new a p) (\<lambda>b. Inr \<lparr>pr_base = b, pr_len = 0\<rparr>))"

definition try_from_range :: "addr_range \<Rightarrow> page_size \<Rightarrow> page_range option res" where
  "try_from_range r p =
     rbind (is_aligned_to (ar_base r) (page_align p)) (\<lambda>al.
     if \<not> al then Inr None
     else rbind (page_addr_new (ar_base r) p) (\<lambda>b.
          rbind (usize_rem (ar_size r) (page_align p)) (\<lambda>m.
          if m \<noteq> 0 then Inr None
          else rbind (usize_div (ar_size r) (page_align p)) (\<lambda>n.
               Inr (Some \<lparr>pr_base = b, pr_len = n\<rparr>)))))"

definition contained_pages :: "addr_space \<Rightarrow> addr_range \<Rightarrow> page_size \<Rightarrow> page_range res" where
  "contained_pages S r p =
     (if ar_size r < page_usize p then page_range_empty S p
      else rbind (rexpect (align_ceil S (ar_base r) (page_usize p))) (\<lambda>b.
           rbind (addr_sub b (ar_base r)) (\<lambda>d.
           rbind (usize_sub (ar_size r) (usize_of d)) (\<lambda>residual.
           rbind (page_addr_new b p) (\<lambda>pb.
           Inr \<lparr>pr_base = pb, pr_len = residual div page_usize p\<rparr>)))))"

definition overlapped_pages :: "addr_space \<Rightarrow> addr_range \<Rightarrow> page_size \<Rightarrow> page_range res" where
  "overlapped_pages S r p =
     rbind (align_floor S (ar_base r) (page_usize p)) (\<lambda>ob.
     rbind (rexpect ob) (\<lambda>b.
     rbind (addr_sub (ar_base r) b) (\<lambda>d.
     rbind (usize_add (ar_size r) (usize_of d)) (\<lambda>residual.
     rbind (page_addr_new b p) (\<lambda>pb.
     rbind (div_ceil residual (page_usize p)) (\<lambda>n.
     Inr \<lparr>pr_base = pb, pr_len = n\<rparr>))))))"

section \<open>Physical and virtual addresses\<close>

definition kernel_image_v2p :: "addr \<Rightarrow> addr res" where
  "kernel_image_v2p v =
     rbind (rassert (RANGE_contains KernelImageSpace (usize v))) (\<lambda>_.
     rbind (usize_sub (usize v) (RANGE_start KernelImageSpace)) (addr_new UMASpace))"

definition p2v :: "addr \<Rightarrow> addr res" where
  "p2v p = rbind (usize_add (usize p) (RANGE_start PhysicalRemapSpace))
                 (addr_new PhysicalRemapSpace)"

definition v2p :: "addr \<Rightarrow> addr res" where
  "v2p v = rbind (usize_sub (usize v) (RANGE_start PhysicalRemapSpace)) (addr_new UMASpace)"

section \<open>Specifications: sets of bytes and of pages\<close>

definition range_bytes :: "addr_range \<Rightarrow> nat set" where
  "range_bytes r = {usize (ar_base r) ..< usize (ar_base r) + ar_size r}"

definition page_bytes :: "page_size \<Rightarrow> nat \<Rightarrow> nat set" where
  "page_bytes p b = {b ..< b + page_usize p}"

definition pages_of :: "page_range \<Rightarrow> nat set" where
  "pages_of r =
     (\<lambda>i. usize (pa_base (pr_base r)) + i * page_usize (pa_page_size (pr_base r))) ` {..<pr_len r}"

definition range_in :: "addr_space \<Rightarrow> addr_range \<Rightarrow> bool" where
  "range_in S r \<longleftrightarrow>
     RANGE_start S \<le> usize (ar_base r) \<and> usize (ar_base r) + ar_size r \<le> RANGE_end S"

section \<open>Basic facts\<close>

lemma page_usize_pos [simp]: "0 < page_usize p"
  by (simp add: page_usize_def)

lemma page_usize_neq_0 [simp]: "page_usize p \<noteq> 0"
  by (simp add: page_usize_def)

lemma page_usize_dvd_Huge: "page_usize p dvd 2 ^ 30"
  by (cases p) (simp_all add: page_usize_def le_imp_power_dvd)

lemma page_usize_le: "page_usize p \<le> 2 ^ 30"
  by (cases p) (simp_all add: page_usize_def)

lemma page_align_eq [simp]: "page_align p = page_usize p"
  by (simp add: page_align_def)

lemma page_usize_inject [simp]: "page_usize p = page_usize q \<longleftrightarrow> p = q"
  by (cases p; cases q) (simp_all add: page_usize_def)

lemma page_addr_new_ok [simp]:
  "page_usize p dvd usize b \<Longrightarrow> page_addr_new b p = Inr \<lparr>pa_base = b, pa_page_size = p\<rparr>"
  by (simp add: page_addr_new_def)

lemma page_addr_new_eq_Inr_iff [res_iffs]:
  "page_addr_new b p = Inr a \<longleftrightarrow>
     page_usize p dvd usize b \<and> a = \<lparr>pa_base = b, pa_page_size = p\<rparr>"
  by (auto simp: page_addr_new_def res_iffs mod_eq_0_iff_dvd)

lemma addr_new_ok [simp]: "RANGE_start S \<le> v \<Longrightarrow> v < RANGE_end S \<Longrightarrow> addr_new S v = Inr (Addr v)"
  by (simp add: addr_new_def)

lemma addr_new_eq_Inr_iff [res_iffs]:
  "addr_new S v = Inr a \<longleftrightarrow> RANGE_start S \<le> v \<and> v < RANGE_end S \<and> a = Addr v"
  by (auto simp: addr_new_def res_iffs)

lemma byte_add_ok [simp]:
  "usize a + x < usize_limit \<Longrightarrow> RANGE_start S \<le> usize a + x \<Longrightarrow>
     byte_add S a x = Inr (Addr (usize a + x))"
  by (simp add: byte_add_def)

lemma addr_range_new_ok [simp]:
  "usize b + sz \<le> RANGE_end S \<Longrightarrow> usize b + sz < usize_limit \<Longrightarrow>
     addr_range_new S b sz = Inr \<lparr>ar_base = b, ar_size = sz\<rparr>"
  by (simp add: addr_range_new_def)

lemma addr_sub_same_half:
  "same_half (usize a) (usize b) \<Longrightarrow> addr_sub a b = Inr (int (usize a) - int (usize b))"
  by (simp add: addr_sub_def isize_sub_same_half)

lemma usize_of_diff:
  "a \<le> b \<Longrightarrow> b < usize_limit \<Longrightarrow> usize_of (int b - int a) = b - a"
  using usize_of_nat [of "b - a"] by (simp add: of_nat_diff)

lemma unwrap_or_try_from: "unwrap_or 0 (usize_try_from d) = nat d"
  by (simp add: usize_try_from_def)

section \<open>The contract of an address space\<close>

text \<open>What the documentation of \<^verbatim>\<open>AddrSpace\<close> asks for: a range whose ends are aligned to the
  largest page.  A space also lies in one half of the 64-bit addresses, so that differences of
  its addresses fit in an \<^verbatim>\<open>isize\<close>.\<close>

locale page_aligned_space =
  fixes S :: addr_space
  assumes nonempty: "RANGE_start S < RANGE_end S"
    and aligned: "assert_range_is_page_aligned S"
    and one_half: "int (RANGE_end S) < isize_limit \<or>
                   isize_limit \<le> int (RANGE_start S) \<and> RANGE_end S < usize_limit"
begin

lemma end_less: "RANGE_end S < usize_limit"
  using one_half by (auto simp: isize_limit_def usize_limit_def)

lemma start_dvd: "page_usize p dvd RANGE_start S"
  using aligned page_usize_dvd_Huge [of p]
  by (auto simp: assert_range_is_page_aligned_def page_MAX_def page_usize_def mod_eq_0_iff_dvd
      intro: dvd_trans)

lemma end_dvd: "page_usize p dvd RANGE_end S"
  using aligned page_usize_dvd_Huge [of p]
  by (auto simp: assert_range_is_page_aligned_def page_MAX_def page_usize_def mod_eq_0_iff_dvd
      intro: dvd_trans)

lemma in_same_half:
  assumes "RANGE_start S \<le> a" "a \<le> RANGE_end S" "RANGE_start S \<le> b" "b \<le> RANGE_end S"
  shows "same_half a b"
  using assms one_half by (auto simp: same_half_def isize_limit_def usize_limit_def)

lemma size_less: "range_in S r \<Longrightarrow> int (ar_size r) < isize_limit"
  using one_half by (auto simp: range_in_def isize_limit_def usize_limit_def)

lemma align_ceil_in:
  assumes "RANGE_start S \<le> usize a" "ceil_to (usize a) (page_usize p) < RANGE_end S"
  shows "align_ceil S a (page_usize p) = Some (Addr (ceil_to (usize a) (page_usize p)))"
  using assms end_less ceil_to_ge [of "usize a" "page_usize p"]
  by (simp add: align_ceil_def checked_next_multiple_of_eq)

lemma align_floor_in:
  assumes "RANGE_start S \<le> usize a"
  shows "align_floor S a (page_usize p) =
    Inr (Some (Addr (usize a - usize a mod page_usize p)))"
proof -
  have "RANGE_start S \<le> usize a - usize a mod page_usize p"
  proof -
    obtain k where k: "RANGE_start S = page_usize p * k" using start_dvd [of p] by (auto elim: dvdE)
    have "k \<le> usize a div page_usize p"
      using assms by (simp add: k less_eq_div_iff_mult_less_eq mult.commute)
    then have "page_usize p * k \<le> page_usize p * (usize a div page_usize p)" by simp
    also have "\<dots> = usize a - usize a mod page_usize p" by (simp add: minus_mod_eq_mult_div)
    finally show ?thesis by (simp add: k)
  qed
  then show ?thesis by (simp add: align_floor_def)
qed

lemma contained_pages_ok:
  assumes r: "range_in S r" and big: "page_usize p \<le> ar_size r"
  shows "contained_pages S r p = Inr
    \<lparr>pr_base = \<lparr>pa_base = Addr (ceil_to (usize (ar_base r)) (page_usize p)), pa_page_size = p\<rparr>,
     pr_len = (usize (ar_base r) + ar_size r - ceil_to (usize (ar_base r)) (page_usize p))
                div page_usize p\<rparr>"
proof -
  let ?b = "usize (ar_base r)" and ?c = "ceil_to (usize (ar_base r)) (page_usize p)"
  have le: "?b \<le> ?c" and lt: "?c < ?b + page_usize p"
    using ceil_to_ge ceil_to_less by simp_all
  have c: "?c < RANGE_end S" "RANGE_start S \<le> ?b" "?b \<le> RANGE_end S"
    using r big lt by (auto simp: range_in_def)
  have sub: "addr_sub (Addr ?c) (ar_base r) = Inr (int ?c - int ?b)"
    using addr_sub_same_half [of "Addr ?c" "ar_base r"] in_same_half [of ?c ?b] c le by simp
  have "usize_of (int ?c - int ?b) = ?c - ?b"
    using le c end_less by (intro usize_of_diff) auto
  moreover have "ar_size r - (?c - ?b) = ?b + ar_size r - ?c"
    using le lt big by simp
  ultimately show ?thesis
    using big lt le c sub
    by (simp add: contained_pages_def align_ceil_in ceil_to_multiple)
qed

lemma overlapped_pages_ok:
  assumes r: "range_in S r"
  shows "overlapped_pages S r p = Inr
    \<lparr>pr_base = \<lparr>pa_base = Addr (usize (ar_base r) - usize (ar_base r) mod page_usize p),
                pa_page_size = p\<rparr>,
     pr_len = ceil_to (ar_size r + usize (ar_base r) mod page_usize p) (page_usize p)
                div page_usize p\<rparr>"
proof -
  let ?b = "usize (ar_base r)"
  let ?f = "?b - ?b mod page_usize p"
  have in_b: "RANGE_start S \<le> ?b" "?b \<le> RANGE_end S" and e: "?b + ar_size r \<le> RANGE_end S"
    using r by (auto simp: range_in_def)
  have floor: "align_floor S (ar_base r) (page_usize p) = Inr (Some (Addr ?f))"
    using in_b by (simp add: align_floor_in)
  then have f: "RANGE_start S \<le> ?f" "?f \<le> ?b"
    by (auto simp: align_floor_def split: if_splits)
  have sub: "addr_sub (ar_base r) (Addr ?f) = Inr (int ?b - int ?f)"
    using addr_sub_same_half [of "ar_base r" "Addr ?f"] in_same_half [of ?b ?f] f in_b by simp
  have "usize_of (int ?b - int ?f) = ?b mod page_usize p"
    using usize_of_diff [of ?f ?b] f in_b end_less by simp
  moreover have "ar_size r + ?b mod page_usize p < usize_limit"
    using e end_less mod_less_eq_dividend [of ?b "page_usize p"] by linarith
  moreover have "page_usize p dvd ?f" by (simp add: minus_mod_eq_mult_div)
  ultimately show ?thesis
    using sub floor by (simp add: overlapped_pages_def div_ceil_eq)
qed

lemma range_sub_ok:
  assumes r: "range_in S r" and q: "range_in S q"
    and ne: "ar_size r \<noteq> 0" "ar_size q \<noteq> 0"
  shows "range_sub S r q = Inr
    (\<lparr>ar_base = ar_base r,
      ar_size = min (usize (ar_base q) - usize (ar_base r)) (ar_size r)\<rparr>,
     \<lparr>ar_base = Addr (usize (ar_base r) + (ar_size r -
          min (usize (ar_base r) + ar_size r - (usize (ar_base q) + ar_size q)) (ar_size r))),
      ar_size = min (usize (ar_base r) + ar_size r - (usize (ar_base q) + ar_size q)) (ar_size r)\<rparr>)"
proof -
  let ?b = "usize (ar_base r)" and ?c = "usize (ar_base q)"
  let ?h = "min (?b + ar_size r - (?c + ar_size q)) (ar_size r)"
  have bounds: "RANGE_start S \<le> ?b" "?b + ar_size r \<le> RANGE_end S"
      "RANGE_start S \<le> ?c" "?c + ar_size q \<le> RANGE_end S"
    using r q by (auto simp: range_in_def)
  have d: "addr_sub (ar_base q) (ar_base r) = Inr (int ?c - int ?b)"
      "addr_sub (ar_base r) (ar_base q) = Inr (int ?b - int ?c)"
    using bounds by (auto intro!: addr_sub_same_half in_same_half)
  have sz: "isize_sub (isize_of (ar_size r)) (isize_of (ar_size q)) =
      Inr (int (ar_size r) - int (ar_size q))"
    using size_less [OF r] size_less [OF q] by (simp add: isize_sub_def)
  have sum: "isize_add (int ?b - int ?c) (int (ar_size r) - int (ar_size q)) =
      Inr (int (?b + ar_size r) - int (?c + ar_size q))"
    using bounds one_half by (auto simp: isize_add_def isize_limit_def usize_limit_def)
  have nats: "nat (int ?c - int ?b) = ?c - ?b"
      "nat (int (?b + ar_size r) - int (?c + ar_size q)) = ?b + ar_size r - (?c + ar_size q)"
    by (simp_all add: nat_diff_distrib')
  have h: "?h \<le> ar_size r" by simp
  have "range_sub S r q =
      rbind (addr_range_new S (ar_base r) (min (?c - ?b) (ar_size r))) (\<lambda>lo.
      rbind (usize_sub (ar_size r) ?h) (\<lambda>off.
      rbind (byte_add S (ar_base r) off) (\<lambda>hb.
      rbind (addr_range_new S hb ?h) (\<lambda>hi. Inr (lo, hi)))))"
    using ne by (simp only: range_sub_def ar_is_empty_def d sz sum Let_def rbind_Inr
        unwrap_or_try_from nats if_False simp_thms)
  also have "\<dots> = Inr (\<lparr>ar_base = ar_base r, ar_size = min (?c - ?b) (ar_size r)\<rparr>,
      \<lparr>ar_base = Addr (?b + (ar_size r - ?h)), ar_size = ?h\<rparr>)"
  proof -
    have "addr_range_new S (ar_base r) (min (?c - ?b) (ar_size r)) =
        Inr \<lparr>ar_base = ar_base r, ar_size = min (?c - ?b) (ar_size r)\<rparr>"
      using bounds end_less by (intro addr_range_new_ok) auto
    moreover have "byte_add S (ar_base r) (ar_size r - ?h) = Inr (Addr (?b + (ar_size r - ?h)))"
      using bounds end_less by (intro byte_add_ok) auto
    moreover have "addr_range_new S (Addr (?b + (ar_size r - ?h))) ?h =
        Inr \<lparr>ar_base = Addr (?b + (ar_size r - ?h)), ar_size = ?h\<rparr>"
      using bounds end_less h by (intro addr_range_new_ok) auto
    ultimately show ?thesis using h by simp
  qed
  finally show ?thesis .
qed

end

interpretation uma: page_aligned_space UMASpace
  by unfold_locales (simp_all add: UMASpace_def TiB_def assert_range_is_page_aligned_def
      page_MAX_def page_usize_def isize_limit_def usize_limit_def)

interpretation remap: page_aligned_space PhysicalRemapSpace
  by unfold_locales (simp_all add: PhysicalRemapSpace_def assert_range_is_page_aligned_def
      page_MAX_def page_usize_def isize_limit_def usize_limit_def)

interpretation stack: page_aligned_space DataStackSpace
  by unfold_locales (simp_all add: DataStackSpace_def assert_range_is_page_aligned_def
      page_MAX_def page_usize_def isize_limit_def usize_limit_def)

interpretation recursive: page_aligned_space RecursivePagingSpace
  by unfold_locales (simp_all add: RecursivePagingSpace_def assert_range_is_page_aligned_def
      page_MAX_def page_usize_def isize_limit_def usize_limit_def)

text \<open>The address spaces that meet the documented requirement; \<open>KernelImageSpace\<close> does not
  (\<open>kernel_image_space_unaligned\<close> below), and the \<^verbatim>\<open>_ASSERT_RANGE_IS_PAGE_ALIGNED\<close> constant that
  would reject it is never evaluated.\<close>

definition aligned_spaces :: "addr_space set" where
  "aligned_spaces = {UMASpace, PhysicalRemapSpace, DataStackSpace, RecursivePagingSpace}"

lemma aligned_spacesD: "S \<in> aligned_spaces \<Longrightarrow> page_aligned_space S"
  by (auto simp: aligned_spaces_def intro: uma.page_aligned_space_axioms
      remap.page_aligned_space_axioms stack.page_aligned_space_axioms
      recursive.page_aligned_space_axioms)

lemma kernel_image_space_unaligned: "\<not> assert_range_is_page_aligned KernelImageSpace"
  by (simp add: assert_range_is_page_aligned_def KernelImageSpace_def page_MAX_def page_usize_def)

lemma less_ceil_div_iff:
  assumes "0 < m"
  shows "i < ceil_to x m div m \<longleftrightarrow> i * m < (x::nat)"
proof -
  obtain q where q: "ceil_to x m = q * m"
    using ceil_to_multiple [OF assms, of x] by (metis dvd_def mult.commute)
  have "i < q \<longleftrightarrow> i * m < x"
  proof
    assume "i < q"
    then have "(i + 1) * m \<le> q * m" by (intro mult_le_mono1) simp
    then show "i * m < x" using ceil_to_less [OF assms, of x] q by simp
  next
    assume "i * m < x"
    then have "i * m < q * m" using ceil_to_ge [of x m] q by linarith
    then show "i < q" using assms by simp
  qed
  with q assms show ?thesis by simp
qed

lemma multiple_floor_le:
  assumes "0 < m" "m dvd b" "x < b + m"
  shows "x - x mod m \<le> (b::nat)"
proof -
  obtain k where k: "b = m * k" using assms(2) by (auto elim: dvdE)
  have "x < (k + 1) * m" using assms(3) k by (simp add: algebra_simps)
  then have "x div m < k + 1" using assms(1) by (simp add: div_less_iff_less_mult)
  then have "m * (x div m) \<le> m * k" by simp
  then show ?thesis by (simp add: k minus_mod_eq_mult_div)
qed

lemma pages_contained_set:
  assumes "page_usize p \<le> ar_size r"
  shows "pages_of \<lparr>pr_base = \<lparr>pa_base = Addr (ceil_to (usize (ar_base r)) (page_usize p)),
        pa_page_size = p\<rparr>,
      pr_len = (usize (ar_base r) + ar_size r - ceil_to (usize (ar_base r)) (page_usize p))
        div page_usize p\<rparr> =
    {b. page_usize p dvd b \<and> page_bytes p b \<subseteq> range_bytes r}" (is "?L = ?R")
proof -
  let ?b = "usize (ar_base r)" and ?m = "page_usize p"
  let ?c = "ceil_to ?b ?m"
  have c: "?m dvd ?c" "?b \<le> ?c" "?c < ?b + ?m"
    by (simp_all add: ceil_to_multiple ceil_to_ge ceil_to_less)
  have R: "b \<in> ?R \<longleftrightarrow> ?m dvd b \<and> ?b \<le> b \<and> b + ?m \<le> ?b + ar_size r" for b
    by (auto simp: page_bytes_def range_bytes_def ivl_subset)
  have in_len: "i < (?b + ar_size r - ?c) div ?m \<longleftrightarrow> ?c + i * ?m + ?m \<le> ?b + ar_size r" for i
    using c assms by (simp add: Suc_le_eq [symmetric] less_eq_div_iff_mult_less_eq) linarith
  show ?thesis
  proof (intro set_eqI iffI)
    fix b assume "b \<in> ?L"
    then obtain i where i: "b = ?c + i * ?m" "i < (?b + ar_size r - ?c) div ?m"
      by (auto simp: pages_of_def)
    then show "b \<in> ?R" using c in_len [of i] unfolding R by auto
  next
    fix b assume "b \<in> ?R"
    then have b: "?m dvd b" "?b \<le> b" "b + ?m \<le> ?b + ar_size r" unfolding R by auto
    have "?c \<le> b" using b by (intro ceil_to_least) simp_all
    moreover have "?m dvd b - ?c" using b c by (intro dvd_diff_nat)
    ultimately obtain i where "b = ?c + i * ?m"
      by (metis dvd_def le_add_diff_inverse mult.commute)
    with b in_len [of i] show "b \<in> ?L" by (auto simp: pages_of_def)
  qed
qed

lemma pages_overlapped_set:
  assumes "ar_size r \<noteq> 0"
  shows "pages_of \<lparr>pr_base = \<lparr>pa_base = Addr (usize (ar_base r) - usize (ar_base r) mod page_usize p),
        pa_page_size = p\<rparr>,
      pr_len = ceil_to (ar_size r + usize (ar_base r) mod page_usize p) (page_usize p)
        div page_usize p\<rparr> =
    {b. page_usize p dvd b \<and> page_bytes p b \<inter> range_bytes r \<noteq> {}}" (is "?L = ?R")
proof -
  let ?b = "usize (ar_base r)" and ?m = "page_usize p"
  let ?f = "?b - ?b mod ?m"
  have f: "?m dvd ?f" "?f \<le> ?b" by (simp_all add: minus_mod_eq_mult_div)
  have f': "?b < ?f + ?m"
    using mod_less_divisor [of ?m ?b] mod_less_eq_dividend [of ?b ?m] page_usize_pos [of p]
    by linarith
  have R: "b \<in> ?R \<longleftrightarrow> ?m dvd b \<and> ?b < b + ?m \<and> b < ?b + ar_size r" for b
  proof -
    have "page_bytes p b \<inter> range_bytes r = {max b ?b ..< min (b + ?m) (?b + ar_size r)}"
      by (simp add: page_bytes_def range_bytes_def)
    moreover have "{max b ?b ..< min (b + ?m) (?b + ar_size r)} \<noteq> {} \<longleftrightarrow>
        ?b < b + ?m \<and> b < ?b + ar_size r"
      using assms by auto
    ultimately show ?thesis by simp
  qed
  show ?thesis
  proof (intro set_eqI iffI)
    fix b assume "b \<in> ?L"
    then obtain i where i: "b = ?f + i * ?m" "i < ceil_to (ar_size r + ?b mod ?m) ?m div ?m"
      by (auto simp: pages_of_def)
    then have "i * ?m < ar_size r + ?b mod ?m" by (simp add: less_ceil_div_iff)
    then have "b < ?b + ar_size r" using i mod_less_eq_dividend [of ?b ?m] by linarith
    moreover have "?m dvd b" using i f by (metis dvd_add dvd_triv_right)
    moreover have "?b < b + ?m" using i f' by linarith
    ultimately show "b \<in> ?R" unfolding R by simp
  next
    fix b assume "b \<in> ?R"
    then have b: "?m dvd b" "?b < b + ?m" "b < ?b + ar_size r" unfolding R by auto
    have "?f \<le> b" using b by (intro multiple_floor_le) simp_all
    moreover have "?m dvd b - ?f" using b(1) f(1) by (rule dvd_diff_nat)
    ultimately obtain i where i: "b = ?f + i * ?m"
      by (metis dvd_def le_add_diff_inverse mult.commute)
    with b f have "i * ?m < ar_size r + ?b mod ?m"
      using mod_less_eq_dividend [of ?b ?m] by linarith
    with i show "b \<in> ?L" by (auto simp: pages_of_def less_ceil_div_iff)
  qed
qed

lemma all_page_size: "(\<forall>q. P q) \<longleftrightarrow> P Small \<and> P Large \<and> P Huge"
  by (metis page_size.exhaust)

lemma fit_scan_Some_iff:
  "fit_scan k page_VARIANTS = Some p \<longleftrightarrow>
     k \<le> page_order p \<and> (\<forall>q. k \<le> page_order q \<longrightarrow> page_order p \<le> page_order q)"
  by (cases p) (auto simp: page_VARIANTS_def all_page_size)

lemma bit_length_le_page_order: "bit_length n \<le> page_order p \<longleftrightarrow> n < page_usize p"
  by (simp add: bit_length_le_iff page_usize_def)

lemma page_order_le_iff: "page_order p \<le> page_order q \<longleftrightarrow> page_usize p \<le> page_usize q"
  by (simp add: page_usize_def)

lemma layout_wf_bit_length:
  "layout_wf l \<Longrightarrow> 64 - leading_zeros (l_size (pad_to_align l)) = bit_length (l_size (pad_to_align l))"
proof -
  assume "layout_wf l"
  then have "l_size (pad_to_align l) < 2 ^ 64"
    by (auto simp: layout_wf_def pad_to_align_def isize_limit_def)
  then have "bit_length (l_size (pad_to_align l)) \<le> 64"
    by (simp add: bit_length_le_iff)
  then show ?thesis by (simp add: leading_zeros_def)
qed

lemma ivl_minus:
  fixes b s c t :: nat
  assumes "0 < t" "0 < s"
  defines "h \<equiv> min (b + s - (c + t)) s"
  shows "{b..<b + min (c - b) s} \<union> {b + (s - h)..<b + (s - h) + h} = {b..<b + s} - {c..<c + t}"
    and "{b..<b + min (c - b) s} \<inter> {b + (s - h)..<b + (s - h) + h} = {}"
proof -
  have eqs: "b + min (c - b) s = min (max b c) (b + s)"
      "b + (s - h) = max b (min (c + t) (b + s))" "b + (s - h) + h = b + s"
    unfolding h_def by linarith+
  show "{b..<b + min (c - b) s} \<union> {b + (s - h)..<b + (s - h) + h} = {b..<b + s} - {c..<c + t}"
    unfolding eqs(3) unfolding eqs(1,2) using assms(1) by auto
  show "{b..<b + min (c - b) s} \<inter> {b + (s - h)..<b + (s - h) + h} = {}"
    unfolding eqs(3) unfolding eqs(1,2) using assms(1,2) by auto
qed

section \<open>Properties\<close>

text \<open>C25. Set subtraction of two non-empty address ranges of an aligned address space never
  panics and yields two disjoint ranges whose bytes are exactly those of the first range that
  are not in the second.\<close>

theorem range_sub_bytes:
  assumes "S \<in> aligned_spaces" "range_in S r" "range_in S q" "ar_size r \<noteq> 0" "ar_size q \<noteq> 0"
  shows "\<exists>lo hi. range_sub S r q = Inr (lo, hi) \<and>
    range_bytes lo \<union> range_bytes hi = range_bytes r - range_bytes q \<and>
    range_bytes lo \<inter> range_bytes hi = {}"
proof -
  note ok = page_aligned_space.range_sub_ok [OF aligned_spacesD [OF assms(1)] assms(2-5)]
  have pos: "0 < ar_size q" "0 < ar_size r" using assms(4,5) by simp_all
  show ?thesis
    by (intro exI conjI, rule ok)
       (simp_all only: range_bytes_def addr_range.simps addr.sel ivl_minus [OF pos])
qed

theorem range_sub_bytes_witness:
  "\<exists>lo hi. range_sub UMASpace \<lparr>ar_base = Addr 0, ar_size = 100\<rparr> \<lparr>ar_base = Addr 10, ar_size = 20\<rparr> =
      Inr (lo, hi) \<and> range_bytes lo \<union> range_bytes hi = {0..<100} - {10..<30} \<and>
      range_bytes lo \<inter> range_bytes hi = {}"
  using range_sub_bytes [of UMASpace "\<lparr>ar_base = Addr 0, ar_size = 100\<rparr>"
      "\<lparr>ar_base = Addr 10, ar_size = 20\<rparr>"]
  by (simp add: aligned_spaces_def range_in_def range_bytes_def UMASpace_def TiB_def)

text \<open>With an empty first range the code returns the whole second range instead of nothing.\<close>

lemma range_sub_empty_self:
  assumes "ar_size r = 0"
  shows "range_sub UMASpace r q = Inr (\<lparr>ar_base = Addr 0, ar_size = 0\<rparr>, q)"
  using assms by (simp add: range_sub_def ar_is_empty_def addr_range_empty_def UMASpace_def TiB_def)

text \<open>C26. The pages reported as fully contained in a range of an aligned address space are
  exactly the aligned pages all of whose bytes lie in the range, and the computation never
  panics.\<close>

theorem contained_pages_exact:
  assumes "S \<in> aligned_spaces" "range_in S r"
  shows "\<exists>pr. contained_pages S r p = Inr pr \<and>
    pages_of pr = {b. page_usize p dvd b \<and> page_bytes p b \<subseteq> range_bytes r} \<and>
    pa_page_size (pr_base pr) = p"
proof (cases "page_usize p \<le> ar_size r")
  case True
  note ok = page_aligned_space.contained_pages_ok [OF aligned_spacesD [OF assms(1)] assms(2) True]
  show ?thesis unfolding ok using pages_contained_set [OF True] by simp
next
  case False
  note sp = aligned_spacesD [OF assms(1)]
  have "contained_pages S r p = Inr \<lparr>pr_base = \<lparr>pa_base = Addr (RANGE_start S), pa_page_size = p\<rparr>,
      pr_len = 0\<rparr>"
    using False page_aligned_space.nonempty [OF sp] page_aligned_space.start_dvd [OF sp, of p]
    by (simp add: contained_pages_def page_range_empty_def)
  moreover have "\<not> page_bytes p b \<subseteq> range_bytes r" for b
    using False by (auto simp: page_bytes_def range_bytes_def ivl_subset)
  ultimately show ?thesis by (simp add: pages_of_def)
qed

theorem contained_pages_exact_witness:
  "\<exists>pr. contained_pages UMASpace \<lparr>ar_base = Addr 1, ar_size = 12288\<rparr> Small = Inr pr \<and>
    pages_of pr = {b. 4096 dvd b \<and> page_bytes Small b \<subseteq> {1..<12289}} \<and>
    pa_page_size (pr_base pr) = Small"
  using contained_pages_exact [of UMASpace "\<lparr>ar_base = Addr 1, ar_size = 12288\<rparr>" Small]
  by (simp add: aligned_spaces_def range_in_def range_bytes_def UMASpace_def TiB_def page_usize_def)



text \<open>C34. \<^verbatim>\<open>PageSize::fit\<close> selects the smallest page size that is strictly larger than the padded
  layout: the layout always fits, but a layout that fills a page exactly is sent to the next
  larger size.\<close>

theorem page_fit_smallest_larger:
  assumes "layout_wf l"
  shows "page_fit l = Some p \<longleftrightarrow>
    l_size (pad_to_align l) < page_usize p \<and>
    (\<forall>q. l_size (pad_to_align l) < page_usize q \<longrightarrow> page_usize p \<le> page_usize q)"
  unfolding page_fit_def layout_wf_bit_length [OF assms] fit_scan_Some_iff
    bit_length_le_page_order page_order_le_iff ..

theorem page_fit_smallest_larger_witness:
  "layout_wf \<lparr>l_size = 4096, l_align = 4096\<rparr> \<and>
   page_fit \<lparr>l_size = 4096, l_align = 4096\<rparr> = Some Large"
proof -
  have wf: "layout_wf \<lparr>l_size = 4096, l_align = 4096\<rparr>"
    by (auto simp: layout_wf_def ceil_to_def isize_limit_def intro!: exI [of _ 12])
  show ?thesis
    using wf page_fit_smallest_larger [OF wf, of Large]
    by (simp add: all_page_size pad_to_align_def ceil_to_def page_usize_def)
qed

text \<open>The layout of a page itself never fits that page: a request for a small page is served
  with a large one, and a huge page cannot be requested at all.\<close>

lemma page_layout_eq: "page_layout p = Inr \<lparr>l_size = page_usize p, l_align = page_usize p\<rparr>"
proof -
  have "count_trailing (page_usize p) = page_order p"
    using trailing_zeros_two_power [of "page_order p"]
    by (simp add: trailing_zeros_def page_usize_def)
  moreover have "page_usize p < 2 ^ 63"
    using page_usize_le [of p] by (rule le_less_trans) simp
  ultimately show ?thesis
    by (simp add: page_layout_def layout_from_size_align_def is_power_of_two_def ceil_to_def
        isize_limit_def usize_limit_def) (simp add: page_usize_def)
qed

lemma bit_length_page_usize [simp]: "bit_length (page_usize p) = Suc (page_order p)"
  by (simp add: page_usize_def)

lemma page_fit_of_page_layout:
  "map (\<lambda>p. rbind (page_layout p) (\<lambda>l. Inr (page_fit l))) page_VARIANTS =
     [Inr (Some Large), Inr (Some Huge), Inr None]"
  by (simp add: page_layout_eq page_fit_def page_VARIANTS_def pad_to_align_def ceil_to_def
      leading_zeros_def)

text \<open>C35. The physical memory window is a bijection: every physical address has a virtual address
  in the remap space that translates back to it, and every address of the remap space translates
  to a physical address whose remapped address it is.\<close>

theorem physical_remap_bijection:
  "(RANGE_contains UMASpace p \<longrightarrow>
      (\<exists>v. p2v (Addr p) = Inr v \<and> RANGE_contains PhysicalRemapSpace (usize v) \<and> v2p v = Inr (Addr p))) \<and>
   (RANGE_contains PhysicalRemapSpace v \<longrightarrow>
      (\<exists>a. v2p (Addr v) = Inr a \<and> RANGE_contains UMASpace (usize a) \<and> p2v a = Inr (Addr v)))"
  by (auto simp: p2v_def v2p_def RANGE_contains_def UMASpace_def PhysicalRemapSpace_def TiB_def
      usize_add_def usize_limit_def addr_new_def rassert_def)

theorem physical_remap_bijection_witness:
  "RANGE_contains UMASpace 4096 \<and>
   (\<exists>v. p2v (Addr 4096) = Inr v \<and> RANGE_contains PhysicalRemapSpace (usize v) \<and>
        v2p v = Inr (Addr 4096))"
  using physical_remap_bijection [of 4096 0]
  by (simp add: RANGE_contains_def UMASpace_def TiB_def)

text \<open>Converting an address range to a page range succeeds exactly when base and size are page
  aligned, and converting back gives the original range.\<close>

theorem try_from_range_roundtrip:
  assumes "ar_size r < usize_limit"
  shows "if page_usize p dvd usize (ar_base r) \<and> page_usize p dvd ar_size r
    then \<exists>pr. try_from_range r p = Inr (Some pr) \<and> page_range_into pr = Inr r
    else try_from_range r p = Inr None"
  using assms
  by (auto simp: try_from_range_def is_aligned_to_def page_range_into_def mod_eq_0_iff_dvd)

theorem try_from_range_roundtrip_witness:
  "\<exists>pr. try_from_range \<lparr>ar_base = Addr 8192, ar_size = 12288\<rparr> Small = Inr (Some pr) \<and>
     page_range_into pr = Inr \<lparr>ar_base = Addr 8192, ar_size = 12288\<rparr>"
  using try_from_range_roundtrip [of "\<lparr>ar_base = Addr 8192, ar_size = 12288\<rparr>" Small]
  by (simp add: usize_limit_def page_usize_def)

text \<open>\<^verbatim>\<open>byte_add\<close> checks the wrong end of the space: it leaves the space without a panic.\<close>

lemma byte_add_leaves_space:
  "byte_add UMASpace (Addr (RANGE_end UMASpace - 1)) 1 = Inr (Addr (RANGE_end UMASpace))"
  by (simp add: byte_add_def UMASpace_def TiB_def usize_add_def usize_limit_def)

end
