(* ===== verification/Memblock.thy ===== *)
theory Memblock
  imports Mem_Addr
begin

text \<open>
  The boot-time memory allocator of \<^verbatim>\<open>src/src/mem/phy/memblock.rs\<close>: a sorted array of free blocks,
  built from the memory map of the boot loader, from which memory is handed out by bumping an
  offset in one partial block, and the iterator that cuts a block into power-of-two pieces.

  A \<^verbatim>\<open>MemoryArea\<close> of the \<^verbatim>\<open>multiboot2\<close> crate is represented by what its accessors return, and
  \<^verbatim>\<open>kernel_end_lma()\<close>, which comes from the linker, is an argument.
\<close>

section \<open>Memory blocks\<close>

datatype mem_typ = Free | Reserved

record memblock =
  mb_base :: addr
  mb_size :: nat
  mb_typ :: mem_typ

datatype memory_area_type =
  Available | ReservedArea | AcpiAvailable | ReservedHibernate | Defective | Custom nat

record memory_area =
  start_address :: nat
  area_size :: nat
  area_typ :: memory_area_type

fun mem_typ_of :: "memory_area_type \<Rightarrow> mem_typ" where
  "mem_typ_of Available = Free"
| "mem_typ_of _ = Reserved"

definition memblock_from :: "memory_area \<Rightarrow> memblock res" where
  "memblock_from a =
     rbind (addr_new UMASpace (start_address a)) (\<lambda>b.
     Inr \<lparr>mb_base = b, mb_size = area_size a, mb_typ = mem_typ_of (area_typ a)\<rparr>)"

section \<open>Cutting a block into aligned pieces\<close>

record aligned_split =
  as_memblock :: memblock
  as_offset :: nat
  as_max_order :: nat

text \<open>The block labelled \<^verbatim>\<open>'success\<close>: \<open>None\<close> is a break out of it, with the block as modified so far.\<close>

definition split_success :: "memblock \<Rightarrow> nat \<Rightarrow> (memblock \<times> nat option) res" where
  "split_success self min_order =
     rbind (usize_shl 1 min_order) (\<lambda>min_align.
     case align_ceil UMASpace (mb_base self) min_align of None \<Rightarrow> Inr (self, None)
     | Some b \<Rightarrow>
       let self = self\<lparr>mb_base := b\<rparr> in
       rbind (byte_add UMASpace (mb_base self) (mb_size self)) (\<lambda>e0.
       rbind (align_floor UMASpace e0 min_align) (\<lambda>oe.
       case oe of None \<Rightarrow> Inr (self, None)
       | Some e \<Rightarrow>
         rbind (addr_sub e b) (\<lambda>d.
         Inr (self, usize_try_from d)))))"

definition aligned_split_new :: "memblock \<Rightarrow> nat \<Rightarrow> nat \<Rightarrow> aligned_split res" where
  "aligned_split_new self min_order max_order =
     rbind (split_success self min_order) (\<lambda>(self, sz).
     case sz of
       Some n \<Rightarrow> Inr \<lparr>as_memblock = self\<lparr>mb_size := n\<rparr>, as_offset = 0, as_max_order = max_order\<rparr>
     | None \<Rightarrow> Inr \<lparr>as_memblock = self, as_offset = mb_size self, as_max_order = max_order\<rparr>)"

definition aligned_split_next :: "aligned_split \<Rightarrow> (memblock option \<times> aligned_split) res" where
  "aligned_split_next s =
     (if mb_size (as_memblock s) \<le> as_offset s then Inr (None, s)
      else
        let offset_order = trailing_zeros (as_offset s);
            diff = mb_size (as_memblock s) - as_offset s in
        rbind (usize_sub 64 (leading_zeros diff)) (\<lambda>len.
        rbind (usize_sub len 1) (\<lambda>diff_order.
        let next_order = min (min offset_order diff_order) (as_max_order s) in
        rbind (usize_shl 1 next_order) (\<lambda>next_size.
        rbind (byte_add UMASpace (mb_base (as_memblock s)) (as_offset s)) (\<lambda>b.
        rbind (usize_add (as_offset s) next_size) (\<lambda>off.
        Inr (Some \<lparr>mb_base = b, mb_size = next_size, mb_typ = mb_typ (as_memblock s)\<rparr>,
             s\<lparr>as_offset := off\<rparr>)))))))"

text \<open>The items a \<^verbatim>\<open>for\<close> loop over the iterator sees.\<close>

lemma aligned_split_next_offset:
  assumes "aligned_split_next s = Inr (Some m, s')"
  shows "mb_size (as_memblock s') - as_offset s' < mb_size (as_memblock s) - as_offset s"
proof -
  obtain n where n: "usize_shl 1 n = Inr (as_offset s' - as_offset s)" "as_offset s \<le> as_offset s'"
    "as_memblock s' = as_memblock s" "as_offset s < mb_size (as_memblock s)"
    using assms by (auto simp: aligned_split_next_def res_iffs Let_def usize_add_def split: if_splits)
  then have "n < 64" "as_offset s' - as_offset s = 2 ^ n mod usize_limit"
    by (auto simp: usize_shl_def split: if_splits)
  moreover from this have "(2::nat) ^ n < usize_limit" unfolding usize_limit_def
    by (intro power_strict_increasing) simp_all
  ultimately have "0 < as_offset s' - as_offset s" by simp
  with n(3,4) show ?thesis by simp
qed

function aligned_split_items :: "aligned_split \<Rightarrow> memblock list res" where
  "aligned_split_items s =
     rbind (aligned_split_next s) (\<lambda>(r, s').
     case r of None \<Rightarrow> Inr []
     | Some m \<Rightarrow> rbind (aligned_split_items s') (\<lambda>ms. Inr (m # ms)))"
  by pat_completeness auto
termination
  by (relation "measure (\<lambda>s. mb_size (as_memblock s) - as_offset s)")
    (use aligned_split_next_offset in auto)

declare aligned_split_items.simps [simp del]

section \<open>Sorted arrays of blocks\<close>

definition MEMBLOCKS_LEN :: nat where "MEMBLOCKS_LEN = 128"

text \<open>\<^verbatim>\<open>slice::binary_search\<close> on a sorted slice: the position of an equal element, or where to insert.\<close>

datatype search_result = Found nat | Missing nat

definition binary_search :: "memblock list \<Rightarrow> addr \<Rightarrow> search_result" where
  "binary_search data a =
     (let i = length (takeWhile (\<lambda>b. usize (mb_base b) < usize a) data) in
      if i < length data \<and> mb_base (data ! i) = a then Found i else Missing i)"

definition merges_with :: "memblock \<Rightarrow> memblock \<Rightarrow> bool res" where
  "merges_with lo hi =
     rbind (rassert (usize (mb_base lo) \<le> usize (mb_base hi))) (\<lambda>_.
     rbind (addr_sub (mb_base hi) (mb_base lo)) (\<lambda>d. Inr (usize_of d = mb_size lo)))"

definition insert_merged :: "memblock list \<Rightarrow> memblock \<Rightarrow> nat \<Rightarrow> bool \<Rightarrow> bool \<Rightarrow> memblock list res" where
  "insert_merged data block pivot merge_prev merge_next =
     (if \<not> merge_prev \<and> \<not> merge_next then
        (if MEMBLOCKS_LEN \<le> length data then Inl CapacityExceeded
         else Inr (take pivot data @ block # drop pivot data))
      else if \<not> merge_prev then
        rbind (usize_add (mb_size (data ! pivot)) (mb_size block)) (\<lambda>sz.
        Inr (data[pivot := (data ! pivot)\<lparr>mb_base := mb_base block, mb_size := sz\<rparr>]))
      else if \<not> merge_next then
        rbind (usize_add (mb_size (data ! (pivot - 1))) (mb_size block)) (\<lambda>sz.
        Inr (data[pivot - 1 := (data ! (pivot - 1))\<lparr>mb_size := sz\<rparr>]))
      else
        rbind (usize_add (mb_size (data ! pivot)) (mb_size block)) (\<lambda>sz1.
        rbind (usize_add (mb_size (data ! (pivot - 1))) sz1) (\<lambda>sz.
        let data = data[pivot - 1 := (data ! (pivot - 1))\<lparr>mb_size := sz\<rparr>] in
        Inr (take pivot data @ drop (Suc pivot) data))))"

definition memblocks_insert :: "memblock list \<Rightarrow> memblock \<Rightarrow> (bool \<times> memblock list) res" where
  "memblocks_insert data block =
     (case binary_search data (mb_base block) of
        Found _ \<Rightarrow> Inr (False, data)
      | Missing pivot \<Rightarrow>
          rbind (if 0 < pivot \<and> pivot - 1 < length data then merges_with (data ! (pivot - 1)) block
                 else Inr False) (\<lambda>merge_prev.
          rbind (if pivot < length data then merges_with block (data ! pivot) else Inr False) (\<lambda>merge_next.
          rbind (insert_merged data block pivot merge_prev merge_next) (\<lambda>data'.
          Inr (True, data')))))"

definition memblocks_remove :: "memblock list \<Rightarrow> addr \<Rightarrow> memblock option \<times> memblock list" where
  "memblocks_remove data b =
     (case binary_search data b of
        Found i \<Rightarrow> (Some (data ! i), take i data @ drop (Suc i) data)
      | Missing _ \<Rightarrow> (None, data))"

definition memblocks_pop :: "memblock list \<Rightarrow> memblock option \<times> memblock list" where
  "memblocks_pop data = (if data = [] then (None, []) else (Some (last data), butlast data))"

section \<open>The memblock system\<close>

record memblock_system =
  ms_free_blocks :: "memblock list"
  ms_reserved_blocks :: "memblock list"
  ms_partial_block :: "memblock option"
  ms_offset :: nat
  ms_managed_range :: addr_range
  ms_is_frozen :: bool

text \<open>The loop of \<^verbatim>\<open>init\<close>: the free blocks so far, and the least and greatest address.\<close>

definition init_block ::
  "addr \<Rightarrow> memory_area \<Rightarrow> memblock list \<times> addr \<times> addr \<Rightarrow> (memblock list \<times> addr \<times> addr) res" where
  "init_block kend area st = (case st of (free, lo, hi) \<Rightarrow>
     rbind (memblock_from area) (\<lambda>block.
     if mb_typ block = Reserved then Inr st
     else rbind (byte_add UMASpace (mb_base block) (mb_size block)) (\<lambda>e.
     if usize e < usize kend then Inr st
     else rbind
       (if usize (mb_base block) < usize kend
        then rbind (addr_sub kend (mb_base block)) (\<lambda>d.
             rbind (usize_sub (mb_size block) (usize_of d)) (\<lambda>sz.
             Inr (block\<lparr>mb_size := sz, mb_base := kend\<rparr>)))
        else Inr block) (\<lambda>block.
     if mb_size block = 0 then Inr st
     else rbind (byte_add UMASpace (mb_base block) (mb_size block)) (\<lambda>e.
          rbind (memblocks_insert free block) (\<lambda>(_, free').
          Inr (free', if usize (mb_base block) < usize lo then mb_base block else lo,
               if usize hi < usize e then e else hi)))))))"

definition memblock_system_init :: "addr \<Rightarrow> memory_area list \<Rightarrow> memblock_system res" where
  "memblock_system_init kend areas =
     rbind (addr_new UMASpace (RANGE_end UMASpace - 1)) (\<lambda>lo.
     rbind (addr_new UMASpace (RANGE_start UMASpace)) (\<lambda>hi.
     rbind (rfold (init_block kend) areas ([], lo, hi)) (\<lambda>(free, lo, hi).
     rbind (rassert (usize lo < usize hi)) (\<lambda>_.
     rbind (addr_sub hi lo) (\<lambda>d.
     Inr \<lparr>ms_free_blocks = snd (memblocks_pop free), ms_reserved_blocks = [],
          ms_partial_block = fst (memblocks_pop free), ms_offset = 0,
          ms_managed_range = \<lparr>ar_base = lo, ar_size = usize_of d\<rparr>, ms_is_frozen = False\<rparr>)))))"

definition blocks_left :: "memblock_system \<Rightarrow> nat" where
  "blocks_left s = length (ms_free_blocks s) + (if ms_partial_block s = None then 0 else 1)"

function memblock_reserve :: "layout \<Rightarrow> memblock_system \<Rightarrow> (addr option \<times> memblock_system) res" where
  "memblock_reserve l s =
     rbind (rassert (\<not> ms_is_frozen s)) (\<lambda>_.
     case ms_partial_block s of None \<Rightarrow> Inr (None, s)
     | Some p \<Rightarrow>
       rbind (next_multiple_of (ms_offset s) (l_align l)) (\<lambda>base.
       rbind (usize_add base (l_size l)) (\<lambda>off.
       if mb_size p < off then
         rbind (memblocks_insert (ms_reserved_blocks s) p) (\<lambda>(_, res).
         memblock_reserve l (s\<lparr>ms_reserved_blocks := res,
           ms_partial_block := fst (memblocks_pop (ms_free_blocks s)),
           ms_free_blocks := snd (memblocks_pop (ms_free_blocks s)), ms_offset := 0\<rparr>))
       else rbind (addr_new UMASpace base) (\<lambda>a. Inr (Some a, s\<lparr>ms_offset := off\<rparr>)))))"
  by pat_completeness auto
termination
  by (relation "measure (\<lambda>(l, s). blocks_left s)")
    (auto simp: blocks_left_def memblocks_pop_def)

declare memblock_reserve.simps [simp del]

definition memblock_freeze :: "memblock_system \<Rightarrow> memblock_system res" where
  "memblock_freeze s =
     rbind (rassert (\<not> ms_is_frozen s)) (\<lambda>_.
     case ms_partial_block s of None \<Rightarrow> Inr s
     | Some p \<Rightarrow>
       rbind (if ms_offset s = 0 then memblocks_insert (ms_free_blocks s) p
              else Inr (True, ms_free_blocks s)) (\<lambda>(_, free).
       rbind (byte_add UMASpace (mb_base p) (ms_offset s)) (\<lambda>free_base.
       rbind (usize_sub (mb_size p) (ms_offset s)) (\<lambda>free_size.
       rbind (memblocks_insert free \<lparr>mb_base = free_base, mb_size = free_size, mb_typ = Free\<rparr>) (\<lambda>(_, free').
       rbind (memblocks_insert (ms_reserved_blocks s)
                \<lparr>mb_base = mb_base p, mb_size = ms_offset s, mb_typ = Reserved\<rparr>) (\<lambda>(_, res).
       Inr (s\<lparr>ms_partial_block := None, ms_free_blocks := free', ms_reserved_blocks := res\<rparr>)))))))"

section \<open>Sorted arrays: specification\<close>

definition mb_end :: "memblock \<Rightarrow> nat" where
  "mb_end b = usize (mb_base b) + mb_size b"

definition mb_bytes :: "memblock \<Rightarrow> nat set" where
  "mb_bytes b = {usize (mb_base b) ..< mb_end b}"

definition blocks_bytes :: "memblock list \<Rightarrow> nat set" where
  "blocks_bytes bs = \<Union> (mb_bytes ` set bs)"

definition block_ok :: "memblock \<Rightarrow> bool" where
  "block_ok b \<longleftrightarrow> 0 < mb_size b \<and> mb_end b \<le> RANGE_end UMASpace"

text \<open>Sorted, in the physical address space, with a gap between neighbours.\<close>

definition blocks_ok :: "memblock list \<Rightarrow> bool" where
  "blocks_ok bs \<longleftrightarrow> sorted_wrt (\<lambda>a b. mb_end a < usize (mb_base b)) bs \<and> (\<forall>b \<in> set bs. block_ok b)"

lemma uma_end: "RANGE_end UMASpace = 2 ^ 46"
  by (simp add: UMASpace_def TiB_def)

lemma uma_start [simp]: "RANGE_start UMASpace = 0"
  by (simp add: UMASpace_def)

lemma uma_limits: "RANGE_end UMASpace < usize_limit" "int (RANGE_end UMASpace) < isize_limit"
  by (simp_all add: uma_end usize_limit_def isize_limit_def)

lemma uma_addr_sub:
  assumes "usize a \<le> usize b" "usize b \<le> RANGE_end UMASpace"
  shows "addr_sub b a = Inr (int (usize b - usize a))" "usize_of (int (usize b - usize a)) = usize b - usize a"
proof -
  have "same_half (usize b) (usize a)"
    using assms uma_limits by (auto simp: same_half_def)
  then show "addr_sub b a = Inr (int (usize b - usize a))"
    using assms by (simp add: addr_sub_same_half)
  show "usize_of (int (usize b - usize a)) = usize b - usize a"
    using assms uma_limits(1) by (intro usize_of_nat) simp
qed

lemma uma_byte_add: "usize a + n \<le> RANGE_end UMASpace \<Longrightarrow> byte_add UMASpace a n = Inr (Addr (usize a + n))"
  using uma_limits(1) by simp

lemma merges_with_ok:
  assumes "usize (mb_base lo) \<le> usize (mb_base hi)" "usize (mb_base hi) \<le> RANGE_end UMASpace"
  shows "merges_with lo hi = Inr (mb_end lo = usize (mb_base hi))"
  using uma_addr_sub [OF assms] assms(1) by (auto simp: merges_with_def mb_end_def)

lemma takeWhile_split:
  "\<forall>x \<in> set lo. P x \<Longrightarrow> (\<And>x xs. hi = x # xs \<Longrightarrow> \<not> P x) \<Longrightarrow> takeWhile P (lo @ hi) = lo"
  by (cases hi) (auto simp: takeWhile_append)

text \<open>What insertion computes once the position is known.\<close>

lemma binary_search_split:
  assumes "\<forall>b \<in> set lo. usize (mb_base b) < usize a" "\<And>n hi'. hi = n # hi' \<Longrightarrow> usize a < usize (mb_base n)"
  shows "binary_search (lo @ hi) a = Missing (length lo)"
proof -
  have tw: "takeWhile (\<lambda>b. usize (mb_base b) < usize a) (lo @ hi) = lo"
    using assms by (intro takeWhile_split) (auto dest: order.strict_trans)
  show ?thesis
    unfolding binary_search_def tw Let_def using assms(2) by (cases hi) (auto simp: nth_append)
qed

fun glue_prev :: "memblock list \<Rightarrow> memblock \<Rightarrow> memblock list" where
  "glue_prev lo b = (if lo \<noteq> [] \<and> mb_end (last lo) = usize (mb_base b)
     then butlast lo @ [(last lo)\<lparr>mb_size := mb_size (last lo) + mb_size b\<rparr>] else lo @ [b])"

fun glue :: "memblock list \<Rightarrow> memblock \<Rightarrow> memblock list \<Rightarrow> memblock list" where
  "glue lo b [] = glue_prev lo b"
| "glue lo b (n # hi) =
     (if mb_end b = usize (mb_base n)
      then (if lo \<noteq> [] \<and> mb_end (last lo) = usize (mb_base b)
            then butlast lo @ (last lo)\<lparr>mb_size := mb_size (last lo) + (mb_size n + mb_size b)\<rparr> # hi
            else lo @ n\<lparr>mb_base := mb_base b, mb_size := mb_size n + mb_size b\<rparr> # hi)
      else glue_prev lo b @ n # hi)"

lemma insert_merged_ok:
  assumes ok: "blocks_ok (lo @ hi)" "block_ok b" and cap: "length (lo @ hi) < MEMBLOCKS_LEN"
    and lo: "lo \<noteq> [] \<Longrightarrow> mb_end (last lo) \<le> usize (mb_base b)"
    and hi: "hi \<noteq> [] \<Longrightarrow> mb_end b \<le> usize (mb_base (hd hi))"
  shows "insert_merged (lo @ hi) b (length lo) (lo \<noteq> [] \<and> mb_end (last lo) = usize (mb_base b))
      (hi \<noteq> [] \<and> mb_end b = usize (mb_base (hd hi))) = Inr (glue lo b hi)"
proof -
  have sz: "mb_size x \<le> RANGE_end UMASpace" if "block_ok x" for x
    using that by (simp add: block_ok_def mb_end_def)
  have lim: "3 * RANGE_end UMASpace < usize_limit" by (simp add: uma_end usize_limit_def)
  have "block_ok x" if "x \<in> set (lo @ hi)" for x using ok that by (auto simp: blocks_ok_def)
  then have "lo \<noteq> [] \<Longrightarrow> mb_size (last lo) \<le> RANGE_end UMASpace"
    "hi \<noteq> [] \<Longrightarrow> mb_size (hd hi) \<le> RANGE_end UMASpace" using sz by auto
  note sizes = this sz [OF ok(2)] lim
  show ?thesis
  proof (cases lo rule: rev_cases)
    case Nil
    with cap sizes show ?thesis by (cases hi) (auto simp: insert_merged_def)
  next
    case (snoc lo' p)
    with cap sizes show ?thesis
      by (cases hi) (auto simp: insert_merged_def nth_append list_update_append)
  qed
qed

lemma glue_bytes:
  assumes "lo \<noteq> [] \<Longrightarrow> mb_end (last lo) \<le> usize (mb_base b)"
    and "hi \<noteq> [] \<Longrightarrow> mb_end b \<le> usize (mb_base (hd hi))"
  shows "blocks_bytes (glue lo b hi) = blocks_bytes (lo @ hi) \<union> mb_bytes b"
proof (cases lo rule: rev_cases)
  case Nil
  with assms show ?thesis
    by (cases hi) (auto simp: blocks_bytes_def mb_bytes_def mb_end_def)
next
  case (snoc lo' p)
  with assms show ?thesis
    by (cases hi) (auto simp: blocks_bytes_def mb_bytes_def mb_end_def)
qed

lemma glue_ok:
  assumes "blocks_ok (lo @ hi)" "block_ok b"
    and "lo \<noteq> [] \<Longrightarrow> mb_end (last lo) \<le> usize (mb_base b)"
    and "hi \<noteq> [] \<Longrightarrow> mb_end b \<le> usize (mb_base (hd hi))"
  shows "blocks_ok (glue lo b hi)" "length (glue lo b hi) \<le> Suc (length (lo @ hi))"
proof -
  have "blocks_ok (glue lo b hi) \<and> length (glue lo b hi) \<le> Suc (length (lo @ hi))"
  proof (cases lo rule: rev_cases)
    case Nil
    with assms show ?thesis
      by (cases hi) (fastforce simp: blocks_ok_def block_ok_def mb_end_def)+
  next
    case (snoc lo' p)
    with assms show ?thesis
      by (cases hi) (fastforce simp: blocks_ok_def block_ok_def mb_end_def sorted_wrt_append)+
  qed
  then show "blocks_ok (glue lo b hi)" "length (glue lo b hi) \<le> Suc (length (lo @ hi))" by auto
qed

lemma split_around:
  assumes ok: "blocks_ok bs" "block_ok b" and disj: "mb_bytes b \<inter> blocks_bytes bs = {}"
  shows "\<exists>lo hi. bs = lo @ hi \<and> (\<forall>x \<in> set lo. usize (mb_base x) < usize (mb_base b)) \<and>
    (lo \<noteq> [] \<longrightarrow> mb_end (last lo) \<le> usize (mb_base b)) \<and>
    (hi \<noteq> [] \<longrightarrow> mb_end b \<le> usize (mb_base (hd hi)))"
proof -
  let ?P = "\<lambda>x. usize (mb_base x) < usize (mb_base b)"
  have d: "if ?P x then mb_end x \<le> usize (mb_base b) else mb_end b \<le> usize (mb_base x)"
    if "x \<in> set bs" for x
  proof -
    have "mb_bytes b \<inter> mb_bytes x = {}" using disj that by (auto simp: blocks_bytes_def)
    moreover have "0 < mb_size x" "0 < mb_size b" using ok that by (auto simp: blocks_ok_def block_ok_def)
    ultimately show ?thesis by (auto simp: mb_bytes_def mb_end_def)
  qed
  have "mb_end (last (takeWhile ?P bs)) \<le> usize (mb_base b)" if "takeWhile ?P bs \<noteq> []"
    using d [of "last (takeWhile ?P bs)"] set_takeWhileD [OF last_in_set [OF that]] by simp
  moreover have "mb_end b \<le> usize (mb_base (hd (dropWhile ?P bs)))" if "dropWhile ?P bs \<noteq> []"
    using d [of "hd (dropWhile ?P bs)"] hd_dropWhile [OF that] set_dropWhileD [OF hd_in_set [OF that]]
    by simp
  ultimately show ?thesis
    by (intro exI [of _ "takeWhile ?P bs"] exI [of _ "dropWhile ?P bs"]) (auto dest: set_takeWhileD)
qed

lemma memblocks_insert_ok:
  assumes ok: "blocks_ok bs" "block_ok b" and disj: "mb_bytes b \<inter> blocks_bytes bs = {}"
    and cap: "length bs < MEMBLOCKS_LEN"
  shows "\<exists>bs'. memblocks_insert bs b = Inr (True, bs') \<and> blocks_ok bs' \<and>
    blocks_bytes bs' = blocks_bytes bs \<union> mb_bytes b \<and> length bs' \<le> Suc (length bs)"
proof -
  obtain lo hi where bs: "bs = lo @ hi" and lo: "\<forall>x \<in> set lo. usize (mb_base x) < usize (mb_base b)"
    and le: "lo \<noteq> [] \<Longrightarrow> mb_end (last lo) \<le> usize (mb_base b)"
      "hi \<noteq> [] \<Longrightarrow> mb_end b \<le> usize (mb_base (hd hi))"
    using split_around [OF ok disj] by blast
  have hi: "usize (mb_base b) < usize (mb_base n)" if "hi = n # hi'" for n hi'
    using le(2) that ok(2) by (simp add: mb_end_def block_ok_def)
  have base: "usize (mb_base x) \<le> RANGE_end UMASpace" if "block_ok x" for x
    using that by (simp add: block_ok_def mb_end_def)
  have hd_ok: "block_ok (hd hi)" if "hi \<noteq> []" using ok(1) bs that by (auto simp: blocks_ok_def)
  have prev: "(if 0 < length lo \<and> length lo - 1 < length (lo @ hi)
      then merges_with ((lo @ hi) ! (length lo - 1)) b else Inr False) =
      Inr (lo \<noteq> [] \<and> mb_end (last lo) = usize (mb_base b))"
    using lo base [OF ok(2)] by (cases lo rule: rev_cases) (auto simp: nth_append merges_with_ok)
  have next': "(if length lo < length (lo @ hi) then merges_with b ((lo @ hi) ! length lo) else Inr False) =
      Inr (hi \<noteq> [] \<and> mb_end b = usize (mb_base (hd hi)))"
    using hi hd_ok base by (cases hi) (auto simp: merges_with_ok)
  have bin: "binary_search (lo @ hi) (mb_base b) = Missing (length lo)"
    using hi by (intro binary_search_split lo)
  have ins: "insert_merged (lo @ hi) b (length lo) (lo \<noteq> [] \<and> mb_end (last lo) = usize (mb_base b))
      (hi \<noteq> [] \<and> mb_end b = usize (mb_base (hd hi))) = Inr (glue lo b hi)"
    using ok cap le bs by (intro insert_merged_ok) simp_all
  have "memblocks_insert bs b = Inr (True, glue lo b hi)"
    by (simp only: memblocks_insert_def bs bin search_result.case prev next' ins rbind_Inr)
  with glue_ok [OF ok(1) [unfolded bs] ok(2) le] glue_bytes [OF le] bs show ?thesis by simp
qed

section \<open>Building the array of free blocks\<close>

text \<open>The bytes of an area that the system may hand out: those of available memory from the end of
  the kernel on.\<close>

definition usable :: "addr \<Rightarrow> memory_area \<Rightarrow> nat set" where
  "usable kend a = (if area_typ a = Available
     then {start_address a ..< start_address a + area_size a} \<inter> {usize kend ..} else {})"

definition area_ok :: "memory_area \<Rightarrow> bool" where
  "area_ok a \<longleftrightarrow> start_address a < RANGE_end UMASpace \<and>
     start_address a + area_size a \<le> RANGE_end UMASpace"

lemma mem_typ_of_Free [simp]: "mem_typ_of t = Reserved \<longleftrightarrow> t \<noteq> Available"
  by (cases t) simp_all

text \<open>The block that one iteration of the loop adds, if any.\<close>

definition clipped :: "addr \<Rightarrow> memory_area \<Rightarrow> memblock" where
  "clipped kend a = (let s = max (start_address a) (usize kend) in
     \<lparr>mb_base = Addr s, mb_size = start_address a + area_size a - s, mb_typ = Free\<rparr>)"

lemma clipped_bytes:
  "area_typ a = Available \<Longrightarrow> mb_bytes (clipped kend a) = usable kend a"
  by (auto simp: clipped_def usable_def mb_bytes_def mb_end_def Let_def)

definition lower :: "addr \<Rightarrow> addr \<Rightarrow> addr" where
  "lower a b = (if usize b < usize a then b else a)"

definition upper :: "addr \<Rightarrow> addr \<Rightarrow> addr" where
  "upper a b = (if usize a < usize b then b else a)"

lemma init_block_eq:
  assumes "area_ok a" "usize kend \<le> RANGE_end UMASpace"
  shows "init_block kend a (free, lo, hi) =
    (if usable kend a = {} then Inr (free, lo, hi)
     else rbind (memblocks_insert free (clipped kend a)) (\<lambda>(_, free').
       Inr (free', lower lo (mb_base (clipped kend a)), upper hi (Addr (mb_end (clipped kend a))))))"
proof (cases "area_typ a = Available")
  case False
  then show ?thesis using assms by (simp add: init_block_def memblock_from_def area_ok_def usable_def)
next
  case True
  let ?s = "start_address a" and ?e = "start_address a + area_size a"
  have "addr_new UMASpace ?s = Inr (Addr ?s)" using assms by (simp add: area_ok_def)
  moreover have "byte_add UMASpace (Addr ?s) (area_size a) = Inr (Addr ?e)"
    using assms uma_byte_add [of "Addr ?s" "area_size a"] by (simp add: area_ok_def)
  ultimately have step: "init_block kend a (free, lo, hi) =
    (if ?e < usize kend then Inr (free, lo, hi)
     else rbind (if ?s < usize kend
        then rbind (addr_sub kend (Addr ?s)) (\<lambda>d. rbind (usize_sub (area_size a) (usize_of d)) (\<lambda>sz.
             Inr \<lparr>mb_base = kend, mb_size = sz, mb_typ = Free\<rparr>))
        else Inr \<lparr>mb_base = Addr ?s, mb_size = area_size a, mb_typ = Free\<rparr>) (\<lambda>block.
     if mb_size block = 0 then Inr (free, lo, hi)
     else rbind (byte_add UMASpace (mb_base block) (mb_size block)) (\<lambda>e.
          rbind (memblocks_insert free block) (\<lambda>(_, free').
          Inr (free', lower lo (mb_base block), upper hi e)))))"
    using True by (simp add: init_block_def memblock_from_def lower_def upper_def cong: if_cong)
  show ?thesis
  proof (cases "?e < usize kend")
    case True
    then have "usable kend a = {}" by (auto simp: usable_def)
    with True step show ?thesis by simp
  next
    case False
    have cl: "(if ?s < usize kend
        then rbind (addr_sub kend (Addr ?s)) (\<lambda>d. rbind (usize_sub (area_size a) (usize_of d)) (\<lambda>sz.
             Inr \<lparr>mb_base = kend, mb_size = sz, mb_typ = Free\<rparr>))
        else Inr \<lparr>mb_base = Addr ?s, mb_size = area_size a, mb_typ = Free\<rparr>) = Inr (clipped kend a)"
      using False assms(2) uma_addr_sub [of "Addr ?s" kend]
      by (auto simp: clipped_def Let_def max_def)
    have "mb_end (clipped kend a) = ?e" "?e \<le> RANGE_end UMASpace"
      using False assms by (auto simp: clipped_def mb_end_def Let_def area_ok_def)
    then have "byte_add UMASpace (mb_base (clipped kend a)) (mb_size (clipped kend a)) = Inr (Addr ?e)"
      using uma_byte_add [of "mb_base (clipped kend a)" "mb_size (clipped kend a)"]
      by (simp add: mb_end_def)
    moreover have "mb_size (clipped kend a) = 0 \<longleftrightarrow> usable kend a = {}"
      using clipped_bytes [OF True, of kend, symmetric] by (auto simp: mb_bytes_def mb_end_def)
    ultimately show ?thesis
      using step False cl \<open>mb_end (clipped kend a) = ?e\<close> by simp
  qed
qed

text \<open>The least and greatest address seen so far.\<close>

definition hull :: "addr \<Rightarrow> addr \<Rightarrow> nat set \<Rightarrow> bool" where
  "hull lo hi X \<longleftrightarrow> (if X = {} then usize lo = RANGE_end UMASpace - 1 \<and> usize hi = 0
     else usize lo \<in> X \<and> usize hi - 1 \<in> X \<and> 0 < usize hi \<and> X \<subseteq> {usize lo ..< usize hi})"

lemma hull_extend:
  assumes "hull lo hi X" "s < e" "e \<le> RANGE_end UMASpace"
  shows "hull (lower lo (Addr s)) (upper hi (Addr e)) (X \<union> {s ..< e})"
proof -
  have ne: "X \<union> {s ..< e} \<noteq> {}" using assms(2) by auto
  have "s \<le> RANGE_end UMASpace - 1" "0 < e" using assms by simp_all
  then show ?thesis
    using assms ne unfolding hull_def if_not_P [OF ne]
    by (cases "X = {}") (auto simp: lower_def upper_def)
qed

lemma hull_Min_Max:
  assumes "hull lo hi X" "X \<noteq> {}"
  shows "Min X = usize lo" "Max X = usize hi - 1" "usize lo < usize hi" "0 < usize hi"
proof -
  have h: "usize lo \<in> X" "usize hi - 1 \<in> X" "0 < usize hi" "X \<subseteq> {usize lo ..< usize hi}"
    using assms by (simp_all add: hull_def)
  have fin: "finite X" using h(4) by (rule finite_subset) simp
  have bd: "usize lo \<le> x \<and> x \<le> usize hi - 1" if "x \<in> X" for x using h(4) that by fastforce
  show "Min X = usize lo" using fin h(1) bd by (intro Min_eqI) simp_all
  show "Max X = usize hi - 1" using fin h(2) bd by (intro Max_eqI) simp_all
  show "usize lo < usize hi" using bd [OF h(1)] h(3) by linarith
  show "0 < usize hi" by (rule h(3))
qed

lemma blocks_bytes_below: "blocks_ok bs \<Longrightarrow> x \<in> blocks_bytes bs \<Longrightarrow> x < RANGE_end UMASpace"
  by (force simp: blocks_ok_def blocks_bytes_def block_ok_def mb_bytes_def)

lemma init_fold_ok:
  assumes "\<forall>a \<in> set areas. area_ok a" "usize kend \<le> RANGE_end UMASpace"
    "sorted_wrt (\<lambda>a b. usable kend a \<inter> usable kend b = {}) areas"
    "\<forall>a \<in> set areas. usable kend a \<inter> blocks_bytes free = {}"
    "blocks_ok free" "length free + length areas \<le> MEMBLOCKS_LEN" "hull lo hi (blocks_bytes free)"
  shows "\<exists>free' lo' hi'. rfold (init_block kend) areas (free, lo, hi) = Inr (free', lo', hi') \<and>
    blocks_ok free' \<and> blocks_bytes free' = blocks_bytes free \<union> \<Union> (usable kend ` set areas) \<and>
    hull lo' hi' (blocks_bytes free') \<and> length free' \<le> length free + length areas"
  using assms
proof (induction areas arbitrary: free lo hi)
  case Nil
  then show ?case by simp
next
  case (Cons a areas)
  have a: "area_ok a" using Cons.prems by simp
  show ?case
  proof (cases "usable kend a = {}")
    case True
    with Cons.IH [of free lo hi] Cons.prems init_block_eq [OF a Cons.prems(2)] show ?thesis
      by simp (meson le_SucI)
  next
    case False
    let ?b = "clipped kend a"
    have "area_typ a = Available" using False by (auto simp: usable_def split: if_splits)
    then have bytes: "mb_bytes ?b = usable kend a" by (rule clipped_bytes)
    have end': "mb_end ?b \<le> RANGE_end UMASpace"
      using a Cons.prems(2) by (auto simp: clipped_def mb_end_def area_ok_def Let_def)
    have pos: "usize (mb_base ?b) < mb_end ?b" using False bytes by (auto simp: mb_bytes_def)
    then have ok: "block_ok ?b" using end' by (simp add: block_ok_def mb_end_def)
    obtain free1 where f1: "memblocks_insert free ?b = Inr (True, free1)" "blocks_ok free1"
      "blocks_bytes free1 = blocks_bytes free \<union> usable kend a" "length free1 \<le> Suc (length free)"
      using memblocks_insert_ok [OF Cons.prems(5) ok] Cons.prems(4,6) bytes by auto
    have step: "init_block kend a (free, lo, hi) =
        Inr (free1, lower lo (mb_base ?b), upper hi (Addr (mb_end ?b)))"
      using init_block_eq [OF a Cons.prems(2)] False f1(1) by simp
    have "hull (lower lo (mb_base ?b)) (upper hi (Addr (mb_end ?b))) (blocks_bytes free1)"
      using hull_extend [OF Cons.prems(7) pos end'] bytes f1(3) by (simp add: mb_bytes_def)
    moreover have "\<forall>x \<in> set areas. usable kend x \<inter> blocks_bytes free1 = {}"
      using Cons.prems(3,4) f1(3) by auto
    ultimately obtain free' lo' hi' where
      "rfold (init_block kend) areas (free1, lower lo (mb_base ?b), upper hi (Addr (mb_end ?b))) = Inr (free', lo', hi')"
      "blocks_ok free'" "blocks_bytes free' = blocks_bytes free1 \<union> \<Union> (usable kend ` set areas)"
      "hull lo' hi' (blocks_bytes free')" "length free' \<le> length free1 + length areas"
      using Cons.IH [OF _ _ _ _ f1(2), of "lower lo (mb_base ?b)" "upper hi (Addr (mb_end ?b))"] Cons.prems f1(4) by auto
    then show ?thesis using f1(3,4) step by (auto simp: Un_assoc)
  qed
qed

section \<open>Aligned pieces\<close>

text \<open>Consecutive pieces from one address to another.\<close>

fun tiles :: "nat \<Rightarrow> memblock list \<Rightarrow> nat \<Rightarrow> bool" where
  "tiles a [] e \<longleftrightarrow> a = e"
| "tiles a (m # ms) e \<longleftrightarrow> usize (mb_base m) = a \<and> tiles (a + mb_size m) ms e"

definition piece_ok :: "nat \<Rightarrow> nat \<Rightarrow> nat \<Rightarrow> memblock \<Rightarrow> bool" where
  "piece_ok b min_order max_order m \<longleftrightarrow> (\<exists>k. min_order \<le> k \<and> k \<le> max_order \<and> mb_size m = 2 ^ k \<and>
     b \<le> usize (mb_base m) \<and> 2 ^ k dvd usize (mb_base m) - b)"

lemma leading_zeros_width: "n < usize_limit \<Longrightarrow> usize_sub 64 (leading_zeros n) = Inr (bit_length n)"
proof -
  assume "n < usize_limit"
  then have "bit_length n \<le> 64" by (simp add: bit_length_le_iff usize_limit_def)
  then show ?thesis by (simp add: leading_zeros_def)
qed

lemma trailing_zeros_ge:
  assumes "2 ^ k dvd n" "k < 64"
  shows "k \<le> trailing_zeros n"
  using assms two_power_dvd_iff [of n k] by (cases "n = 0") (auto simp: trailing_zeros_def)

text \<open>One step of the iterator, at an offset which is a multiple of the smallest piece.\<close>

lemma aligned_split_next_ok:
  assumes lt: "as_offset s < mb_size (as_memblock s)" and ok: "mb_end (as_memblock s) \<le> RANGE_end UMASpace"
    and dvd: "2 ^ lo dvd as_offset s" "2 ^ lo dvd mb_size (as_memblock s)"
    and ord: "lo \<le> as_max_order s" "as_max_order s < 64"
  shows "\<exists>k. lo \<le> k \<and> k \<le> as_max_order s \<and> 2 ^ k dvd as_offset s \<and>
    as_offset s + 2 ^ k \<le> mb_size (as_memblock s) \<and>
    aligned_split_next s = Inr (Some \<lparr>mb_base = Addr (usize (mb_base (as_memblock s)) + as_offset s),
      mb_size = 2 ^ k, mb_typ = mb_typ (as_memblock s)\<rparr>, s\<lparr>as_offset := as_offset s + 2 ^ k\<rparr>)"
proof -
  let ?o = "as_offset s" and ?m = "as_memblock s"
  define diff where "diff = mb_size ?m - ?o"
  define k where "k = min (min (trailing_zeros ?o) (bit_length diff - 1)) (as_max_order s)"
  have lims: "mb_size ?m \<le> RANGE_end UMASpace" "?o < usize_limit" "diff < usize_limit" "0 < diff"
    using lt ok uma_limits(1) by (auto simp: mb_end_def diff_def)
  have "2 ^ lo dvd diff" unfolding diff_def using dvd by (simp add: dvd_diff_nat)
  then have "2 ^ lo \<le> diff" using lims(4) by (simp add: dvd_imp_le)
  then have "\<not> bit_length diff \<le> lo" by (simp add: bit_length_le_iff)
  moreover have "lo \<le> trailing_zeros ?o" using dvd(1) ord by (intro trailing_zeros_ge) simp_all
  ultimately have lo: "lo \<le> k" "1 \<le> bit_length diff" using ord(1) by (simp_all add: k_def)
  have "(2::nat) ^ k \<le> 2 ^ (bit_length diff - 1)" by (simp add: k_def)
  also have "\<dots> \<le> diff" using lims(4) by (rule two_power_bit_length_le)
  finally have fits: "?o + 2 ^ k \<le> mb_size ?m" using lt by (simp add: diff_def)
  have "(2::nat) ^ k dvd 2 ^ trailing_zeros ?o" by (simp add: k_def le_imp_power_dvd)
  then have kdvd: "2 ^ k dvd ?o" using trailing_zeros_dvd [OF lims(2)] by (rule dvd_trans)
  have ba: "byte_add UMASpace (mb_base ?m) ?o = Inr (Addr (usize (mb_base ?m) + ?o))"
    using lt ok by (intro uma_byte_add) (simp add: mb_end_def)
  have km: "k \<le> as_max_order s" "k < 64" using ord(2) by (simp_all add: k_def)
  have le: "?o + 2 ^ k < usize_limit" "2 ^ k < usize_limit"
    using fits lims(1) uma_limits(1) by linarith+
  then have sh: "usize_shl 1 k = Inr (2 ^ k)" "usize_add ?o (2 ^ k) = Inr (?o + 2 ^ k)"
    using km(2) by simp_all
  have sub: "usize_sub (bit_length diff) 1 = Inr (bit_length diff - 1)" using lo(2) by simp
  have "aligned_split_next s = Inr (Some \<lparr>mb_base = Addr (usize (mb_base ?m) + ?o), mb_size = 2 ^ k,
      mb_typ = mb_typ ?m\<rparr>, s\<lparr>as_offset := ?o + 2 ^ k\<rparr>)"
    unfolding aligned_split_next_def Let_def diff_def [symmetric] leading_zeros_width [OF lims(3)]
      rbind_Inr sub k_def [symmetric] sh ba using lt by simp
  then show ?thesis using lo(1) km(1) kdvd fits by blast
qed

lemma aligned_split_items_ok:
  assumes "as_offset s \<le> mb_size (as_memblock s)" "mb_end (as_memblock s) \<le> RANGE_end UMASpace"
    "2 ^ lo dvd as_offset s" "2 ^ lo dvd mb_size (as_memblock s)" "lo \<le> as_max_order s" "as_max_order s < 64"
  shows "\<exists>ms. aligned_split_items s = Inr ms \<and>
    tiles (usize (mb_base (as_memblock s)) + as_offset s) ms (mb_end (as_memblock s)) \<and>
    (\<forall>m \<in> set ms. piece_ok (usize (mb_base (as_memblock s))) lo (as_max_order s) m)"
  using assms
proof (induction "mb_size (as_memblock s) - as_offset s" arbitrary: s rule: less_induct)
  case less
  show ?case
  proof (cases "as_offset s = mb_size (as_memblock s)")
    case True
    then show ?thesis
      by (subst aligned_split_items.simps) (simp add: aligned_split_next_def mb_end_def)
  next
    case False
    with less.prems have lt: "as_offset s < mb_size (as_memblock s)" by simp
    obtain k where k: "lo \<le> k" "k \<le> as_max_order s" "2 ^ k dvd as_offset s"
      "as_offset s + 2 ^ k \<le> mb_size (as_memblock s)"
      and nxt: "aligned_split_next s = Inr (Some \<lparr>mb_base = Addr (usize (mb_base (as_memblock s)) + as_offset s),
        mb_size = 2 ^ k, mb_typ = mb_typ (as_memblock s)\<rparr>, s\<lparr>as_offset := as_offset s + 2 ^ k\<rparr>)"
      using aligned_split_next_ok [OF lt less.prems(2-)] by blast
    let ?s = "s\<lparr>as_offset := as_offset s + 2 ^ k\<rparr>"
    have "2 ^ lo dvd as_offset s + 2 ^ k" using less.prems(3) k(1) by (simp add: le_imp_power_dvd)
    moreover have "mb_size (as_memblock s) - (as_offset s + 2 ^ k) < mb_size (as_memblock s) - as_offset s"
      using lt by (intro diff_less_mono2) simp_all
    ultimately obtain ms where ms: "aligned_split_items ?s = Inr ms"
      "tiles (usize (mb_base (as_memblock s)) + (as_offset s + 2 ^ k)) ms (mb_end (as_memblock s))"
      "\<forall>m \<in> set ms. piece_ok (usize (mb_base (as_memblock s))) lo (as_max_order s) m"
      using less.hyps [of ?s] less.prems k(4) by auto
    have "aligned_split_items s = Inr (\<lparr>mb_base = Addr (usize (mb_base (as_memblock s)) + as_offset s),
        mb_size = 2 ^ k, mb_typ = mb_typ (as_memblock s)\<rparr> # ms)"
      using nxt ms(1) by (subst aligned_split_items.simps) simp
    with ms(2,3) k show ?thesis by (auto simp: piece_ok_def add.assoc)
  qed
qed

text \<open>Where the pieces of a block start.\<close>

lemma split_success_ok:
  assumes ok: "mb_end m < RANGE_end UMASpace" and al: "2 ^ lo dvd mb_end m" "lo < 46"
  shows "split_success m lo = Inr (m\<lparr>mb_base := Addr (ceil_to (usize (mb_base m)) (2 ^ lo))\<rparr>,
    Some (mb_end m - ceil_to (usize (mb_base m)) (2 ^ lo)))"
    "ceil_to (usize (mb_base m)) (2 ^ lo) \<le> mb_end m"
proof -
  let ?A = "2 ^ lo :: nat" and ?b = "usize (mb_base m)"
  define c where "c = ceil_to ?b ?A"
  have A: "0 < ?A" "?A < RANGE_end UMASpace"
    using power_strict_increasing [of lo 46 "2::nat"] al(2) by (simp_all add: uma_end)
  have c: "?b \<le> c" "c < ?b + ?A" "c \<le> mb_end m"
    unfolding c_def using ceil_to_ge ceil_to_less [OF A(1)] ceil_to_least [OF A(1) al(1), of ?b]
    by (simp_all add: mb_end_def)
  then show "ceil_to ?b ?A \<le> mb_end m" by (simp add: c_def)
  have lim: "2 * RANGE_end UMASpace < usize_limit" by (simp add: uma_end usize_limit_def)
  have "?b < usize_limit" "c < usize_limit" "c < RANGE_end UMASpace" using c ok lim by linarith+
  then have "align_ceil UMASpace (mb_base m) ?A = Some (Addr c)"
    using checked_next_multiple_of_eq [OF A(1), of ?b] by (simp add: align_ceil_def c_def)
  moreover have "usize_shl 1 lo = Inr ?A" using A lim al(2) by simp
  moreover have "c + mb_size m < usize_limit" using c(2) A(2) ok lim by (simp add: mb_end_def)
  moreover have "align_floor UMASpace (Addr (c + mb_size m)) ?A = Inr (Some (Addr (mb_end m)))"
  proof -
    have e: "c + mb_size m = mb_end m + (c - ?b)" using c(1) by (simp add: mb_end_def)
    have "(c - ?b) mod ?A = c - ?b" using c(1,2) by (intro mod_less) linarith
    moreover obtain q where "mb_end m = ?A * q" using al(1) by (auto elim: dvdE)
    ultimately have "(c + mb_size m) mod ?A = c - ?b" unfolding e by simp
    then show ?thesis using c(1) by (simp add: align_floor_def e)
  qed
  moreover have "addr_sub (Addr (mb_end m)) (Addr c) = Inr (int (mb_end m - c))"
    using uma_addr_sub(1) [of "Addr c" "Addr (mb_end m)"] c(3) ok by simp
  ultimately show "split_success m lo = Inr (m\<lparr>mb_base := Addr (ceil_to ?b ?A)\<rparr>, Some (mb_end m - ceil_to ?b ?A))"
    by (simp add: split_success_def Let_def byte_add_def flip: c_def)
qed

lemma aligned_split_pieces:
  assumes "mb_end m < RANGE_end UMASpace" "2 ^ lo dvd mb_end m" "lo \<le> hi" "hi < 46"
    and "start = ceil_to (usize (mb_base m)) (2 ^ lo)"
  shows "\<exists>sp ms. aligned_split_new m lo hi = Inr sp \<and> aligned_split_items sp = Inr ms \<and>
    tiles start ms (mb_end m) \<and> (\<forall>p \<in> set ms. piece_ok start lo hi p)"
proof -
  have "lo < 46" using assms(3,4) by simp
  note ss = split_success_ok [OF assms(1,2) this, folded assms(5)]
  let ?sp = "\<lparr>as_memblock = m\<lparr>mb_base := Addr start, mb_size := mb_end m - start\<rparr>, as_offset = 0,
    as_max_order = hi\<rparr>"
  have "2 ^ lo dvd start" unfolding assms(5) by (rule ceil_to_multiple) simp
  with assms(2) have "2 ^ lo dvd mb_end m - start" by (rule dvd_diff_nat)
  moreover have e: "mb_end (as_memblock ?sp) = mb_end m" using ss(2) by (simp add: mb_end_def)
  ultimately obtain ms where "aligned_split_items ?sp = Inr ms" "tiles start ms (mb_end m)"
    "\<forall>p \<in> set ms. piece_ok start lo hi p"
    using aligned_split_items_ok [of ?sp lo] assms(1,3,4) by (auto simp: e)
  moreover have "aligned_split_new m lo hi = Inr ?sp" by (simp add: aligned_split_new_def ss(1))
  ultimately show ?thesis by blast
qed

section \<open>Freezing\<close>

lemma memblock_freeze_ok:
  assumes fz: "\<not> ms_is_frozen s" "ms_partial_block s = Some p" "0 < ms_offset s" "ms_offset s < mb_size p"
    and ok: "block_ok p" "blocks_ok (ms_free_blocks s)" "blocks_ok (ms_reserved_blocks s)"
    and disj: "mb_bytes p \<inter> blocks_bytes (ms_free_blocks s) = {}"
      "mb_bytes p \<inter> blocks_bytes (ms_reserved_blocks s) = {}"
    and cap: "length (ms_free_blocks s) < MEMBLOCKS_LEN" "length (ms_reserved_blocks s) < MEMBLOCKS_LEN"
  shows "\<exists>free res. memblock_freeze s =
      Inr (s\<lparr>ms_partial_block := None, ms_free_blocks := free, ms_reserved_blocks := res\<rparr>) \<and>
    blocks_ok free \<and> blocks_ok res \<and>
    blocks_bytes free = blocks_bytes (ms_free_blocks s) \<union> {usize (mb_base p) + ms_offset s ..< mb_end p} \<and>
    blocks_bytes res = blocks_bytes (ms_reserved_blocks s) \<union>
      {usize (mb_base p) ..< usize (mb_base p) + ms_offset s}"
proof -
  let ?fb = "\<lparr>mb_base = Addr (usize (mb_base p) + ms_offset s), mb_size = mb_size p - ms_offset s, mb_typ = Free\<rparr>"
  let ?rb = "\<lparr>mb_base = mb_base p, mb_size = ms_offset s, mb_typ = Reserved\<rparr>"
  have fb: "block_ok ?fb" "mb_bytes ?fb = {usize (mb_base p) + ms_offset s ..< mb_end p}"
    and rb: "block_ok ?rb" "mb_bytes ?rb = {usize (mb_base p) ..< usize (mb_base p) + ms_offset s}"
    using fz ok(1) by (auto simp: block_ok_def mb_end_def mb_bytes_def)
  have "mb_bytes ?fb \<subseteq> mb_bytes p" "mb_bytes ?rb \<subseteq> mb_bytes p"
    using fz(4) unfolding fb rb by (auto simp: mb_bytes_def mb_end_def)
  then have d: "mb_bytes ?fb \<inter> blocks_bytes (ms_free_blocks s) = {}"
    "mb_bytes ?rb \<inter> blocks_bytes (ms_reserved_blocks s) = {}" using disj by blast+
  obtain free where f: "memblocks_insert (ms_free_blocks s) ?fb = Inr (True, free)" "blocks_ok free"
    "blocks_bytes free = blocks_bytes (ms_free_blocks s) \<union> mb_bytes ?fb"
    using memblocks_insert_ok [OF ok(2) fb(1) d(1) cap(1)] by blast
  obtain res where r: "memblocks_insert (ms_reserved_blocks s) ?rb = Inr (True, res)" "blocks_ok res"
    "blocks_bytes res = blocks_bytes (ms_reserved_blocks s) \<union> mb_bytes ?rb"
    using memblocks_insert_ok [OF ok(3) rb(1) d(2) cap(2)] by blast
  have "byte_add UMASpace (mb_base p) (ms_offset s) = Inr (Addr (usize (mb_base p) + ms_offset s))"
    using fz ok(1) by (intro uma_byte_add) (simp add: block_ok_def mb_end_def)
  then have "memblock_freeze s =
      Inr (s\<lparr>ms_partial_block := None, ms_free_blocks := free, ms_reserved_blocks := res\<rparr>)"
    using fz f(1) r(1) by (simp add: memblock_freeze_def)
  with f r fb rb show ?thesis by auto
qed

text \<open>\<^verbatim>\<open>freeze\<close> does not set \<^verbatim>\<open>is_frozen\<close>.\<close>

lemma memblock_freeze_not_frozen: "memblock_freeze s = Inr s' \<Longrightarrow> \<not> ms_is_frozen s'"
  by (auto simp: memblock_freeze_def res_iffs split: option.splits)

section \<open>Initialisation\<close>

lemma memblock_init_ok:
  assumes "\<forall>a \<in> set areas. area_ok a" "usize kend \<le> RANGE_end UMASpace"
    and "sorted_wrt (\<lambda>a b. usable kend a \<inter> usable kend b = {}) areas"
    and "length areas \<le> MEMBLOCKS_LEN" and "X = \<Union> (usable kend ` set areas)" "X \<noteq> {}"
  shows "\<exists>s p. memblock_system_init kend areas = Inr s \<and> ms_partial_block s = Some p \<and>
    blocks_ok (ms_free_blocks s @ [p]) \<and> blocks_bytes (ms_free_blocks s @ [p]) = X \<and>
    ar_base (ms_managed_range s) = Addr (Min X) \<and>
    range_bytes (ms_managed_range s) = {Min X .. Max X} \<and>
    range_in UMASpace (ms_managed_range s) \<and> \<not> ms_is_frozen s \<and> ms_offset s = 0 \<and> ms_reserved_blocks s = [] \<and>
    length (ms_free_blocks s) < MEMBLOCKS_LEN"
proof -
  have lims: "addr_new UMASpace (RANGE_end UMASpace - 1) = Inr (Addr (RANGE_end UMASpace - 1))"
    "addr_new UMASpace (RANGE_start UMASpace) = Inr (Addr 0)"
    by (simp_all add: uma_end)
  have none: "blocks_bytes [] = {}" "blocks_ok []" by (simp_all add: blocks_ok_def blocks_bytes_def)
  then have "hull (Addr (RANGE_end UMASpace - 1)) (Addr 0) (blocks_bytes [])" by (simp add: hull_def)
  moreover have pre: "\<forall>a \<in> set areas. usable kend a \<inter> blocks_bytes [] = {}"
    "length ([] :: memblock list) + length areas \<le> MEMBLOCKS_LEN" using assms(4) none by simp_all
  ultimately obtain free lo hi where f0: "rfold (init_block kend) areas
      ([], Addr (RANGE_end UMASpace - 1), Addr 0) = Inr (free, lo, hi)"
    "blocks_ok free" "blocks_bytes free = blocks_bytes [] \<union> \<Union> (usable kend ` set areas)"
    "hull lo hi (blocks_bytes free)" "length free \<le> length ([] :: memblock list) + length areas"
    using init_fold_ok [OF assms(1-3) pre(1) none(2) pre(2)] by blast
  have X: "blocks_bytes free = X" using f0(3) none(1) assms(5) by simp
  have "hull lo hi X" "length free \<le> MEMBLOCKS_LEN" using f0(4,5) X assms(4) by simp_all
  note f = f0(1,2) X this
  note h = hull_Min_Max [OF f(4) assms(6)]
  have "usize hi - 1 \<in> X" using f(4) assms(6) by (simp add: hull_def)
  then have "usize hi - 1 < RANGE_end UMASpace" using blocks_bytes_below [OF f(2)] f(3) by simp
  then have hi: "usize hi \<le> RANGE_end UMASpace" by linarith
  have ne: "free \<noteq> []" using f(3) assms(6) by (auto simp: blocks_bytes_def)
  note sub = uma_addr_sub [OF less_imp_le [OF h(3)] hi]
  have "range_bytes \<lparr>ar_base = lo, ar_size = usize hi - usize lo\<rparr> = {usize lo ..< usize hi}"
    using h(3) by (simp add: range_bytes_def)
  also have "\<dots> = {Min X .. Max X}" using h by auto
  finally have rng: "range_bytes \<lparr>ar_base = lo, ar_size = usize hi - usize lo\<rparr> = {Min X .. Max X}" .
  have lo: "lo = Addr (Min X)" using h(1) by (cases lo) simp
  have "memblock_system_init kend areas = Inr \<lparr>ms_free_blocks = butlast free, ms_reserved_blocks = [],
      ms_partial_block = Some (last free), ms_offset = 0, ms_managed_range =
      \<lparr>ar_base = lo, ar_size = usize hi - usize lo\<rparr>, ms_is_frozen = False\<rparr>" (is "_ = Inr ?s")
    unfolding memblock_system_init_def lims rbind_Inr f(1) prod.case
    using h(3) ne by (simp add: memblocks_pop_def sub del: of_nat_diff)
  moreover have "length (butlast free) < MEMBLOCKS_LEN" using ne f(5) by (cases free) auto
  moreover have "range_in UMASpace \<lparr>ar_base = lo, ar_size = usize hi - usize lo\<rparr>"
    using h(3) hi by (simp add: range_in_def)
  ultimately show ?thesis using f(2,3) ne rng lo by (intro exI [of _ ?s] exI [of _ "last free"]) simp
qed

section \<open>Properties\<close>

text \<open>C16. \<^verbatim>\<open>Memblocks::insert\<close> of a block that shares no byte with the array succeeds, adds exactly
  the bytes of the block, and keeps the array sorted, within the physical address space, and
  with a gap between neighbouring blocks, that is with adjacent blocks merged.\<close>

theorem memblocks_insert_union:
  assumes "blocks_ok bs" "block_ok b" "mb_bytes b \<inter> blocks_bytes bs = {}" "length bs < MEMBLOCKS_LEN"
  shows "\<exists>bs'. memblocks_insert bs b = Inr (True, bs') \<and> blocks_ok bs' \<and>
    blocks_bytes bs' = blocks_bytes bs \<union> mb_bytes b"
  using memblocks_insert_ok [OF assms] by blast

abbreviation free_mb :: "nat \<Rightarrow> nat \<Rightarrow> memblock" where
  "free_mb b n \<equiv> \<lparr>mb_base = Addr b, mb_size = n, mb_typ = Free\<rparr>"

theorem memblocks_insert_union_witness:
  "\<exists>bs'. memblocks_insert [free_mb 4096 4096, free_mb 12288 4096] (free_mb 8192 4096) =
      Inr (True, bs') \<and> blocks_ok bs' \<and> blocks_bytes bs' =
      blocks_bytes [free_mb 4096 4096, free_mb 12288 4096] \<union> mb_bytes (free_mb 8192 4096)"
  by (rule memblocks_insert_union)
    (auto simp: blocks_ok_def block_ok_def mb_end_def uma_end blocks_bytes_def mb_bytes_def
      MEMBLOCKS_LEN_def)

text \<open>C17. \<^verbatim>\<open>MemblockSystem::init\<close>, given memory areas whose usable parts are disjoint, returns a system
  whose blocks hold exactly the bytes of available memory from the end of the kernel on, and whose
  managed range is the smallest range containing them.\<close>

theorem memblock_init_exact:
  assumes "\<forall>a \<in> set areas. area_ok a" "usize kend \<le> RANGE_end UMASpace"
    and "sorted_wrt (\<lambda>a b. usable kend a \<inter> usable kend b = {}) areas"
    and "length areas \<le> MEMBLOCKS_LEN" and "X = \<Union> (usable kend ` set areas)" "X \<noteq> {}"
  shows "\<exists>s p. memblock_system_init kend areas = Inr s \<and> ms_partial_block s = Some p \<and>
    blocks_ok (ms_free_blocks s @ [p]) \<and> blocks_bytes (ms_free_blocks s @ [p]) = X \<and>
    ar_base (ms_managed_range s) = Addr (Min X) \<and>
    range_bytes (ms_managed_range s) = {Min X .. Max X}"
  using memblock_init_ok [OF assms] by blast

theorem memblock_init_exact_witness:
  "\<exists>s p. memblock_system_init (Addr 0x200000)
      [\<lparr>start_address = 0x100000, area_size = 0x300000, area_typ = Available\<rparr>] = Inr s \<and>
    ms_partial_block s = Some p \<and> blocks_ok (ms_free_blocks s @ [p]) \<and>
    blocks_bytes (ms_free_blocks s @ [p]) = {0x200000 ..< 0x400000} \<and>
    ar_base (ms_managed_range s) = Addr (Min {0x200000 ..< 0x400000}) \<and>
    range_bytes (ms_managed_range s) = {Min {0x200000 ..< 0x400000} .. Max {0x200000 ..< 0x400000}}"
  by (rule memblock_init_exact)
    (auto simp: area_ok_def uma_end usable_def MEMBLOCKS_LEN_def)


definition one_block :: memblock_system where
  "one_block = \<lparr>ms_free_blocks = [], ms_reserved_blocks = [], ms_partial_block =
     Some (free_mb 0x100000 0x100000), ms_offset = 24, ms_managed_range =
     \<lparr>ar_base = Addr 0x100000, ar_size = 0x100000\<rparr>, ms_is_frozen = False\<rparr>"


text \<open>The answer of \<^verbatim>\<open>reserve\<close> is the offset in the block, not an address of the block: with a
  single block of one MiB at one MiB, the first page reserved is at address zero, which is not in
  the block.\<close>

theorem memblock_reserve_ignores_base:
  "rbind (memblock_reserve \<lparr>l_size = 4096, l_align = 4096\<rparr> (one_block\<lparr>ms_offset := 0\<rparr>))
     (\<lambda>(a, s'). Inr (a, ms_offset s')) = Inr (Some (Addr 0), 4096)"
  by code_simp

text \<open>C31. A block whose end is aligned to the smallest piece is cut into consecutive pieces that reach
  from the first aligned address of the block to its end; each piece is a power of two in size,
  between the two orders, and starts at a multiple of its size counted from the first piece.\<close>

theorem aligned_split_tiles:
  assumes "mb_end m < RANGE_end UMASpace" "2 ^ lo dvd mb_end m" "lo \<le> hi" "hi < 46"
    and "start = ceil_to (usize (mb_base m)) (2 ^ lo)"
  shows "\<exists>sp ms. aligned_split_new m lo hi = Inr sp \<and> aligned_split_items sp = Inr ms \<and>
    tiles start ms (mb_end m) \<and> (\<forall>p \<in> set ms. piece_ok start lo hi p)"
  by (rule aligned_split_pieces [OF assms])

theorem aligned_split_tiles_witness:
  "\<exists>sp ms. aligned_split_new (free_mb 0x5800 0x4800) 12 30 = Inr sp \<and>
     aligned_split_items sp = Inr ms \<and> tiles 0x6000 ms 0xA000 \<and>
     (\<forall>p \<in> set ms. piece_ok 0x6000 12 30 p)"
  using aligned_split_tiles [of "free_mb 0x5800 0x4800" 12 30 "0x6000"]
  by (simp add: mb_end_def uma_end ceil_to_def)

text \<open>A block whose end is not aligned can be cut into pieces that overrun it: the base is
  rounded up before the end is computed from the unchanged size.  For a block from 0x1001 to
  0x3001 the single piece is 0x2000 to 0x4000.\<close>

theorem aligned_split_overruns:
  "rbind (aligned_split_new (free_mb 0x1001 0x2000) 12 30) aligned_split_items =
     Inr [free_mb 0x2000 0x2000]"
  by code_simp

text \<open>C32. Freezing a partly used block moves its used part to the reserved blocks and the rest to the
  free blocks, and changes no other byte.\<close>

theorem memblock_freeze_splits:
  assumes "\<not> ms_is_frozen s" "ms_partial_block s = Some p" "0 < ms_offset s" "ms_offset s < mb_size p"
    and "block_ok p" "blocks_ok (ms_free_blocks s)" "blocks_ok (ms_reserved_blocks s)"
    and "mb_bytes p \<inter> blocks_bytes (ms_free_blocks s) = {}"
      "mb_bytes p \<inter> blocks_bytes (ms_reserved_blocks s) = {}"
    and "length (ms_free_blocks s) < MEMBLOCKS_LEN" "length (ms_reserved_blocks s) < MEMBLOCKS_LEN"
  shows "\<exists>s'. memblock_freeze s = Inr s' \<and> ms_partial_block s' = None \<and>
    blocks_ok (ms_free_blocks s') \<and> blocks_ok (ms_reserved_blocks s') \<and>
    blocks_bytes (ms_free_blocks s') =
      blocks_bytes (ms_free_blocks s) \<union> {usize (mb_base p) + ms_offset s ..< mb_end p} \<and>
    blocks_bytes (ms_reserved_blocks s') =
      blocks_bytes (ms_reserved_blocks s) \<union> {usize (mb_base p) ..< usize (mb_base p) + ms_offset s}"
  using memblock_freeze_ok [OF assms] by auto

theorem memblock_freeze_splits_witness:
  "\<exists>s'. memblock_freeze one_block = Inr s' \<and> ms_partial_block s' = None \<and>
    blocks_ok (ms_free_blocks s') \<and> blocks_ok (ms_reserved_blocks s') \<and>
    blocks_bytes (ms_free_blocks s') = {0x100018 ..< 0x200000} \<and>
    blocks_bytes (ms_reserved_blocks s') = {0x100000 ..< 0x100018}"
  using memblock_freeze_splits [of one_block "free_mb 0x100000 0x100000"]
  by (simp add: one_block_def block_ok_def blocks_ok_def blocks_bytes_def mb_end_def uma_end
      MEMBLOCKS_LEN_def)

end

