(* ===== verification/Phy.thy ===== *)
theory Phy
  imports Buddy Memblock
begin

text \<open>
  Physical memory management, \<^verbatim>\<open>src/src/mem/phy.rs\<close>: the boot-time manager over the memblock system,
  the record of physical frames over the buddy system, and the page and layout interfaces.

  The single \<^verbatim>\<open>PMM\<close> behind its lock is an explicit state.  \<^verbatim>\<open>PhysicalMemoryRecord::new\<close> does not
  initialise the array of frames, so what the memory held before is an argument of the model.
\<close>

section \<open>The boot-time manager\<close>

type_synonym boot_memory_manager = memblock_system

definition init_boot_mem :: "addr \<Rightarrow> memory_area list \<Rightarrow> boot_memory_manager res" where
  "init_boot_mem kend areas = memblock_system_init kend areas"

definition boot_managed_range :: "boot_memory_manager \<Rightarrow> addr_range" where
  "boot_managed_range bmm = ms_managed_range bmm"

text \<open>\<^verbatim>\<open>addr::Allocator\<close> for \<^verbatim>\<open>BootMemoryManager\<close>.\<close>

definition boot_allocate_range ::
  "layout \<Rightarrow> boot_memory_manager \<Rightarrow> (addr_range option \<times> boot_memory_manager) res" where
  "boot_allocate_range l bmm =
     rbind (memblock_reserve l bmm) (\<lambda>(a, bmm').
     Inr (map_option (\<lambda>b. \<lparr>ar_base = b, ar_size = l_size l\<rparr>) a, bmm'))"

text \<open>\<^verbatim>\<open>core::alloc::Allocator\<close> for \<^verbatim>\<open>BootMemoryManager\<close>: the remapped address, unless it is null.\<close>

definition boot_allocate ::
  "layout \<Rightarrow> boot_memory_manager \<Rightarrow> (addr option \<times> boot_memory_manager) res" where
  "boot_allocate l bmm =
     rbind (memblock_reserve l bmm) (\<lambda>(a, bmm').
     case a of None \<Rightarrow> Inr (None, bmm')
     | Some paddr \<Rightarrow>
       rbind (p2v paddr) (\<lambda>vaddr.
       Inr (if usize vaddr = 0 then None else Some vaddr, bmm')))"

definition boot_deallocate :: "addr \<Rightarrow> layout \<Rightarrow> boot_memory_manager \<Rightarrow> boot_memory_manager res" where
  "boot_deallocate a l bmm = Inl NotImplemented"

section \<open>The record of physical frames\<close>

record frame =
  fr_order :: nat
  fr_flag :: nat

definition FRAME_ORDER :: nat where "FRAME_ORDER = page_order page_MIN"
definition FRAME_SIZE :: nat where "FRAME_SIZE = page_usize page_MIN"

text \<open>The size and alignment of \<^verbatim>\<open>Frame\<close>: two bytes.\<close>

definition Frame_layout :: "nat \<times> nat" where "Frame_layout = (2, 1)"

record phy_record =
  ph_frames :: "frame list"
  ph_base :: page_addr
  ph_buddy :: buddy_system

text \<open>The body of the inner loop of \<^verbatim>\<open>new\<close>, for one aligned piece of a free block.\<close>

definition free_piece :: "page_addr \<Rightarrow> memblock \<Rightarrow> buddy_system \<Rightarrow> buddy_system res" where
  "free_piece base aligned b =
     rbind (is_aligned_to (mb_base aligned) FRAME_SIZE) (\<lambda>al.
     rbind (rassert al) (\<lambda>_.
     rbind (addr_sub (mb_base aligned) (pa_base base)) (\<lambda>d.
     rbind (usize_div (usize_of d) FRAME_SIZE) (\<lambda>idx.
     rbind (u8_sub (trailing_zeros (mb_size aligned) mod 256) FRAME_ORDER) (\<lambda>order.
     free_forced b idx order)))))"

definition free_block_pieces :: "page_addr \<Rightarrow> memblock \<Rightarrow> buddy_system \<Rightarrow> buddy_system res" where
  "free_block_pieces base free_block b =
     rbind (u8_add BUDDY_MAX_ORDER FRAME_ORDER) (\<lambda>max_order.
     rbind (aligned_split_new free_block FRAME_ORDER max_order) (\<lambda>sp.
     rbind (aligned_split_items sp) (\<lambda>pieces. rfold (free_piece base) pieces b)))"

definition phy_new ::
  "(nat \<Rightarrow> frame) \<Rightarrow> boot_memory_manager \<Rightarrow> (phy_record \<times> boot_memory_manager) res" where
  "phy_new mem bmm =
     rbind (overlapped_pages UMASpace (ms_managed_range bmm) Small) (\<lambda>managed_pages.
     rbind (rexpect (layout_array (fst Frame_layout) (snd Frame_layout) (pr_len managed_pages))) (\<lambda>frames_layout.
     rbind (boot_allocate frames_layout bmm) (\<lambda>(frames_ptr, bmm).
     rbind (rexpect frames_ptr) (\<lambda>_.
     let frames = map mem [0..<pr_len managed_pages] in
     rbind (buddy_new (length frames) boot_allocate bmm) (\<lambda>(buddy, bmm).
     rbind (rexpect buddy) (\<lambda>buddy.
     rbind (memblock_freeze bmm) (\<lambda>bmm.
     rbind (rfold (free_block_pieces (pr_base managed_pages)) (ms_free_blocks bmm) buddy) (\<lambda>buddy.
     Inr (\<lparr>ph_frames = frames, ph_base = pr_base managed_pages, ph_buddy = buddy\<rparr>, bmm)))))))))"

definition set_frame_order :: "phy_record \<Rightarrow> nat \<Rightarrow> nat \<Rightarrow> phy_record res" where
  "set_frame_order r i k =
     (if i < length (ph_frames r)
      then Inr (r\<lparr>ph_frames := (ph_frames r)[i := (ph_frames r ! i)\<lparr>fr_order := k\<rparr>]\<rparr>)
      else Inl IndexOutOfBounds)"

definition phy_allocate_pages ::
  "phy_record \<Rightarrow> nat \<Rightarrow> page_size \<Rightarrow> (page_range option \<times> phy_record) res" where
  "phy_allocate_pages r cnt ps =
     rbind (usize_div (page_usize ps) FRAME_SIZE) (\<lambda>per_page.
     rbind (usize_mul cnt per_page) (\<lambda>frame_cnt.
     rbind (next_power_of_two frame_cnt) (\<lambda>allocate_cnt.
     rbind (ilog2 allocate_cnt) (\<lambda>lg.
     let order = lg mod 256 in
     if bs_max_order (ph_buddy r) < order then Inr (None, r)
     else rbind (buddy_reserve (ph_buddy r) order) (\<lambda>(found, buddy).
     let r = r\<lparr>ph_buddy := buddy\<rparr> in
     case found of None \<Rightarrow> Inr (None, r)
     | Some frame_idx \<Rightarrow>
       rbind (set_frame_order r frame_idx order) (\<lambda>r.
       rbind (checked_page_add UMASpace (ph_base r) frame_idx) (\<lambda>ob.
       rbind (rexpect ob) (\<lambda>b.
       rbind (page_addr_new (pa_base b) ps) (\<lambda>base.
       rbind (u8_sub (page_order ps) FRAME_ORDER) (\<lambda>sh.
       rbind (usize_shr allocate_cnt sh) (\<lambda>len.
       Inr (Some \<lparr>pr_base = base, pr_len = len\<rparr>, r))))))))))))"

definition frame_idx :: "phy_record \<Rightarrow> addr \<Rightarrow> nat option res" where
  "frame_idx r a =
     rbind (addr_sub a (pa_base (ph_base r))) (\<lambda>d.
     case usize_try_from d of None \<Rightarrow> Inr None
     | Some byte_offset \<Rightarrow>
       rbind (usize_shr byte_offset FRAME_ORDER) (\<lambda>idx.
       Inr (if idx < length (ph_frames r) then Some idx else None)))"

definition phy_frame :: "phy_record \<Rightarrow> addr \<Rightarrow> frame option res" where
  "phy_frame r a = rbind (frame_idx r a) (\<lambda>i. Inr (map_option (\<lambda>i. ph_frames r ! i) i))"

definition phy_deallocate_pages :: "phy_record \<Rightarrow> page_range \<Rightarrow> phy_record res" where
  "phy_deallocate_pages r pages =
     rbind (frame_idx r (pa_base (pr_base pages))) (\<lambda>oi.
     rbind (rexpect oi) (\<lambda>idx.
     let order = fr_order (ph_frames r ! idx) in
     rbind (buddy_system_free (ph_buddy r) idx order) (\<lambda>buddy.
     set_frame_order (r\<lparr>ph_buddy := buddy\<rparr>) idx 0)))"

section \<open>The layout interface\<close>

text \<open>\<^verbatim>\<open>PMM\<close> is empty until \<^verbatim>\<open>init\<close>; the debug assertions ask that it is not.\<close>

definition pmm_allocate ::
  "layout \<Rightarrow> phy_record option \<Rightarrow> (addr_range option \<times> phy_record option) res" where
  "pmm_allocate l pmm =
     (case pmm of None \<Rightarrow> Inl AssertFailed
      | Some r \<Rightarrow>
        (case page_fit l of None \<Rightarrow> Inr (None, Some r)
         | Some ps \<Rightarrow>
           rbind (phy_allocate_pages r 1 ps) (\<lambda>(o', r').
           case o' of None \<Rightarrow> Inr (None, Some r')
           | Some pr \<Rightarrow> rbind (page_range_into pr) (\<lambda>ar. Inr (Some ar, Some r')))))"

definition pmm_deallocate :: "addr \<Rightarrow> layout \<Rightarrow> phy_record option \<Rightarrow> phy_record option res" where
  "pmm_deallocate a l pmm =
     (case pmm of None \<Rightarrow> Inl AssertFailed
      | Some r \<Rightarrow>
        rbind (rexpect (page_fit l)) (\<lambda>ps.
        rbind (page_addr_new a ps) (\<lambda>base.
        rbind (phy_deallocate_pages r \<lparr>pr_base = base, pr_len = 1\<rparr>) (\<lambda>r'. Inr (Some r')))))"

section \<open>The record as a frame allocator\<close>

definition phy_inv :: "phy_record \<Rightarrow> bool" where
  "phy_inv r \<longleftrightarrow> buddy_inv (ph_buddy r) \<and> pa_page_size (ph_base r) = Small \<and>
     4096 dvd usize (pa_base (ph_base r)) \<and>
     usize (pa_base (ph_base r)) + length (ph_frames r) * 4096 < RANGE_end UMASpace \<and>
     free_frames (ph_buddy r) \<subseteq> {..< length (ph_frames r)}"

text \<open>A block that is handed out, with its order recorded at its first frame.\<close>

definition phy_used :: "phy_record \<Rightarrow> nat \<Rightarrow> nat \<Rightarrow> bool" where
  "phy_used r k i \<longleftrightarrow> in_use (ph_buddy r) k i \<and> block k i \<subseteq> {..< length (ph_frames r)} \<and>
     fr_order (ph_frames r ! (i * 2 ^ k)) = k"

text \<open>Page addresses and frame numbers.\<close>

definition frame_addr :: "phy_record \<Rightarrow> nat \<Rightarrow> addr" where
  "frame_addr r x = Addr (usize (pa_base (ph_base r)) + x * 4096)"

definition frame_range :: "phy_record \<Rightarrow> nat \<Rightarrow> nat \<Rightarrow> page_range" where
  "frame_range r x n = \<lparr>pr_base = \<lparr>pa_base = frame_addr r x, pa_page_size = Small\<rparr>, pr_len = n\<rparr>"

lemma frame_consts [simp]: "FRAME_ORDER = 12" "FRAME_SIZE = 4096" "page_usize Small = 4096" "page_order Small = 12"
  by (simp_all add: FRAME_ORDER_def FRAME_SIZE_def page_usize_def page_MIN_def)

lemma buddy_order_limit: "buddy_inv b \<Longrightarrow> bs_max_order b \<le> 18"
  by (simp add: buddy_inv_def BUDDY_MAX_ORDER_def)

lemma frame_idx_ok:
  assumes "phy_inv r" "x < length (ph_frames r)"
  shows "frame_idx r (frame_addr r x) = Inr (Some x)"
proof -
  let ?b = "usize (pa_base (ph_base r))"
  have "?b + x * 4096 \<le> RANGE_end UMASpace" using assms by (simp add: phy_inv_def)
  then have "addr_sub (Addr (?b + x * 4096)) (pa_base (ph_base r)) = Inr (int (x * 4096))"
    using uma_addr_sub(1) [of "pa_base (ph_base r)" "Addr (?b + x * 4096)"] by simp
  moreover have "usize_try_from (int (x * 4096)) = Some (x * 4096)" by (rule usize_try_from_nat)
  ultimately show ?thesis using assms(2) by (simp add: frame_idx_def frame_addr_def)
qed

lemma page_at_frame:
  assumes "phy_inv r" "x < length (ph_frames r)"
  shows "checked_page_add UMASpace (ph_base r) x = Inr (Some \<lparr>pa_base = frame_addr r x, pa_page_size = Small\<rparr>)"
    "page_addr_new (frame_addr r x) Small = Inr \<lparr>pa_base = frame_addr r x, pa_page_size = Small\<rparr>"
proof -
  let ?b = "usize (pa_base (ph_base r))"
  have b: "?b + x * 4096 < RANGE_end UMASpace" "pa_page_size (ph_base r) = Small" "4096 dvd ?b"
    using assms by (simp_all add: phy_inv_def)
  then have "x * 4096 < usize_limit" "?b + x * 4096 < usize_limit" using uma_limits(1) by linarith+
  with b show "checked_page_add UMASpace (ph_base r) x =
      Inr (Some \<lparr>pa_base = frame_addr r x, pa_page_size = Small\<rparr>)"
    by (simp add: checked_page_add_def checked_byte_add_def checked_add_def RANGE_contains_def frame_addr_def)
  show "page_addr_new (frame_addr r x) Small = Inr \<lparr>pa_base = frame_addr r x, pa_page_size = Small\<rparr>"
    using b(3) by (simp add: frame_addr_def dvd_eq_mod_eq_0 page_addr_new_def)
qed

text \<open>Allocation of small pages, from what the buddy system answers.\<close>

lemma pow2_request:
  assumes "pow2_exp cnt \<le> 18"
  shows "usize_mul cnt 1 = Inr cnt" "next_power_of_two cnt = Inr (2 ^ pow2_exp cnt)"
    "2 ^ pow2_exp cnt < usize_limit"
proof -
  have "(2::nat) ^ pow2_exp cnt \<le> 2 ^ 18" using assms by (rule power_increasing) simp
  also have "\<dots> < usize_limit" by (simp add: usize_limit_def)
  finally show lim: "2 ^ pow2_exp cnt < usize_limit" .
  then show "usize_mul cnt 1 = Inr cnt" "next_power_of_two cnt = Inr (2 ^ pow2_exp cnt)"
    using pow2_exp_ge [of cnt] by (simp_all add: next_power_of_two_ok)
qed

lemma phy_allocate_small:
  assumes inv: "phy_inv r" and k: "pow2_exp cnt \<le> bs_max_order (ph_buddy r)"
  shows "phy_allocate_pages r cnt Small =
    rbind (buddy_reserve (ph_buddy r) (pow2_exp cnt)) (\<lambda>(found, buddy).
      case found of None \<Rightarrow> Inr (None, r\<lparr>ph_buddy := buddy\<rparr>)
      | Some x \<Rightarrow> rbind (set_frame_order (r\<lparr>ph_buddy := buddy\<rparr>) x (pow2_exp cnt)) (\<lambda>r'.
          Inr (Some (frame_range r x (2 ^ pow2_exp cnt)), r')))"
proof -
  let ?k = "pow2_exp cnt"
  have k18: "?k \<le> 18" using k buddy_order_limit inv by (fastforce simp: phy_inv_def)
  note req = pow2_request [OF k18]
  have page: "checked_page_add UMASpace (ph_base r) x =
      Inr (Some \<lparr>pa_base = frame_addr r x, pa_page_size = Small\<rparr>)"
    "page_addr_new (frame_addr r x) Small = Inr \<lparr>pa_base = frame_addr r x, pa_page_size = Small\<rparr>"
    if "set_frame_order (r\<lparr>ph_buddy := b\<rparr>) x ?k = Inr r'" for x b r'
    using page_at_frame [OF inv, of x] that by (auto simp: set_frame_order_def split: if_splits)
  have base: "ph_base r' = ph_base r" if "set_frame_order (r\<lparr>ph_buddy := b\<rparr>) x ?k = Inr r'" for x b r'
    using that by (auto simp: set_frame_order_def split: if_splits)
  have "phy_allocate_pages r cnt Small =
      rbind (buddy_reserve (ph_buddy r) ?k) (\<lambda>(found, buddy).
      case found of None \<Rightarrow> Inr (None, r\<lparr>ph_buddy := buddy\<rparr>)
      | Some x \<Rightarrow> rbind (set_frame_order (r\<lparr>ph_buddy := buddy\<rparr>) x ?k) (\<lambda>r'.
          rbind (checked_page_add UMASpace (ph_base r') x) (\<lambda>ob. rbind (rexpect ob) (\<lambda>b.
          rbind (page_addr_new (pa_base b) Small) (\<lambda>base.
          Inr (Some \<lparr>pr_base = base, pr_len = 2 ^ ?k\<rparr>, r'))))))"
    using k k18 req by (simp add: phy_allocate_pages_def Let_def cong: option.case_cong)
  also have "\<dots> = rbind (buddy_reserve (ph_buddy r) ?k) (\<lambda>(found, buddy).
      case found of None \<Rightarrow> Inr (None, r\<lparr>ph_buddy := buddy\<rparr>)
      | Some x \<Rightarrow> rbind (set_frame_order (r\<lparr>ph_buddy := buddy\<rparr>) x ?k) (\<lambda>r'.
          Inr (Some (frame_range r x (2 ^ ?k)), r')))"
    by (intro rbind_cong refl) (auto simp: base page frame_range_def split: option.splits intro!: rbind_cong)
  finally show ?thesis .
qed

lemma block_start_eq: "block k i \<inter> block k' j = {} \<Longrightarrow> i * 2 ^ k \<noteq> j * 2 ^ k'"
  using block_start [of i k] block_start [of j k'] by auto

text \<open>What allocating pages does to the record.\<close>

lemma phy_allocate_law:
  assumes inv: "phy_inv r" and k: "pow2_exp cnt = k" "k \<le> bs_max_order (ph_buddy r)"
  shows "phy_allocate_pages r cnt Small = Inr (None, r) \<or>
    (\<exists>i r'. phy_allocate_pages r cnt Small = Inr (Some (frame_range r (i * 2 ^ k) (2 ^ k)), r') \<and>
      phy_inv r' \<and> bs_max_order (ph_buddy r') = bs_max_order (ph_buddy r) \<and> ph_base r' = ph_base r \<and>
      block k i \<subseteq> free_frames (ph_buddy r) \<and>
      free_frames (ph_buddy r') = free_frames (ph_buddy r) - block k i \<and>
      phy_used r' k i \<and> (\<forall>k' j. phy_used r k' j \<longrightarrow> phy_used r' k' j))"
proof -
  have b: "buddy_inv (ph_buddy r)" using inv by (simp add: phy_inv_def)
  have free: "free_frames (ph_buddy r) \<subseteq> {..< length (ph_frames r)}" using inv by (simp add: phy_inv_def)
  show ?thesis using buddy.reserve_law [OF b k(2)]
  proof (elim disjE exE conjE)
    assume "buddy_reserve (ph_buddy r) k = Inr (None, ph_buddy r)"
    then show ?thesis using phy_allocate_small [OF inv] k by simp
  next
    fix i b' assume r: "buddy_reserve (ph_buddy r) k = Inr (Some (i * 2 ^ k), b')" "buddy_inv b'"
      "bs_max_order b' = bs_max_order (ph_buddy r)" "block k i \<subseteq> free_frames (ph_buddy r)"
      "free_frames b' = free_frames (ph_buddy r) - block k i" "in_use b' k i"
      "\<forall>k' j. in_use (ph_buddy r) k' j \<longrightarrow> in_use b' k' j"
    let ?x = "i * 2 ^ k"
    let ?r = "r\<lparr>ph_buddy := b', ph_frames := (ph_frames r)[?x := (ph_frames r ! ?x)\<lparr>fr_order := k\<rparr>]\<rparr>"
    have x: "?x < length (ph_frames r)" using r(4) free block_start by fastforce
    have "phy_allocate_pages r cnt Small = Inr (Some (frame_range r ?x (2 ^ k)), ?r)"
      using phy_allocate_small [OF inv] k r(1) x by (simp add: set_frame_order_def)
    moreover have "phy_inv ?r" using inv r(2,5) by (auto simp: phy_inv_def)
    moreover have "phy_used ?r k i" using r(4,6) free x by (auto simp: phy_used_def)
    moreover have "phy_used ?r k' j" if u: "phy_used r k' j" for k' j
    proof -
      have "block k' j \<inter> free_frames (ph_buddy r) = {}"
        using u buddy.used_not_free by (simp add: phy_used_def)
      then have "?x \<noteq> j * 2 ^ k'" using r(4) by (intro block_start_eq) blast
      with u r(7) show ?thesis by (simp add: phy_used_def)
    qed
    ultimately show ?thesis using r(3,4,5) by fastforce
  qed
qed

lemma phy_deallocate_law:
  assumes inv: "phy_inv r" and us: "phy_used r k i"
  shows "\<exists>r'. phy_deallocate_pages r (frame_range r (i * 2 ^ k) n) = Inr r' \<and> phy_inv r' \<and>
    bs_max_order (ph_buddy r') = bs_max_order (ph_buddy r) \<and> ph_base r' = ph_base r \<and>
    free_frames (ph_buddy r') = free_frames (ph_buddy r) \<union> block k i \<and>
    (\<forall>k' j. phy_used r k' j \<and> (k', j) \<noteq> (k, i) \<longrightarrow> phy_used r' k' j)"
proof -
  let ?x = "i * 2 ^ k"
  have b: "buddy_inv (ph_buddy r)" and bu: "in_use (ph_buddy r) k i" and
    fr: "fr_order (ph_frames r ! ?x) = k" "block k i \<subseteq> {..< length (ph_frames r)}"
    using inv us by (simp_all add: phy_inv_def phy_used_def)
  have x: "?x < length (ph_frames r)" using fr(2) block_start by fastforce
  obtain b' where r: "buddy_system_free (ph_buddy r) ?x k = Inr b'" "buddy_inv b'"
    "bs_max_order b' = bs_max_order (ph_buddy r)" "free_frames b' = free_frames (ph_buddy r) \<union> block k i"
    "\<forall>k' j. in_use (ph_buddy r) k' j \<and> (k', j) \<noteq> (k, i) \<longrightarrow> in_use b' k' j"
    using buddy.release_law [OF b bu] by blast
  let ?r = "r\<lparr>ph_buddy := b', ph_frames := (ph_frames r)[?x := (ph_frames r ! ?x)\<lparr>fr_order := 0\<rparr>]\<rparr>"
  have "phy_deallocate_pages r (frame_range r ?x n) = Inr ?r"
    using frame_idx_ok [OF inv x] r(1) fr(1) x
    by (simp add: phy_deallocate_pages_def frame_range_def set_frame_order_def)
  moreover have "phy_inv ?r" using inv r(2,4) fr(2) by (simp add: phy_inv_def)
  moreover have "phy_used ?r k' j" if u: "phy_used r k' j" "(k', j) \<noteq> (k, i)" for k' j
  proof -
    have "block k i \<inter> block k' j = {}"
      using u(2) by (intro buddy.used_disjoint [OF bu]) (use u(1) in \<open>auto simp: phy_used_def\<close>)
    then have "?x \<noteq> j * 2 ^ k'" by (rule block_start_eq)
    with u r(5) show ?thesis by (simp add: phy_used_def)
  qed
  ultimately show ?thesis using r(3,4) by fastforce
qed

text \<open>The page interface seen as a frame allocator: blocks of pages by the number of their first
  frame.\<close>

definition phy_reserve :: "phy_record \<Rightarrow> nat \<Rightarrow> (nat option \<times> phy_record) res" where
  "phy_reserve r k = rbind (phy_allocate_pages r (2 ^ k) Small) (\<lambda>(pages, r').
     Inr (map_option (\<lambda>pr. (usize (pa_base (pr_base pr)) - usize (pa_base (ph_base r))) div 4096) pages, r'))"

definition phy_release :: "phy_record \<Rightarrow> nat \<Rightarrow> nat \<Rightarrow> phy_record res" where
  "phy_release r x k = phy_deallocate_pages r (frame_range r x (2 ^ k))"

definition phy_limit :: "phy_record \<Rightarrow> nat" where
  "phy_limit r = bs_max_order (ph_buddy r)"

definition phy_free :: "phy_record \<Rightarrow> nat set" where
  "phy_free r = free_frames (ph_buddy r)"

interpretation phy: frame_allocator phy_inv phy_limit phy_free phy_used phy_reserve phy_release
proof
  fix r k assume inv: "phy_inv r" and k: "k \<le> phy_limit r"
  show "phy_reserve r k = Inr (None, r) \<or>
      (\<exists>i r'. phy_reserve r k = Inr (Some (i * 2 ^ k), r') \<and> phy_inv r' \<and> phy_limit r' = phy_limit r \<and>
        block k i \<subseteq> phy_free r \<and> phy_free r' = phy_free r - block k i \<and> phy_used r' k i \<and>
        (\<forall>k' j. phy_used r k' j \<longrightarrow> phy_used r' k' j))"
    using phy_allocate_law [OF inv pow2_exp_two_power k [unfolded phy_limit_def]]
    by (auto simp: phy_reserve_def phy_limit_def phy_free_def frame_range_def frame_addr_def)
next
  fix r k i assume "phy_inv r" "phy_used r k i"
  then show "\<exists>r'. phy_release r (i * 2 ^ k) k = Inr r' \<and> phy_inv r' \<and> phy_limit r' = phy_limit r \<and>
      phy_free r' = phy_free r \<union> block k i \<and>
      (\<forall>k' j. phy_used r k' j \<and> (k', j) \<noteq> (k, i) \<longrightarrow> phy_used r' k' j)"
    using phy_deallocate_law [of r k i "2 ^ k"] by (auto simp: phy_release_def phy_limit_def phy_free_def)
next
  fix r k i k' j assume "phy_used r k i" "phy_used r k' j" "(k, i) \<noteq> (k', j)"
  then show "block k i \<inter> block k' j = {}"
    by (intro buddy.used_disjoint [of "ph_buddy r"]) (simp_all add: phy_used_def)
next
  fix r k i assume "phy_used r k i"
  then show "block k i \<inter> phy_free r = {}"
    using buddy.used_not_free [of "ph_buddy r"] by (simp add: phy_used_def phy_free_def)
qed

text \<open>Four free pages at 2 MiB.\<close>

definition four_pages :: phy_record where
  "four_pages = \<lparr>ph_frames = replicate 4 \<lparr>fr_order = 0, fr_flag = 0\<rparr>,
     ph_base = \<lparr>pa_base = Addr 0x200000, pa_page_size = Small\<rparr>, ph_buddy = four_frames\<rparr>"

lemma four_pages_inv: "phy_inv four_pages"
  using four_frames_inv
  by (auto simp: phy_inv_def four_pages_def uma_end free_frames_def free_in_def four_frames_def)

lemma four_pages_limit [simp]: "phy_limit four_pages = 2" "bs_max_order (ph_buddy four_pages) = 2"
  by (simp_all add: phy_limit_def four_pages_def)

section \<open>Layouts\<close>

text \<open>A layout that fits a small page is smaller than a page and so is its alignment.\<close>

lemma layout_small:
  assumes "layout_wf l" "0 < l_size l" "ceil_to (l_size l) (l_align l) < 4096"
  shows "l_size l \<le> 4096" "l_align l dvd 4096"
proof -
  obtain k where k: "l_align l = 2 ^ k" using assms(1) by (auto simp: layout_wf_def)
  have "2 ^ k dvd ceil_to (l_size l) (2 ^ k)" by (rule ceil_to_multiple) simp
  moreover have "0 < ceil_to (l_size l) (2 ^ k)" using ceil_to_ge [of "l_size l" "2 ^ k"] assms(2) by linarith
  ultimately have "(2::nat) ^ k < 2 ^ 12" using assms(3) by (auto simp: k dest: dvd_imp_le)
  then have "k < 12" by (rule power_less_imp_less_exp [rotated]) simp
  then have "k \<le> 12" by simp
  then have "(2::nat) ^ k dvd 2 ^ 12" by (rule le_imp_power_dvd)
  then show "l_align l dvd 4096" by (simp add: k)
  show "l_size l \<le> 4096" using ceil_to_ge [of "l_size l" "l_align l"] assms(3) by linarith
qed

lemma page_fit_small:
  assumes "ceil_to (l_size l) (l_align l) < 4096"
  shows "page_fit l = Some Small"
proof -
  have "bit_length (ceil_to (l_size l) (l_align l)) \<le> 12" using assms by (simp add: bit_length_le_iff)
  then show ?thesis
    by (simp add: page_fit_def pad_to_align_def leading_zeros_def page_VARIANTS_def)
qed

section \<open>Properties\<close>

text \<open>C5. Over any sequence of allocations of \<open>2 ^ k\<close> small pages and deallocations of pages still
  held, the physical memory record never panics, the pages held never overlap one another or the
  free frames, and no frame is lost: the order stored at the first frame of a block is always the
  one the buddy system needs to take it back.\<close>

theorem phy_pages_run:
  assumes "phy_inv r" and "\<forall>q \<in> set reqs. request_ok (phy_limit r) q"
  shows "\<exists>r' held. client_run phy_reserve phy_release reqs (r, []) = Inr (r', held) \<and> phy_inv r' \<and>
    (\<forall>e \<in> set held. frames_of e \<inter> phy_free r' = {} \<and>
      (\<forall>e' \<in> set held. e \<noteq> e' \<longrightarrow> frames_of e \<inter> frames_of e' = {})) \<and>
    phy_free r' \<union> \<Union> (frames_of ` set held) = phy_free r"
  using assms by (rule phy.run_from_start)

theorem phy_pages_run_witness:
  "\<exists>r' held. client_run phy_reserve phy_release [Reserve 1, Reserve 0, Release 1] (four_pages, []) =
      Inr (r', held) \<and> phy_inv r' \<and>
    (\<forall>e \<in> set held. frames_of e \<inter> phy_free r' = {} \<and>
      (\<forall>e' \<in> set held. e \<noteq> e' \<longrightarrow> frames_of e \<inter> frames_of e' = {})) \<and>
    phy_free r' \<union> \<Union> (frames_of ` set held) = phy_free four_pages"
  using phy_pages_run [OF four_pages_inv, of "[Reserve 1, Reserve 0, Release 1]"] by simp





end
