(* ===== verification/Phy_Boot.thy ===== *)
theory Phy_Boot
  imports Phy
begin

text \<open>
  Start-up of the physical memory manager, evaluated on a small machine: from the memory areas of the
  boot loader through \<^verbatim>\<open>init_boot_mem\<close> and \<^verbatim>\<open>PhysicalMemoryRecord::new\<close> (\<^verbatim>\<open>src/src/mem/phy.rs\<close>).
\<close>

section \<open>Freeing the pieces\<close>

text \<open>A system at start-up that covers \<open>n\<close> frames.\<close>

definition covers :: "nat \<Rightarrow> buddy_system \<Rightarrow> bool" where
  "covers n b \<longleftrightarrow> starting b \<and> bs_max_order b = min (pow2_exp n) BUDDY_MAX_ORDER \<and>
     n \<le> af_tree_cnt (bs_map b) * 2 ^ bs_max_order b"

text \<open>The bytes of frame \<open>x\<close> when the first frame is at \<open>B\<close>.\<close>

definition frame_at :: "nat \<Rightarrow> nat \<Rightarrow> nat set" where
  "frame_at B x = {B + x * 4096 ..< B + Suc x * 4096}"

lemma free_piece_ok:
  assumes c: "covers n b" and m: "mb_base m = Addr (B + i * 2 ^ k * 4096)" "mb_size m = 2 ^ (12 + k)"
    and k: "k \<le> 18" "Suc i * 2 ^ k \<le> n" and B: "4096 dvd B" "B + n * 4096 \<le> RANGE_end UMASpace" "pa_base base = Addr B"
  shows "\<exists>b'. free_piece base m b = Inr b' \<and> covers n b' \<and> free_frames b' = free_frames b \<union> {i * 2 ^ k ..< Suc i * 2 ^ k}"
proof -
  have at: "node_at (bs_map b) k i"
    using c k by (intro node_at_within [where page_cnt = n]) (auto simp: covers_def starting_def BUDDY_MAX_ORDER_def)
  obtain b' where b': "free_forced b (i * 2 ^ k) k = Inr b'" "starting b'" "free_frames b' = free_frames b \<union> block k i"
    "bs_max_order b' = bs_max_order b" "af_tree_cnt (bs_map b') = af_tree_cnt (bs_map b)"
    using free_forced_starting [OF _ at] c by (auto simp: covers_def)
  have "i * 2 ^ k \<le> n" using k(2) by simp
  then have le: "B + i * 2 ^ k * 4096 \<le> RANGE_end UMASpace" using B(2) by linarith
  have "free_piece base m b = free_forced b (i * 2 ^ k) k"
    using uma_addr_sub [of "Addr B" "mb_base m"] m le B(1,3) k(1)
    by (simp add: free_piece_def is_aligned_to_def FRAME_SIZE_def FRAME_ORDER_def page_MIN_def page_usize_def u8_sub_def)
  then show ?thesis using b' c by (auto simp: covers_def block_eq)
qed

text \<open>Consecutive pieces, each at a multiple of its size from \<open>B\<close>.\<close>

lemma tiles_le: "tiles a ms e \<Longrightarrow> a \<le> e"
  by (induction ms arbitrary: a) (auto dest: add_leD1)

lemma tiles_piece_le: "tiles a ms e \<Longrightarrow> m \<in> set ms \<Longrightarrow> a \<le> usize (mb_base m) \<and> usize (mb_base m) + mb_size m \<le> e"
  by (induction ms arbitrary: a) (auto dest: tiles_le add_leD1)

lemma free_pieces_ok:
  assumes "covers n b" "tiles a ms e" "B \<le> a" "e \<le> B + n * 4096" "4096 dvd B" "B + n * 4096 \<le> RANGE_end UMASpace"
    "pa_base base = Addr B" "4096 dvd a"
    "\<forall>m \<in> set ms. \<exists>k\<le>18. mb_size m = 2 ^ (12 + k) \<and> 2 ^ (12 + k) dvd usize (mb_base m) - B"
  shows "\<exists>b'. rfold (free_piece base) ms b = Inr b' \<and> covers n b' \<and>
    free_frames b' = free_frames b \<union> {(a - B) div 4096 ..< (e - B) div 4096}"
  using assms
proof (induction ms arbitrary: a b)
  case (Cons m ms)
  obtain k where k: "k \<le> 18" "mb_size m = 2 ^ (12 + k)" "2 ^ (12 + k) dvd a - B" using Cons.prems(2,9) by auto
  then obtain i where i: "a - B = 2 ^ (12 + k) * i" by (auto elim: dvdE)
  have a: "a = B + i * 2 ^ k * 4096" using i Cons.prems(3) by (simp add: power_add mult.commute mult.left_commute)
  have e: "a + 2 ^ (12 + k) \<le> e" using Cons.prems(2) k(2) tiles_le by auto
  then have "Suc i * 2 ^ k * 4096 \<le> n * 4096" using Cons.prems(4) a by (simp add: power_add)
  then have n: "Suc i * 2 ^ k \<le> n" by simp
  obtain b1 where b1: "free_piece base m b = Inr b1" "covers n b1"
    "free_frames b1 = free_frames b \<union> {i * 2 ^ k ..< Suc i * 2 ^ k}"
    using free_piece_ok [OF Cons.prems(1) _ k(2,1) n Cons.prems(5,6,7)] Cons.prems(2) a by (cases "mb_base m") auto
  have a2: "a + 2 ^ (12 + k) = B + Suc i * 2 ^ k * 4096" using a by (simp add: power_add)
  obtain b' where b': "rfold (free_piece base) ms b1 = Inr b'" "covers n b'"
    "free_frames b' = free_frames b1 \<union> {(a + 2 ^ (12 + k) - B) div 4096 ..< (e - B) div 4096}"
    using Cons.IH [OF b1(2), of "a + 2 ^ (12 + k)"] Cons.prems k(2) a2 by auto
  have "(a - B) div 4096 = i * 2 ^ k" "(a + 2 ^ (12 + k) - B) div 4096 = Suc i * 2 ^ k" using a a2 by simp_all
  moreover have "Suc i * 2 ^ k \<le> (e - B) div 4096" using e a2 by (simp add: less_eq_div_iff_mult_less_eq)
  moreover have "i * 2 ^ k \<le> Suc i * 2 ^ k" by simp
  ultimately have "free_frames b' = free_frames b \<union> {(a - B) div 4096 ..< (e - B) div 4096}"
    using b'(3) b1(3) ivl_disj_un_two(3) [of "i * 2 ^ k" "Suc i * 2 ^ k" "(e - B) div 4096"] by (simp only: Un_assoc)
  then show ?case using b1(1) b'(1,2) by simp
qed simp

section \<open>Freeing the blocks\<close>

text \<open>A block that ends at a page and whose first whole page is, counted from \<open>B\<close>, at a multiple of every
  power of two that fits into it, up to the largest piece.\<close>

definition well_placed :: "nat \<Rightarrow> memblock \<Rightarrow> bool" where
  "well_placed B m \<longleftrightarrow> 4096 dvd mb_end m \<and>
     (\<forall>k\<le>30. 2 ^ k \<le> mb_end m - ceil_to (usize (mb_base m)) 4096 \<longrightarrow> 2 ^ k dvd ceil_to (usize (mb_base m)) 4096 - B)"

lemma frames_inside:
  assumes "4096 dvd B" "4096 dvd mb_end m" "B \<le> usize (mb_base m)"
  shows "{x. frame_at B x \<subseteq> mb_bytes m} =
    {(ceil_to (usize (mb_base m)) 4096 - B) div 4096 ..< (mb_end m - B) div 4096}"
proof -
  let ?c = "ceil_to (usize (mb_base m)) 4096"
  have c: "4096 dvd ?c" "usize (mb_base m) \<le> ?c" using ceil_to_multiple [of 4096] ceil_to_ge by auto
  have lo: "usize (mb_base m) \<le> B + x * 4096 \<longleftrightarrow> (?c - B) div 4096 \<le> x" for x
  proof -
    have "usize (mb_base m) \<le> B + x * 4096 \<longleftrightarrow> ?c \<le> B + x * 4096"
      using c(2) ceil_to_least [of 4096 "B + x * 4096" "usize (mb_base m)"] assms(1) by auto
    also have "\<dots> \<longleftrightarrow> ?c - B \<le> x * 4096" by linarith
    also have "\<dots> \<longleftrightarrow> (?c - B) div 4096 \<le> x"
      using dvd_diff_nat [OF c(1) assms(1)] by (auto elim!: dvdE)
    finally show ?thesis .
  qed
  have hi: "B + Suc x * 4096 \<le> mb_end m \<longleftrightarrow> x < (mb_end m - B) div 4096" for x
  proof -
    have "B + Suc x * 4096 \<le> mb_end m \<longleftrightarrow> Suc x * 4096 \<le> mb_end m - B"
      using assms(3) by (simp add: mb_end_def le_diff_conv2 add.commute)
    also have "\<dots> \<longleftrightarrow> Suc x \<le> (mb_end m - B) div 4096" by (simp add: less_eq_div_iff_mult_less_eq)
    finally show ?thesis by (simp add: Suc_le_eq)
  qed
  have "frame_at B x \<subseteq> mb_bytes m \<longleftrightarrow> usize (mb_base m) \<le> B + x * 4096 \<and> B + Suc x * 4096 \<le> mb_end m" for x
    by (auto simp: frame_at_def mb_bytes_def)
  then show ?thesis using lo hi by auto
qed

lemma free_block_ok:
  assumes c: "covers n b" and w: "well_placed B m" and m: "B \<le> usize (mb_base m)" "mb_end m \<le> B + n * 4096" "mb_end m < RANGE_end UMASpace"
    and B: "4096 dvd B" "B + n * 4096 \<le> RANGE_end UMASpace" "pa_base base = Addr B"
  shows "\<exists>b'. free_block_pieces base m b = Inr b' \<and> covers n b' \<and>
    free_frames b' = free_frames b \<union> {x. frame_at B x \<subseteq> mb_bytes m}"
proof -
  let ?c = "ceil_to (usize (mb_base m)) 4096"
  have cm: "4096 dvd ?c" "usize (mb_base m) \<le> ?c" using ceil_to_multiple [of 4096] ceil_to_ge by auto
  obtain sp ms where sp: "aligned_split_new m 12 30 = Inr sp" "aligned_split_items sp = Inr ms"
    and t: "tiles ?c ms (mb_end m)" and p: "\<forall>p \<in> set ms. piece_ok ?c 12 30 p"
    using aligned_split_pieces [OF m(3), of 12 30 ?c] w by (auto simp: well_placed_def)
  have "\<exists>k\<le>18. mb_size q = 2 ^ (12 + k) \<and> 2 ^ (12 + k) dvd usize (mb_base q) - B" if q: "q \<in> set ms" for q
  proof -
    obtain k where k: "12 \<le> k" "k \<le> 30" "mb_size q = 2 ^ k" "?c \<le> usize (mb_base q)" "2 ^ k dvd usize (mb_base q) - ?c"
      using p q by (auto simp: piece_ok_def)
    have "2 ^ k \<le> mb_end m - ?c" using tiles_piece_le [OF t q] k(3,4) by linarith
    then have "2 ^ k dvd ?c - B" using w k(2) by (simp add: well_placed_def)
    moreover have "usize (mb_base q) - B = (usize (mb_base q) - ?c) + (?c - B)" using k(4) cm(2) m(1) by linarith
    ultimately have "2 ^ k dvd usize (mb_base q) - B" using k(5) by simp
    then show ?thesis using k(1-3) by (intro exI [of _ "k - 12"]) simp
  qed
  moreover have "B \<le> ?c" using m(1) cm(2) by linarith
  ultimately obtain b' where "rfold (free_piece base) ms b = Inr b'" "covers n b'"
    "free_frames b' = free_frames b \<union> {(?c - B) div 4096 ..< (mb_end m - B) div 4096}"
    using free_pieces_ok [OF c t _ m(2) B cm(1)] by blast
  moreover have "free_block_pieces base m b = rfold (free_piece base) ms b"
    using sp by (simp add: free_block_pieces_def BUDDY_MAX_ORDER_def FRAME_ORDER_def page_MIN_def u8_add_def)
  moreover have "4096 dvd mb_end m" using w by (simp add: well_placed_def)
  ultimately show ?thesis using frames_inside [OF B(1) _ m(1)] by auto
qed

lemma free_blocks_ok:
  assumes "covers n b" "\<forall>m \<in> set ms. well_placed B m \<and> B \<le> usize (mb_base m) \<and> mb_end m \<le> B + n * 4096 \<and> mb_end m < RANGE_end UMASpace"
    "4096 dvd B" "B + n * 4096 \<le> RANGE_end UMASpace" "pa_base base = Addr B"
  shows "\<exists>b'. rfold (free_block_pieces base) ms b = Inr b' \<and> covers n b' \<and>
    free_frames b' = free_frames b \<union> {x. \<exists>m \<in> set ms. frame_at B x \<subseteq> mb_bytes m}"
  using assms
proof (induction ms arbitrary: b)
  case (Cons m ms)
  obtain b1 where b1: "free_block_pieces base m b = Inr b1" "covers n b1"
    "free_frames b1 = free_frames b \<union> {x. frame_at B x \<subseteq> mb_bytes m}"
    using free_block_ok [OF Cons.prems(1) _ _ _ _ Cons.prems(3-5), of m] Cons.prems(2) by auto
  obtain b' where b': "rfold (free_block_pieces base) ms b1 = Inr b'" "covers n b'"
    "free_frames b' = free_frames b1 \<union> {x. \<exists>m \<in> set ms. frame_at B x \<subseteq> mb_bytes m}"
    using Cons.IH [OF b1(2)] Cons.prems(2-5) by auto
  then show ?case using b1 by auto
qed simp

section \<open>Start-up\<close>

text \<open>The first page and the number of pages of the managed range, and what the boot-time allocator gives
  out for them: two bytes for each frame, and the forest of the buddy system.\<close>

definition managed_base :: "addr_range \<Rightarrow> nat" where
  "managed_base r = usize (ar_base r) - usize (ar_base r) mod 4096"

definition managed_cnt :: "addr_range \<Rightarrow> nat" where
  "managed_cnt r = ceil_to (ar_size r + usize (ar_base r) mod 4096) 4096 div 4096"

definition boot_used :: "nat \<Rightarrow> nat" where
  "boot_used n = 2 * n + map_bytes n"

lemma managed_bounds:
  "managed_base r \<le> usize (ar_base r)" "4096 dvd managed_base r"
  "usize (ar_base r) + ar_size r \<le> managed_base r + managed_cnt r * 4096"
proof -
  let ?b = "usize (ar_base r)"
  show "managed_base r \<le> ?b" by (simp add: managed_base_def)
  show "4096 dvd managed_base r" by (simp add: managed_base_def minus_mod_eq_mult_div)
  have "ar_size r + ?b mod 4096 \<le> managed_cnt r * 4096"
    using ceil_to_ge [of "ar_size r + ?b mod 4096" 4096] ceil_to_multiple [of 4096 "ar_size r + ?b mod 4096"]
    by (simp add: managed_cnt_def)
  moreover have "?b = managed_base r + ?b mod 4096" by (simp add: managed_base_def)
  ultimately show "?b + ar_size r \<le> managed_base r + managed_cnt r * 4096" by linarith
qed

lemma boot_allocate_ok:
  assumes "\<not> ms_is_frozen s" "ms_partial_block s = Some p" "0 < z" "ms_offset s + z \<le> mb_size p" "mb_size p \<le> RANGE_end UMASpace"
  shows "\<exists>a. boot_allocate \<lparr>l_size = z, l_align = 1\<rparr> s = Inr (Some a, s\<lparr>ms_offset := ms_offset s + z\<rparr>)"
proof -
  have "ms_offset s < 2 ^ 46" "ms_offset s + z < usize_limit"
    using assms uma_limits(1) by (simp_all add: uma_end usize_limit_def)
  then show ?thesis using assms
    by (simp add: boot_allocate_def memblock_reserve.simps [of _ s] next_multiple_of_def uma_end p2v_def PhysicalRemapSpace_def
        usize_limit_def)
qed

text \<open>The record that \<^verbatim>\<open>new\<close> makes when what it gives out fits into the partial block.\<close>

lemma phy_new_ok:
  assumes s: "\<not> ms_is_frozen s" "ms_offset s = 0" "ms_partial_block s = Some p" "mb_size p \<le> RANGE_end UMASpace"
      "range_in UMASpace (ms_managed_range s)" "0 < ar_size (ms_managed_range s)"
    and B: "B = managed_base (ms_managed_range s)" "n = managed_cnt (ms_managed_range s)" "B + n * 4096 < RANGE_end UMASpace"
    and fit: "boot_used n < mb_size p" and fz: "memblock_freeze (s\<lparr>ms_offset := boot_used n\<rparr>) = Inr s'"
    and ms: "\<forall>m \<in> set (ms_free_blocks s'). well_placed B m \<and> B \<le> usize (mb_base m) \<and> mb_end m \<le> B + n * 4096"
  shows "\<exists>r. phy_new mem s = Inr (r, s') \<and> phy_inv r \<and> pa_base (ph_base r) = Addr B \<and> length (ph_frames r) = n \<and>
    free_frames (ph_buddy r) = {x. \<exists>m \<in> set (ms_free_blocks s'). frame_at B x \<subseteq> mb_bytes m}"
proof -
  let ?base = "\<lparr>pa_base = Addr B, pa_page_size = Small\<rparr>"
  have pages: "overlapped_pages UMASpace (ms_managed_range s) Small = Inr \<lparr>pr_base = ?base, pr_len = n\<rparr>"
    unfolding uma.overlapped_pages_ok [OF s(5)] by (simp add: B managed_base_def managed_cnt_def page_usize_def)
  have n: "0 < n" "n \<le> 2 ^ 40" using managed_bounds(1,3) [of "ms_managed_range s"] s(6) B by (auto simp: uma_end)
  have lay: "layout_array 2 1 n = Some \<lparr>l_size = 2 * n, l_align = 1\<rparr>" using n(2) by (simp add: layout_array_def isize_limit_def)
  obtain a1 where a1: "boot_allocate \<lparr>l_size = 2 * n, l_align = 1\<rparr> s = Inr (Some a1, s\<lparr>ms_offset := 2 * n\<rparr>)"
    using boot_allocate_ok [OF s(1,3), of "2 * n"] s(2,4) n(1) fit by (auto simp: boot_used_def)
  have "0 < map_bytes n" using n(1) ceil_to_ge [of n] by (auto simp: map_bytes_def intro: less_le_trans)
  then obtain a2 where a2: "boot_allocate \<lparr>l_size = map_bytes n, l_align = 1\<rparr> (s\<lparr>ms_offset := 2 * n\<rparr>) =
      Inr (Some a2, s\<lparr>ms_offset := boot_used n\<rparr>)"
    using boot_allocate_ok [of "s\<lparr>ms_offset := 2 * n\<rparr>" p "map_bytes n"] s fit by (auto simp: boot_used_def)
  obtain b where b: "buddy_new n boot_allocate (s\<lparr>ms_offset := 2 * n\<rparr>) = Inr (Some b, s\<lparr>ms_offset := boot_used n\<rparr>)"
    "covers n b" "free_frames b = {}"
    using buddy_new_ok [of n boot_allocate, OF n a2] by (auto simp: covers_def)
  have ends: "\<forall>m \<in> set (ms_free_blocks s'). well_placed B m \<and> B \<le> usize (mb_base m) \<and> mb_end m \<le> B + n * 4096 \<and>
      mb_end m < RANGE_end UMASpace" using ms B(3) by (meson le_less_trans)
  obtain b' where b': "rfold (free_block_pieces ?base) (ms_free_blocks s') b = Inr b'" "covers n b'"
    "free_frames b' = {x. \<exists>m \<in> set (ms_free_blocks s'). frame_at B x \<subseteq> mb_bytes m}"
    using free_blocks_ok [OF b(2) ends _ less_imp_le [OF B(3)], of ?base] managed_bounds(2) b(3) B(1) by auto
  have inside: "free_frames b' \<subseteq> {..<n}"
  proof
    fix x assume "x \<in> free_frames b'"
    then obtain m where m: "m \<in> set (ms_free_blocks s')" "frame_at B x \<subseteq> mb_bytes m" using b'(3) by auto
    have "B + x * 4096 \<in> frame_at B x" by (simp add: frame_at_def)
    then have "B + x * 4096 < B + n * 4096" using m ms by (force simp: mb_bytes_def)
    then show "x \<in> {..<n}" by simp
  qed
  let ?r = "\<lparr>ph_frames = map mem [0..<n], ph_base = ?base, ph_buddy = b'\<rparr>"
  have "phy_new mem s = Inr (?r, s')"
    by (simp add: phy_new_def pages Frame_layout_def lay [simplified] a1 [simplified] b(1) fz b'(1))
  moreover have "phy_inv ?r"
    using b'(2) inside B managed_bounds(2) by (simp add: phy_inv_def covers_def starting_def)
  ultimately show ?thesis using b'(3) by (intro exI [of _ ?r]) simp
qed

lemma boot_record_ok:
  assumes areas: "\<forall>a \<in> set areas. area_ok a" "usize kend \<le> RANGE_end UMASpace"
      "sorted_wrt (\<lambda>a b. usable kend a \<inter> usable kend b = {}) areas"
      "length areas \<le> MEMBLOCKS_LEN" "X = \<Union> (usable kend ` set areas)" "X \<noteq> {}"
    and s: "memblock_system_init kend areas = Inr s" "ms_partial_block s = Some p"
    and B: "B = managed_base (ms_managed_range s)" "n = managed_cnt (ms_managed_range s)" "B + n * 4096 < RANGE_end UMASpace"
    and fit: "boot_used n < mb_size p" and fz: "memblock_freeze (s\<lparr>ms_offset := boot_used n\<rparr>) = Inr s'"
    and ms: "\<forall>m \<in> set (ms_free_blocks s'). well_placed B m"
  shows "\<exists>r. rbind (init_boot_mem kend areas) (phy_new mem) = Inr (r, s') \<and> phy_inv r \<and>
    pa_base (ph_base r) = Addr B \<and> length (ph_frames r) = n \<and>
    free_frames (ph_buddy r) = {x. \<exists>m \<in> set (ms_free_blocks s'). frame_at B x \<subseteq> mb_bytes m} \<and>
    (\<forall>x \<in> free_frames (ph_buddy r). frame_at B x \<subseteq> X \<and> frame_at B x \<inter> blocks_bytes (ms_reserved_blocks s') = {})"
proof -
  let ?r = "ms_managed_range s"
  have ok: "blocks_ok (ms_free_blocks s @ [p])" "blocks_bytes (ms_free_blocks s @ [p]) = X" "range_bytes ?r = {Min X .. Max X}"
    "range_in UMASpace ?r" "\<not> ms_is_frozen s" "ms_offset s = 0" "ms_reserved_blocks s = []"
    "length (ms_free_blocks s) < MEMBLOCKS_LEN"
    using memblock_init_ok [OF areas] s by auto
  have p: "block_ok p" "mb_size p \<le> RANGE_end UMASpace" "blocks_ok (ms_free_blocks s)"
    using ok(1) by (auto simp: blocks_ok_def sorted_wrt_append block_ok_def mb_end_def)
  have "mb_end x < usize (mb_base p)" if "x \<in> set (ms_free_blocks s)" for x
    using ok(1) that by (simp add: blocks_ok_def sorted_wrt_append)
  then have apart: "mb_bytes p \<inter> blocks_bytes (ms_free_blocks s) = {}"
    by (force simp: blocks_bytes_def mb_bytes_def)
  have "finite X" using ok(2) by (auto simp: blocks_bytes_def mb_bytes_def)
  then have "X \<subseteq> {Min X .. Max X}" by (auto intro: Min_le Max_ge)
  then have "X \<subseteq> range_bytes ?r" by (simp only: ok(3))
  then have X: "X \<subseteq> {usize (ar_base ?r) ..< usize (ar_base ?r) + ar_size ?r}" "0 < ar_size ?r"
    using areas(6) by (auto simp: range_bytes_def)
  have pos: "0 < boot_used n" using managed_bounds(1,3) [of ?r] X(2) B(1,2) by (simp add: boot_used_def)
  have none: "blocks_ok []" "blocks_bytes [] = {}" "length ([] :: memblock list) < MEMBLOCKS_LEN"
    by (simp_all add: blocks_ok_def blocks_bytes_def MEMBLOCKS_LEN_def)
  have free: "blocks_ok (ms_free_blocks s')"
      "blocks_bytes (ms_free_blocks s') = blocks_bytes (ms_free_blocks s) \<union> {usize (mb_base p) + boot_used n ..< mb_end p}"
      "blocks_bytes (ms_reserved_blocks s') = {usize (mb_base p) ..< usize (mb_base p) + boot_used n}"
    using memblock_freeze_ok [of "s\<lparr>ms_offset := boot_used n\<rparr>" p] ok s(2) p apart pos fit fz none
    by auto
  have sub: "blocks_bytes (ms_free_blocks s') \<subseteq> X" using free(2) ok(2) by (auto simp: blocks_bytes_def mb_bytes_def)
  have "B \<le> usize (mb_base m) \<and> mb_end m \<le> B + n * 4096" if m: "m \<in> set (ms_free_blocks s')" for m
  proof -
    have "mb_bytes m \<subseteq> X" "usize (mb_base m) < mb_end m"
      using m sub free(1) by (auto simp: blocks_bytes_def blocks_ok_def block_ok_def mb_end_def)
    then have "usize (mb_base m) \<in> X" "mb_end m - 1 \<in> X" by (auto simp: mb_bytes_def)
    then have "usize (ar_base ?r) \<le> usize (mb_base m)" "mb_end m - 1 < usize (ar_base ?r) + ar_size ?r" using X(1) by auto
    then show ?thesis using managed_bounds(1,3) [of ?r] B(1,2) by linarith
  qed
  then obtain r where r: "phy_new mem s = Inr (r, s')" "phy_inv r" "pa_base (ph_base r) = Addr B" "length (ph_frames r) = n"
    "free_frames (ph_buddy r) = {x. \<exists>m \<in> set (ms_free_blocks s'). frame_at B x \<subseteq> mb_bytes m}"
    using phy_new_ok [OF ok(5,6) s(2) p(2) ok(4) X(2) B fit fz, of mem] ms by blast
  have "blocks_bytes (ms_reserved_blocks s') \<subseteq> mb_bytes p" using free(3) fit by (auto simp: mb_bytes_def mb_end_def)
  then have "blocks_bytes (ms_free_blocks s) \<inter> blocks_bytes (ms_reserved_blocks s') = {}" using apart by blast
  then have disj: "blocks_bytes (ms_free_blocks s') \<inter> blocks_bytes (ms_reserved_blocks s') = {}"
    unfolding free(2,3) by auto
  have "frame_at B x \<subseteq> X \<and> frame_at B x \<inter> blocks_bytes (ms_reserved_blocks s') = {}" if x: "x \<in> free_frames (ph_buddy r)" for x
  proof -
    obtain m where "m \<in> set (ms_free_blocks s')" "frame_at B x \<subseteq> mb_bytes m" using r(5) x by auto
    then have "frame_at B x \<subseteq> blocks_bytes (ms_free_blocks s')" by (auto simp: blocks_bytes_def)
    with sub disj show ?thesis by blast
  qed
  moreover have "rbind (init_boot_mem kend areas) (phy_new mem) = Inr (r, s')" using r(1) s(1) by (simp add: init_boot_mem_def)
  ultimately show ?thesis using r(2-) by blast
qed

text \<open>A memory map from which start-up succeeds, and the boot-time system it ends with.\<close>

definition boots :: "addr \<Rightarrow> memory_area list \<Rightarrow> memblock_system \<Rightarrow> bool" where
  "boots kend areas s' \<longleftrightarrow> (\<forall>a \<in> set areas. area_ok a) \<and> usize kend \<le> RANGE_end UMASpace \<and>
     sorted_wrt (\<lambda>a b. usable kend a \<inter> usable kend b = {}) areas \<and> length areas \<le> MEMBLOCKS_LEN \<and>
     \<Union> (usable kend ` set areas) \<noteq> {} \<and>
     (\<exists>s p. memblock_system_init kend areas = Inr s \<and> ms_partial_block s = Some p \<and>
        (let B = managed_base (ms_managed_range s); n = managed_cnt (ms_managed_range s) in
           B + n * 4096 < RANGE_end UMASpace \<and> boot_used n < mb_size p \<and>
           memblock_freeze (s\<lparr>ms_offset := boot_used n\<rparr>) = Inr s' \<and> (\<forall>m \<in> set (ms_free_blocks s'). well_placed B m)))"

lemma bootsE:
  assumes "boots kend areas s'"
  obtains s r where "init_boot_mem kend areas = Inr s" "range_in UMASpace (ms_managed_range s)" "0 < ar_size (ms_managed_range s)"
    "phy_new mem s = Inr (r, s')" "phy_inv r"
proof -
  obtain s p where areas: "\<forall>a \<in> set areas. area_ok a" "usize kend \<le> RANGE_end UMASpace"
      "sorted_wrt (\<lambda>a b. usable kend a \<inter> usable kend b = {}) areas" "length areas \<le> MEMBLOCKS_LEN"
      "\<Union> (usable kend ` set areas) \<noteq> {}"
    and s: "memblock_system_init kend areas = Inr s" "ms_partial_block s = Some p"
    and b: "managed_base (ms_managed_range s) + managed_cnt (ms_managed_range s) * 4096 < RANGE_end UMASpace"
      "boot_used (managed_cnt (ms_managed_range s)) < mb_size p"
      "memblock_freeze (s\<lparr>ms_offset := boot_used (managed_cnt (ms_managed_range s))\<rparr>) = Inr s'"
      "\<forall>m \<in> set (ms_free_blocks s'). well_placed (managed_base (ms_managed_range s)) m"
    using assms unfolding boots_def Let_def by blast
  obtain r where "rbind (init_boot_mem kend areas) (phy_new mem) = Inr (r, s')" "phy_inv r"
    using boot_record_ok [OF areas(1-4) refl areas(5) s refl refl b, of mem] by blast
  then have r: "phy_new mem s = Inr (r, s')" "phy_inv r" using s(1) by (simp_all add: init_boot_mem_def)
  have m: "range_in UMASpace (ms_managed_range s)" "range_bytes (ms_managed_range s) =
      {Min (\<Union> (usable kend ` set areas)) .. Max (\<Union> (usable kend ` set areas))}" "ms_free_blocks s @ [p] \<noteq> []"
      "finite (\<Union> (usable kend ` set areas))"
    using memblock_init_ok [OF areas(1-4) refl areas(5)] s by (auto simp: usable_def)
  have "Min (\<Union> (usable kend ` set areas)) \<le> Max (\<Union> (usable kend ` set areas))"
    using Min_in [OF m(4) areas(5)] Max_ge [OF m(4)] by blast
  then have "range_bytes (ms_managed_range s) \<noteq> {}" unfolding m(2) by simp
  then have "0 < ar_size (ms_managed_range s)" by (simp add: range_bytes_def)
  then show ?thesis using that s(1) m(1) r by (simp add: init_boot_mem_def)
qed

section \<open>Properties\<close>


text \<open>Two MiB after the kernel, and two pages further up for the tables.\<close>

definition two_areas :: "memory_area list" where
  "two_areas = [\<lparr>start_address = 0x100000, area_size = 0x300000, area_typ = Available\<rparr>,
     \<lparr>start_address = 0x500000, area_size = 0x2000, area_typ = Available\<rparr>]"

definition two_blocks :: memblock_system where
  "two_blocks = \<lparr>ms_free_blocks = [free_mb 0x200000 0x200000], ms_reserved_blocks = [],
     ms_partial_block = Some (free_mb 0x500000 0x2000), ms_offset = 0,
     ms_managed_range = \<lparr>ar_base = Addr 0x200000, ar_size = 0x302000\<rparr>, ms_is_frozen = False\<rparr>"

definition two_frozen :: memblock_system where
  "two_frozen = two_blocks\<lparr>ms_offset := 3588, ms_partial_block := None,
     ms_free_blocks := [free_mb 0x200000 0x200000, free_mb 0x500E04 0x11FC],
     ms_reserved_blocks := [\<lparr>mb_base = Addr 0x500000, mb_size = 3588, mb_typ = Reserved\<rparr>]\<rparr>"

lemma two_areas_boot:
  "memblock_system_init (Addr 0x200000) two_areas = Inr two_blocks"
  "managed_base (ms_managed_range two_blocks) = 0x200000" "managed_cnt (ms_managed_range two_blocks) = 770"
  "boot_used 770 = 3588" "memblock_freeze (two_blocks\<lparr>ms_offset := 3588\<rparr>) = Inr two_frozen"
  by code_simp+

lemma two_frozen_placed: "\<forall>m \<in> set (ms_free_blocks two_frozen). well_placed 0x200000 m"
proof -
  have "2 ^ k dvd (0x301000 :: nat)" if "2 ^ k \<le> (0x1000 :: nat)" for k
  proof -
    have "k \<le> 12" using that power_le_imp_le_exp [of "2 :: nat" k 12] by simp
    then have "2 ^ k dvd (2 ^ 12 :: nat)" by (rule le_imp_power_dvd)
    also have "(2 ^ 12 :: nat) dvd 0x301000" by simp
    finally show ?thesis .
  qed
  then show ?thesis by (simp add: two_frozen_def well_placed_def mb_end_def ceil_to_def)
qed

lemma two_areas_ok:
  "\<forall>a \<in> set two_areas. area_ok a" "usize (Addr 0x200000) \<le> RANGE_end UMASpace"
  "sorted_wrt (\<lambda>a b. usable (Addr 0x200000) a \<inter> usable (Addr 0x200000) b = {}) two_areas"
  "length two_areas \<le> MEMBLOCKS_LEN" "\<Union> (usable (Addr 0x200000) ` set two_areas) \<noteq> {}"
proof -
  have "0x200000 \<in> \<Union> (usable (Addr 0x200000) ` set two_areas)" by (simp add: two_areas_def usable_def)
  then show "\<Union> (usable (Addr 0x200000) ` set two_areas) \<noteq> {}" by blast
qed (auto simp: two_areas_def area_ok_def uma_end usable_def MEMBLOCKS_LEN_def)

lemma two_areas_fit:
  "ms_partial_block two_blocks = Some (free_mb 0x500000 0x2000)" "0x200000 + 770 * 4096 < RANGE_end UMASpace"
  "boot_used 770 < mb_size (free_mb 0x500000 0x2000)" "memblock_freeze (two_blocks\<lparr>ms_offset := boot_used 770\<rparr>) = Inr two_frozen"
  using two_areas_boot(4,5) by (simp_all add: two_blocks_def uma_end)

lemma two_areas_boots: "boots (Addr 0x200000) two_areas two_frozen"
  unfolding boots_def Let_def
  using two_areas_ok two_areas_boot(1-3) two_areas_fit two_frozen_placed by metis


section \<open>A small machine\<close>

text \<open>Start-up on a machine with 32 KiB of memory after the kernel.\<close>

definition small_machine :: "(phy_record \<times> boot_memory_manager) res" where
  "small_machine =
     rbind (init_boot_mem (Addr 0x200000)
       [\<lparr>start_address = 0x100000, area_size = 0x108000, area_typ = Available\<rparr>])
       (phy_new (\<lambda>_. \<lparr>fr_order = 0, fr_flag = 0\<rparr>))"


end
