(* ===== verification/Paging_Entry.thy ===== *)
theory Paging_Entry
  imports Mem_Addr
begin

text \<open>
  Page table entries of \<^verbatim>\<open>src/src/mem/paging/entry.rs\<close>, with the levels of \<^verbatim>\<open>paging.rs\<close>.

  A raw entry is a 64-bit word.  An \<^verbatim>\<open>EntryRef\<close> is a level and a place holding a raw entry; the
  operations here take the level and the raw entry and return the raw entry they leave in place.
\<close>

section \<open>Levels\<close>

datatype level = CR3 | PML4 | PDPT | PD | PT

fun page_table_idx_range :: "level \<Rightarrow> (nat \<times> nat) res" where
  "page_table_idx_range CR3 = Inl UnreachableCode"
| "page_table_idx_range PML4 = Inr (39, 48)"
| "page_table_idx_range PDPT = Inr (30, 39)"
| "page_table_idx_range PD = Inr (21, 30)"
| "page_table_idx_range PT = Inr (12, 21)"

fun page_idx_range :: "level \<Rightarrow> (nat \<times> nat) res" where
  "page_idx_range PDPT = Inr (0, 30)"
| "page_idx_range PD = Inr (0, 21)"
| "page_idx_range PT = Inr (0, 12)"
| "page_idx_range _ = Inl UnreachableCode"

fun level_page_size :: "level \<Rightarrow> page_size res" where
  "level_page_size PT = Inr Small"
| "level_page_size PD = Inr Large"
| "level_page_size PDPT = Inr Huge"
| "level_page_size _ = Inl UnreachableCode"

fun from_page_size :: "page_size \<Rightarrow> level" where
  "from_page_size Small = PT"
| "from_page_size Large = PD"
| "from_page_size Huge = PDPT"

fun next_level :: "level \<Rightarrow> level option" where
  "next_level CR3 = Some PML4"
| "next_level PML4 = Some PDPT"
| "next_level PDPT = Some PD"
| "next_level PD = Some PT"
| "next_level PT = None"

fun prev_level :: "level \<Rightarrow> level option" where
  "prev_level CR3 = None"
| "prev_level PML4 = Some CR3"
| "prev_level PDPT = Some PML4"
| "prev_level PD = Some PDPT"
| "prev_level PT = Some PD"

section \<open>Flags\<close>

datatype flag = Present | ReadWrite | UserSuper | PageSize | Global

definition cr3_idx :: "flag \<Rightarrow> bool \<Rightarrow> bool \<Rightarrow> nat option" where
  "cr3_idx f present_bit page_size_bit = None"

fun pml4_idx :: "flag \<Rightarrow> bool \<Rightarrow> bool \<Rightarrow> nat option" where
  "pml4_idx Present False _ = Some 0"
| "pml4_idx _ False _ = None"
| "pml4_idx Present True _ = Some 0"
| "pml4_idx ReadWrite True _ = Some 1"
| "pml4_idx UserSuper True _ = Some 2"
| "pml4_idx _ True _ = None"

fun pdpt_idx :: "flag \<Rightarrow> bool \<Rightarrow> bool \<Rightarrow> nat option" where
  "pdpt_idx Present False _ = Some 0"
| "pdpt_idx _ False _ = None"
| "pdpt_idx Present True True = Some 0"
| "pdpt_idx ReadWrite True True = Some 1"
| "pdpt_idx UserSuper True True = Some 2"
| "pdpt_idx PageSize True True = Some 7"
| "pdpt_idx Global True True = Some 8"
| "pdpt_idx Present True False = Some 0"
| "pdpt_idx ReadWrite True False = Some 1"
| "pdpt_idx UserSuper True False = Some 2"
| "pdpt_idx PageSize True False = Some 7"
| "pdpt_idx _ True False = None"

fun pd_idx :: "flag \<Rightarrow> bool \<Rightarrow> bool \<Rightarrow> nat option" where
  "pd_idx Present False _ = Some 0"
| "pd_idx _ False _ = None"
| "pd_idx Present True True = Some 0"
| "pd_idx ReadWrite True True = Some 1"
| "pd_idx UserSuper True True = Some 2"
| "pd_idx PageSize True True = Some 7"
| "pd_idx Global True True = Some 8"
| "pd_idx Present True False = Some 0"
| "pd_idx ReadWrite True False = Some 1"
| "pd_idx UserSuper True False = Some 2"
| "pd_idx PageSize True False = Some 7"
| "pd_idx _ True False = None"

fun pt_idx :: "flag \<Rightarrow> bool \<Rightarrow> bool \<Rightarrow> nat option" where
  "pt_idx Present False _ = Some 0"
| "pt_idx _ False _ = None"
| "pt_idx Present True _ = Some 0"
| "pt_idx ReadWrite True _ = Some 1"
| "pt_idx UserSuper True _ = Some 2"
| "pt_idx Global True _ = Some 8"
| "pt_idx _ True _ = None"

fun flag_idx :: "flag \<Rightarrow> level \<Rightarrow> bool \<Rightarrow> bool \<Rightarrow> nat option" where
  "flag_idx f CR3 p s = cr3_idx f p s"
| "flag_idx f PML4 p s = pml4_idx f p s"
| "flag_idx f PDPT p s = pdpt_idx f p s"
| "flag_idx f PD p s = pd_idx f p s"
| "flag_idx f PT p s = pt_idx f p s"

section \<open>Entries\<close>

type_synonym raw_entry = "64 word"

definition raw_default :: raw_entry where "raw_default = 0"

datatype entry_target = NoTarget | Table level addr | Page level addr

definition raw_bit :: "raw_entry \<Rightarrow> nat option \<Rightarrow> bool" where
  "raw_bit raw i = (case i of None \<Rightarrow> False | Some n \<Rightarrow> bit raw n)"

definition get_flag_idx :: "level \<Rightarrow> raw_entry \<Rightarrow> flag \<Rightarrow> nat option" where
  "get_flag_idx l raw f =
     (let present_bit = raw_bit raw (flag_idx Present l False False);
          page_size_bit = raw_bit raw (flag_idx PageSize l present_bit False)
      in flag_idx f l present_bit page_size_bit)"

definition entry_flag :: "level \<Rightarrow> raw_entry \<Rightarrow> flag \<Rightarrow> bool option" where
  "entry_flag l raw f = map_option (bit raw) (get_flag_idx l raw f)"

definition entry_target :: "level \<Rightarrow> raw_entry \<Rightarrow> entry_target res" where
  "entry_target l raw =
     (if \<not> unwrap_or True (entry_flag l raw Present) then Inr NoTarget
      else
        let is_page = entry_flag l raw PageSize;
            mask = (if (l = PDPT \<or> l = PD) \<and> is_page = Some True then 0x0000FFFFFFFFE000
                    else 0x0000FFFFFFFFF000) in
        rbind (addr_new UMASpace (unat (raw AND mask))) (\<lambda>a.
        case (l, is_page) of
          (PT, None) \<Rightarrow> Inr (Page l a)
        | (PDPT, Some True) \<Rightarrow> Inr (Page l a)
        | (PD, Some True) \<Rightarrow> Inr (Page l a)
        | (CR3, None) \<Rightarrow> rbind (rexpect (next_level l)) (\<lambda>n. Inr (Table n a))
        | (PML4, None) \<Rightarrow> rbind (rexpect (next_level l)) (\<lambda>n. Inr (Table n a))
        | (PDPT, Some False) \<Rightarrow> rbind (rexpect (next_level l)) (\<lambda>n. Inr (Table n a))
        | (PD, Some False) \<Rightarrow> rbind (rexpect (next_level l)) (\<lambda>n. Inr (Table n a))
        | _ \<Rightarrow> Inl UnreachableCode))"

definition is_present :: "level \<Rightarrow> raw_entry \<Rightarrow> bool res" where
  "is_present l raw = rbind (entry_target l raw) (\<lambda>t. Inr (t \<noteq> NoTarget))"

definition is_page :: "level \<Rightarrow> raw_entry \<Rightarrow> bool res" where
  "is_page l raw = rbind (entry_target l raw) (\<lambda>t. Inr (case t of Page _ _ \<Rightarrow> True | _ \<Rightarrow> False))"

definition is_table :: "level \<Rightarrow> raw_entry \<Rightarrow> bool res" where
  "is_table l raw = rbind (entry_target l raw) (\<lambda>t. Inr (case t of Table _ _ \<Rightarrow> True | _ \<Rightarrow> False))"

definition TABLE_SIZE :: nat where "TABLE_SIZE = 4 * KiB"
definition TABLE_LEN :: nat where "TABLE_LEN = TABLE_SIZE div 8"
definition TABLE_ALIGNMENT :: nat where "TABLE_ALIGNMENT = TABLE_SIZE"

text \<open>The alignment an entry asks of its address; \<open>None\<close> is the early return for an entry without
  a target.\<close>

definition target_align :: "level \<Rightarrow> entry_target \<Rightarrow> nat option res" where
  "target_align l t =
     (case t of NoTarget \<Rightarrow> Inr None
      | Table _ _ \<Rightarrow> Inr (Some TABLE_ALIGNMENT)
      | Page _ _ \<Rightarrow>
        (case l of PDPT \<Rightarrow> Inr (Some (1 * GiB)) | PD \<Rightarrow> Inr (Some (2 * MiB)) | PT \<Rightarrow> Inr (Some (4 * KiB))
         | _ \<Rightarrow> Inl UnreachableCode))"

definition set_addr :: "level \<Rightarrow> raw_entry \<Rightarrow> addr \<Rightarrow> (bool \<times> raw_entry) res" where
  "set_addr l raw a =
     rbind (entry_target l raw) (\<lambda>t.
     rbind (target_align l t) (\<lambda>al.
     case al of None \<Rightarrow> Inr (False, raw)
     | Some align \<Rightarrow>
       rbind (is_aligned_to a align) (\<lambda>ok.
       if \<not> ok then Inr (False, raw)
       else rbind (usize_sub (2 ^ 48) align) (\<lambda>m.
            let mask = NOT (word_of_nat m) in
            Inr (True, (raw AND mask) OR word_of_nat (usize a))))))"

definition has_flag :: "flag \<Rightarrow> flag list \<Rightarrow> bool" where
  "has_flag f flags \<longleftrightarrow> f \<in> set flags"

text \<open>The loop of \<^verbatim>\<open>set_flags\<close>: \<open>None\<close> is the failure that restores the entry.\<close>

fun set_flags_loop :: "level \<Rightarrow> flag list \<Rightarrow> bool \<Rightarrow> raw_entry \<Rightarrow> raw_entry option" where
  "set_flags_loop l [] v raw = Some raw"
| "set_flags_loop l (f # flags) v raw =
     (case get_flag_idx l raw f of None \<Rightarrow> None
      | Some i \<Rightarrow> set_flags_loop l flags v ((if v then set_bit else unset_bit) i raw))"

definition set_flags :: "level \<Rightarrow> raw_entry \<Rightarrow> flag list \<Rightarrow> bool \<Rightarrow> bool \<times> raw_entry" where
  "set_flags l raw flags v =
     (if has_flag Present flags \<or> has_flag PageSize flags then (False, raw)
      else case set_flags_loop l flags v raw of None \<Rightarrow> (False, raw) | Some raw' \<Rightarrow> (True, raw'))"

text \<open>The flag bits that \<^verbatim>\<open>reinit\<close> collects.\<close>

fun reinit_data :: "level \<Rightarrow> bool \<Rightarrow> bool \<Rightarrow> flag list \<Rightarrow> raw_entry \<Rightarrow> raw_entry option" where
  "reinit_data l p s [] data = Some data"
| "reinit_data l p s (f # flags) data =
     (case flag_idx f l p s of None \<Rightarrow> None | Some i \<Rightarrow> reinit_data l p s flags (set_bit i data))"

definition reinit :: "level \<Rightarrow> raw_entry \<Rightarrow> addr \<Rightarrow> flag list \<Rightarrow> (bool \<times> raw_entry) res" where
  "reinit l raw a flags =
     (case reinit_data l (has_flag Present flags) (has_flag PageSize flags) flags 0 of
        None \<Rightarrow> Inr (False, raw)
      | Some data \<Rightarrow> set_addr l data a)"

definition uninit :: "raw_entry \<Rightarrow> raw_entry" where
  "uninit raw = raw_default"

section \<open>What an entry refers to\<close>

lemma entry_flag_Present: "entry_flag l raw Present = (if l = CR3 then None else Some (bit raw 0))"
  by (cases l; cases "bit raw 0"; cases "bit raw 7")
    (simp_all add: entry_flag_def get_flag_idx_def raw_bit_def cr3_idx_def Let_def)

lemma entry_flag_PageSize:
  "bit raw 0 \<Longrightarrow> entry_flag l raw PageSize = (if l = PDPT \<or> l = PD then Some (bit raw 7) else None)"
  by (cases l; cases "bit raw 7")
    (simp_all add: entry_flag_def get_flag_idx_def raw_bit_def cr3_idx_def Let_def)

lemma entry_flag_CR3: "entry_flag CR3 raw f = None"
  by (simp add: entry_flag_def get_flag_idx_def cr3_idx_def Let_def)

text \<open>Whether an entry refers to a page, and the address bits of an entry.\<close>

definition page_entry :: "level \<Rightarrow> raw_entry \<Rightarrow> bool" where
  "page_entry l raw \<longleftrightarrow> l = PT \<or> (l = PDPT \<or> l = PD) \<and> bit raw 7"

definition addr_bits :: "level \<Rightarrow> raw_entry \<Rightarrow> nat" where
  "addr_bits l raw = unat (raw AND
     (if l \<noteq> PT \<and> page_entry l raw then 0x0000FFFFFFFFE000 else 0x0000FFFFFFFFF000))"

lemma entry_target_eq:
  "entry_target l raw =
     (if l \<noteq> CR3 \<and> \<not> bit raw 0 then Inr NoTarget
      else rbind (addr_new UMASpace (addr_bits l raw)) (\<lambda>a.
           Inr (if page_entry l raw then Page l a else Table (the (next_level l)) a)))"
proof (cases "l = CR3")
  case True
  then show ?thesis
    by (simp add: entry_target_def entry_flag_CR3 addr_bits_def page_entry_def Let_def)
next
  case False
  then show ?thesis
    by (cases l; cases "bit raw 0"; cases "bit raw 7")
      (simp_all add: entry_target_def entry_flag_Present entry_flag_PageSize addr_bits_def
        page_entry_def Let_def)
qed

section \<open>Building an entry\<close>

text \<open>The bit of a flag, and the flags an entry of a given kind accepts.\<close>

fun flag_bit :: "flag \<Rightarrow> nat" where
  "flag_bit Present = 0"
| "flag_bit ReadWrite = 1"
| "flag_bit UserSuper = 2"
| "flag_bit PageSize = 7"
| "flag_bit Global = 8"

definition flags_ok :: "level \<Rightarrow> flag list \<Rightarrow> bool" where
  "flags_ok l flags \<longleftrightarrow> (if l = CR3 then flags = [] else Present \<in> set flags) \<and>
     (PageSize \<in> set flags \<longrightarrow> l = PDPT \<or> l = PD) \<and>
     (Global \<in> set flags \<longrightarrow> l = PT \<or> PageSize \<in> set flags)"

lemma flag_idx_ok:
  assumes "flags_ok l flags" "f \<in> set flags"
  shows "flag_idx f l True (has_flag PageSize flags) = Some (flag_bit f)"
  using assms
  by (cases l; cases f; cases "PageSize \<in> set flags") (auto simp: flags_ok_def has_flag_def)

definition flag_word :: "flag list \<Rightarrow> raw_entry" where
  "flag_word flags = fold (\<lambda>f. set_bit (flag_bit f)) flags 0"

lemma reinit_data_ok:
  assumes "\<And>f. f \<in> set flags \<Longrightarrow> flag_idx f l p s = Some (flag_bit f)"
  shows "reinit_data l p s flags data = Some (fold (\<lambda>f. set_bit (flag_bit f)) flags data)"
  using assms by (induction flags arbitrary: data) simp_all

lemma bit_fold_flags:
  "bit (fold (\<lambda>f. set_bit (flag_bit f)) flags (w :: raw_entry)) n \<longleftrightarrow>
     bit w n \<or> n \<in> flag_bit ` set flags"
proof (induction flags arbitrary: w)
  case (Cons f flags)
  have "flag_bit f < 64" by (cases f) simp_all
  then have "bit (set_bit (flag_bit f) w) n \<longleftrightarrow> bit w n \<or> n = flag_bit f"
    by (auto simp: bit_set_bit_iff possible_bit_word)
  with Cons show ?case by auto
qed simp

lemma bit_flag_word: "bit (flag_word flags) n \<longleftrightarrow> n \<in> flag_bit ` set flags"
  by (simp add: flag_word_def bit_fold_flags)

lemma flag_bit_inject [simp]: "flag_bit f = flag_bit g \<longleftrightarrow> f = g"
  by (cases f; cases g) simp_all

lemma flag_bit_0: "0 = flag_bit f \<Longrightarrow> f = Present"
  by (cases f) simp_all

lemma flag_bit_7: "7 = flag_bit f \<Longrightarrow> f = PageSize"
  by (cases f) simp_all

lemma flag_bit_less: "flag_bit f < 12"
  by (cases f) simp_all

lemma bit_flag_word_less: "bit (flag_word flags) n \<Longrightarrow> n < 12"
  using flag_bit_less by (auto simp: bit_flag_word)

lemma bit_flag_word_flag: "bit (flag_word flags) (flag_bit f) \<longleftrightarrow> f \<in> set flags"
  by (auto simp: bit_flag_word image_iff)

lemmas flag_word_Present = bit_flag_word_flag [of _ Present, unfolded flag_bit.simps]
lemmas flag_word_PageSize = bit_flag_word_flag [of _ PageSize, unfolded flag_bit.simps]

text \<open>The alignment an entry of a kind asks for.\<close>

definition entry_align :: "level \<Rightarrow> bool \<Rightarrow> nat" where
  "entry_align l page = (if page \<and> l = PDPT then 2 ^ 30 else if page \<and> l = PD then 2 ^ 21 else 2 ^ 12)"

lemma nat_bit_low: "2 ^ k dvd (a::nat) \<Longrightarrow> n < k \<Longrightarrow> \<not> bit a n"
proof -
  assume "2 ^ k dvd a" "n < k"
  then have "push_bit k (a div 2 ^ k) = a" by (simp add: push_bit_eq_mult)
  moreover have "\<not> bit (push_bit k (a div 2 ^ k)) n" using \<open>n < k\<close> by (simp add: bit_push_bit_iff)
  ultimately show ?thesis by simp
qed

lemma nat_bit_high: "a < 2 ^ k \<Longrightarrow> k \<le> n \<Longrightarrow> \<not> bit (a::nat) n"
proof -
  assume "a < 2 ^ k" "k \<le> n"
  then have "a < 2 ^ n" using power_increasing [of k n "2::nat"] by linarith
  then show ?thesis by (simp add: bit_iff_odd)
qed

lemma bit_addr_word:
  assumes "2 ^ k dvd a" "a < 2 ^ 46" "bit (word_of_nat a :: raw_entry) n"
  shows "k \<le> n \<and> n < 46"
proof -
  have "bit a n" using assms(3) by (simp add: bit_of_nat_iff possible_bit_word)
  then show ?thesis using nat_bit_low [OF assms(1), of n] nat_bit_high [OF assms(2), of n]
    by (meson not_le)
qed

lemma bit_numeral_masks:
  "bit (0x0000FFFFFFFFF000 :: raw_entry) n \<longleftrightarrow> 12 \<le> n \<and> n < 48"
  "bit (0x0000FFFFFFFFE000 :: raw_entry) n \<longleftrightarrow> 13 \<le> n \<and> n < 48"
proof -
  have "bit (push_bit k (mask m) :: raw_entry) n \<longleftrightarrow> k \<le> n \<and> n < k + m" if "k + m \<le> 64" for k m
    using that by (auto simp: bit_push_bit_iff bit_mask_iff)
  from this [of 12 36] this [of 13 35]
  show "bit (0x0000FFFFFFFFF000 :: raw_entry) n \<longleftrightarrow> 12 \<le> n \<and> n < 48"
    "bit (0x0000FFFFFFFFE000 :: raw_entry) n \<longleftrightarrow> 13 \<le> n \<and> n < 48"
    by (simp_all add: mask_numeral)
qed

lemma bit_addr_field:
  "k \<le> 48 \<Longrightarrow> bit (word_of_nat (2 ^ 48 - 2 ^ k) :: raw_entry) n \<longleftrightarrow> k \<le> n \<and> n < 48"
proof -
  assume k: "k \<le> 48"
  have "(2::nat) ^ 48 - 2 ^ k = push_bit k (mask (48 - k))"
    using k by (simp add: push_bit_eq_mult mask_eq_exp_minus_1 diff_mult_distrib flip: power_add)
  then show ?thesis using k by (auto simp: bit_of_nat_iff possible_bit_word bit_push_bit_iff bit_mask_iff)
qed

definition points_to_page :: "level \<Rightarrow> flag list \<Rightarrow> bool" where
  "points_to_page l flags \<longleftrightarrow> l = PT \<or> PageSize \<in> set flags"

definition entry_word :: "addr \<Rightarrow> flag list \<Rightarrow> raw_entry" where
  "entry_word a flags = flag_word flags OR word_of_nat (usize a)"

definition made_target :: "level \<Rightarrow> addr \<Rightarrow> flag list \<Rightarrow> entry_target" where
  "made_target l a flags = (if points_to_page l flags then Page l a else Table (the (next_level l)) a)"

lemma entry_align_power:
  obtains k where "entry_align l p = 2 ^ k" "12 \<le> k" "k \<le> 30"
proof (rule that)
  show "entry_align l p = 2 ^ (if p \<and> l = PDPT then 30 else if p \<and> l = PD then 21 else 12)"
    by (simp add: entry_align_def)
qed simp_all

lemma entry_word_low:
  assumes "entry_align l p dvd usize a" "usize a < 2 ^ 46" "n < 12"
  shows "bit (entry_word a flags) n \<longleftrightarrow> bit (flag_word flags) n"
proof -
  obtain k where k: "entry_align l p = 2 ^ k" "12 \<le> k" by (rule entry_align_power)
  have "\<not> bit (word_of_nat (usize a) :: raw_entry) n"
    using bit_addr_word [OF assms(1) [unfolded k(1)] assms(2), of n] k(2) assms(3) by auto
  then show ?thesis by (simp add: entry_word_def bit_or_iff)
qed

text \<open>An entry made of flag bits and an address with the alignment of its kind.\<close>

lemma entry_word_target:
  assumes fl: "flags_ok l flags" and al: "entry_align l (points_to_page l flags) dvd usize a"
    and a: "usize a < 2 ^ 46"
  shows "entry_target l (entry_word a flags) = Inr (made_target l a flags)"
proof -
  obtain k where k: "entry_align l (points_to_page l flags) = 2 ^ k" "12 \<le> k"
    by (rule entry_align_power)
  have aw: "12 \<le> n \<and> n < 46" if "bit (word_of_nat (usize a) :: raw_entry) n" for n
    using bit_addr_word [OF al [unfolded k(1)] a that] k(2) by simp
  have low: "bit (entry_word a flags) n \<longleftrightarrow> bit (flag_word flags) n" if "n < 12" for n
    by (rule entry_word_low [OF al a that])
  have b0: "l \<noteq> CR3 \<Longrightarrow> bit (entry_word a flags) 0"
    using fl low [of 0] by (simp add: flags_ok_def flag_word_Present)
  have "bit (entry_word a flags) 7 \<longleftrightarrow> PageSize \<in> set flags"
    using low [of 7] by (simp add: flag_word_PageSize)
  then have pg: "page_entry l (entry_word a flags) \<longleftrightarrow> points_to_page l flags"
    using fl by (auto simp: page_entry_def points_to_page_def flags_ok_def)
  define big where "big \<longleftrightarrow> l \<noteq> PT \<and> points_to_page l flags"
  have bigk: "big \<Longrightarrow> 13 \<le> n" if "bit (word_of_nat (usize a) :: raw_entry) n" for n
  proof -
    assume big
    then have "l = PDPT \<or> l = PD" "points_to_page l flags"
      using fl by (auto simp: big_def points_to_page_def flags_ok_def)
    then have "2 ^ 21 dvd usize a" using al by (auto simp: entry_align_def intro: dvd_trans [of _ "2 ^ 30"])
    from bit_addr_word [OF this a that] show "13 \<le> n" by simp
  qed
  have "entry_word a flags AND (if big then 0x0000FFFFFFFFE000 else 0x0000FFFFFFFFF000) =
      (word_of_nat (usize a) :: raw_entry)"
  proof (rule bit_eqI)
    fix n
    have m: "bit (if big then 0x0000FFFFFFFFE000 else 0x0000FFFFFFFFF000 :: raw_entry) n \<longleftrightarrow>
        (if big then 13 else 12) \<le> n \<and> n < 48"
      by (simp only: bit_numeral_masks split: if_split) simp
    show "bit (entry_word a flags AND (if big then 0x0000FFFFFFFFE000 else 0x0000FFFFFFFFF000)) n =
        bit (word_of_nat (usize a) :: raw_entry) n"
      unfolding bit_and_iff m entry_word_def bit_or_iff
      using aw [of n] bigk [of n] bit_flag_word_less [of flags n] by (cases big) auto
  qed
  moreover have "unat (word_of_nat (usize a) :: raw_entry) = usize a"
    using a by (simp add: unat_of_nat take_bit_nat_eq_self)
  ultimately have "addr_bits l (entry_word a flags) = usize a" by (simp add: addr_bits_def pg big_def)
  moreover have "addr_new UMASpace (usize a) = Inr a"
    using a by (cases a) (simp add: addr_new_def UMASpace_def TiB_def)
  ultimately show ?thesis using b0 by (auto simp: entry_target_eq pg made_target_def)
qed

lemma flag_word_target:
  assumes "flags_ok l flags"
  shows "entry_target l (flag_word flags) = Inr (made_target l (Addr 0) flags)"
proof -
  have "entry_word (Addr 0) flags = flag_word flags" by (simp add: entry_word_def)
  with entry_word_target [OF assms, of "Addr 0"] show ?thesis by simp
qed

lemma reinit_data_flag_word:
  assumes "flags_ok l flags"
  shows "reinit_data l (has_flag Present flags) (has_flag PageSize flags) flags 0 = Some (flag_word flags)"
  using flag_idx_ok [OF assms] assms unfolding flag_word_def
  by (intro reinit_data_ok) (auto simp: flags_ok_def has_flag_def split: if_splits)

lemma made_target_align:
  assumes "flags_ok l flags"
  shows "target_align l (made_target l b flags) = Inr (Some (entry_align l (points_to_page l flags)))"
  using assms by (cases l)
    (auto simp: target_align_def made_target_def entry_align_def points_to_page_def flags_ok_def
      TABLE_ALIGNMENT_def TABLE_SIZE_def KiB_def MiB_def GiB_def)

lemma is_aligned_entry: "is_aligned_to a (entry_align l p) = Inr (entry_align l p dvd usize a)"
proof -
  obtain k where "entry_align l p = 2 ^ k" by (rule entry_align_power)
  then show ?thesis by (simp add: is_aligned_to_def dvd_eq_mod_eq_0)
qed

lemma reinit_misaligned:
  assumes "flags_ok l flags" "\<not> entry_align l (points_to_page l flags) dvd usize a"
  shows "reinit l raw a flags = Inr (False, flag_word flags)"
  using assms
  by (simp add: reinit_def set_addr_def reinit_data_flag_word flag_word_target made_target_align is_aligned_entry)

lemma reinit_ok:
  assumes fl: "flags_ok l flags" and al: "entry_align l (points_to_page l flags) dvd usize a"
  shows "reinit l raw a flags = Inr (True, entry_word a flags)"
proof -
  obtain k where k: "entry_align l (points_to_page l flags) = 2 ^ k" "12 \<le> k" "k \<le> 30"
    by (rule entry_align_power)
  have "(2::nat) ^ k \<le> 2 ^ 48" using k(3) by (intro power_increasing) simp_all
  then have "usize_sub (2 ^ 48) (2 ^ k) = Inr (2 ^ 48 - 2 ^ k)" by simp
  moreover have "flag_word flags AND NOT (word_of_nat (2 ^ 48 - 2 ^ k)) = flag_word flags"
  proof (rule bit_eqI)
    fix n
    have "n < 64 \<and> \<not> k \<le> n" if "bit (flag_word flags) n"
      using bit_flag_word_less [OF that] k(2) by simp
    then show "bit (flag_word flags AND NOT (word_of_nat (2 ^ 48 - 2 ^ k))) n = bit (flag_word flags) n"
      using bit_addr_field [of k n] k(3) by (auto simp: bit_and_iff bit_not_iff possible_bit_word)
  qed
  moreover have "is_aligned_to a (2 ^ k) = Inr True"
    using al is_aligned_entry [of a l "points_to_page l flags"] by (simp add: k(1))
  moreover have "target_align l (made_target l (Addr 0) flags) = Inr (Some (2 ^ k))"
    using made_target_align [OF fl] by (simp add: k(1))
  ultimately show ?thesis
    by (simp add: reinit_def set_addr_def reinit_data_flag_word [OF fl] flag_word_target [OF fl] entry_word_def)
qed

text \<open>Which bit a flag has depends on the bits \<^verbatim>\<open>Present\<close> and \<^verbatim>\<open>PageSize\<close> of an entry only, and
  what the entry refers to on these and on its address bits.\<close>

definition same_kind :: "raw_entry \<Rightarrow> raw_entry \<Rightarrow> bool" where
  "same_kind raw raw' \<longleftrightarrow> (bit raw 0 \<longleftrightarrow> bit raw' 0) \<and> (bit raw 7 \<longleftrightarrow> bit raw' 7)"

lemma flag_idx_Some: "flag_idx f l p s = Some i \<Longrightarrow> i = flag_bit f"
  by (cases l; cases f; cases p; cases s) (simp_all add: cr3_idx_def)

lemma flag_idx_Present_PageSize: "l \<noteq> CR3 \<Longrightarrow> flag_idx Present l p s = Some 0"
  by (cases l; cases p; cases s) simp_all

lemma get_flag_idx_eq:
  "get_flag_idx l raw f = (if l = CR3 then None
     else flag_idx f l (bit raw 0) (bit raw 0 \<and> (l = PDPT \<or> l = PD) \<and> bit raw 7))"
  by (cases l; cases "bit raw 0"; cases "bit raw 7")
    (simp_all add: get_flag_idx_def raw_bit_def cr3_idx_def Let_def)

lemma get_flag_idx_Some: "get_flag_idx l raw f = Some i \<Longrightarrow> i = flag_bit f"
  by (auto simp: get_flag_idx_eq dest: flag_idx_Some split: if_splits)

lemma get_flag_idx_kind: "same_kind raw raw' \<Longrightarrow> get_flag_idx l raw f = get_flag_idx l raw' f"
  by (simp add: get_flag_idx_eq same_kind_def)

lemma entry_target_kind:
  assumes "same_kind raw raw'" "\<And>n. 12 \<le> n \<Longrightarrow> bit raw n = bit raw' n"
  shows "entry_target l raw = entry_target l raw'"
proof -
  have "raw AND 0x0000FFFFFFFFE000 = raw' AND 0x0000FFFFFFFFE000"
    "raw AND 0x0000FFFFFFFFF000 = raw' AND 0x0000FFFFFFFFF000"
    by (rule bit_eqI; use assms(2) in \<open>auto simp only: bit_and_iff bit_numeral_masks\<close>)+
  then have "addr_bits l raw = addr_bits l raw'"
    using assms(1) by (simp add: addr_bits_def page_entry_def same_kind_def)
  then show ?thesis using assms(1)
    by (cases "l = CR3") (simp_all add: entry_target_eq page_entry_def same_kind_def)
qed

lemma bit_assign:
  "i < 64 \<Longrightarrow> bit ((if v then set_bit else unset_bit) i (w :: raw_entry)) n \<longleftrightarrow> (if n = i then v else bit w n)"
  by (auto simp: bit_set_bit_iff bit_unset_bit_iff possible_bit_word)

lemma set_flags_loop_bits:
  assumes "set_flags_loop l flags v raw = Some raw'" "Present \<notin> set flags" "PageSize \<notin> set flags"
  shows "(\<forall>n. bit raw' n \<longleftrightarrow> (if n \<in> flag_bit ` set flags then v else bit raw n)) \<and>
    (\<forall>f\<in>set flags. get_flag_idx l raw f = Some (flag_bit f))"
  using assms
proof (induction flags arbitrary: raw)
  case (Cons f flags)
  from Cons.prems obtain i where i: "get_flag_idx l raw f = Some i" by (auto split: option.splits)
  then have i': "i = flag_bit f" by (rule get_flag_idx_Some)
  define r where "r = (if v then set_bit else unset_bit) i raw"
  have i64: "i < 64" using flag_bit_less [of f] i' by simp
  have br: "bit r n \<longleftrightarrow> (if n = i then v else bit raw n)" for n
    unfolding r_def using i64 by (rule bit_assign)
  have "i \<noteq> 0 \<and> i \<noteq> 7" using Cons.prems(2,3) unfolding i' by (cases f) auto
  then have kind: "same_kind raw r" by (simp add: same_kind_def br)
  from Cons.prems i have "set_flags_loop l flags v r = Some raw'" by (simp add: r_def)
  from Cons.IH [OF this] Cons.prems(2,3)
  have IH: "\<forall>n. bit raw' n \<longleftrightarrow> (if n \<in> flag_bit ` set flags then v else bit r n)"
    "\<forall>f\<in>set flags. get_flag_idx l r f = Some (flag_bit f)" by simp_all
  show ?case using IH i by (simp add: br i' get_flag_idx_kind [OF kind])
qed simp

text \<open>C20. Writing an entry and reading it back. If the flags are flags the level's entries have and the
  address is below 64 TiB and aligned to what the entry refers to (a table, a 4 KiB, 2 MiB or 1 GiB
  page), then \<^verbatim>\<open>EntryRef::reinit\<close> succeeds whatever the entry held, \<^verbatim>\<open>EntryRef::target\<close> of the new entry
  is exactly that page or table at exactly that address, and every flag the entry has reads as set if
  and only if it was given.\<close>

theorem reinit_target_roundtrip:
  assumes "flags_ok l flags" "entry_align l (points_to_page l flags) dvd usize a" "usize a < 2 ^ 46"
  shows "\<exists>raw'. reinit l raw a flags = Inr (True, raw') \<and>
    entry_target l raw' = Inr (made_target l a flags) \<and>
    (\<forall>f\<in>set flags. entry_flag l raw' f = Some True) \<and>
    (\<forall>f. entry_flag l raw' f = None \<or> entry_flag l raw' f = Some (f \<in> set flags))"
proof (intro exI conjI ballI allI)
  let ?w = "entry_word a flags"
  show "reinit l raw a flags = Inr (True, ?w)" by (rule reinit_ok [OF assms(1,2)])
  show "entry_target l ?w = Inr (made_target l a flags)" by (rule entry_word_target [OF assms])
  have low: "bit ?w (flag_bit f) \<longleftrightarrow> f \<in> set flags" for f
    using entry_word_low [OF assms(2,3) flag_bit_less] by (simp add: bit_flag_word_flag)
  then show "entry_flag l ?w f = None \<or> entry_flag l ?w f = Some (f \<in> set flags)" for f
    by (cases "get_flag_idx l ?w f") (auto simp: entry_flag_def dest: get_flag_idx_Some)
  fix f assume f: "f \<in> set flags"
  then have l: "l \<noteq> CR3" and p: "Present \<in> set flags" using assms(1) by (auto simp: flags_ok_def split: if_splits)
  have "bit ?w 0" "bit ?w 7 \<longleftrightarrow> PageSize \<in> set flags" using low [of Present] low [of PageSize] p by simp_all
  moreover have "PageSize \<in> set flags \<longrightarrow> l = PDPT \<or> l = PD" using assms(1) by (simp add: flags_ok_def)
  ultimately have "get_flag_idx l ?w f = Some (flag_bit f)"
    using flag_idx_ok [OF assms(1) f] l by (auto simp: get_flag_idx_eq has_flag_def)
  then show "entry_flag l ?w f = Some True" using f low by (simp add: entry_flag_def)
qed

corollary reinit_target_roundtrip_witness:
  "\<exists>raw'. reinit PD 0 (Addr 0x600000) [Present, PageSize, Global, ReadWrite] = Inr (True, raw') \<and>
    entry_target PD raw' = Inr (Page PD (Addr 0x600000)) \<and>
    (\<forall>f\<in>set [Present, PageSize, Global, ReadWrite]. entry_flag PD raw' f = Some True) \<and>
    (\<forall>f. entry_flag PD raw' f = None \<or>
      entry_flag PD raw' f = Some (f \<in> set [Present, PageSize, Global, ReadWrite]))"
  using reinit_target_roundtrip [of PD "[Present, PageSize, Global, ReadWrite]" "Addr 0x600000" 0]
  by (simp add: flags_ok_def points_to_page_def entry_align_def made_target_def)

text \<open>C21. Changing the flags of an entry. When \<^verbatim>\<open>EntryRef::set_flags\<close> succeeds, the entry still refers
  to the same page or table, every flag it was given reads back with the new value and no other bit of
  the entry has changed. When it fails, the entry is as it was; it always fails for \<^verbatim>\<open>Present\<close> and
  \<^verbatim>\<open>PageSize\<close>.\<close>

theorem set_flags_keeps_target:
  assumes "set_flags l raw flags v = (ok, raw')"
  shows "(ok \<longrightarrow> entry_target l raw' = entry_target l raw \<and>
      (\<forall>f\<in>set flags. entry_flag l raw' f = Some v) \<and>
      (\<forall>n. n \<notin> flag_bit ` set flags \<longrightarrow> bit raw' n = bit raw n)) \<and>
    (\<not> ok \<longrightarrow> raw' = raw) \<and>
    (Present \<in> set flags \<or> PageSize \<in> set flags \<longrightarrow> \<not> ok)"
proof (cases ok)
  case False
  then show ?thesis using assms by (auto simp: set_flags_def split: if_splits option.splits)
next
  case True
  then have no: "Present \<notin> set flags" "PageSize \<notin> set flags"
    and loop: "set_flags_loop l flags v raw = Some raw'"
    using assms by (auto simp: set_flags_def has_flag_def split: if_splits option.splits)
  from set_flags_loop_bits [OF loop no]
  have b: "bit raw' n \<longleftrightarrow> (if n \<in> flag_bit ` set flags then v else bit raw n)"
    and g: "\<forall>f\<in>set flags. get_flag_idx l raw f = Some (flag_bit f)" for n by blast+
  have "0 \<notin> flag_bit ` set flags" "7 \<notin> flag_bit ` set flags"
    using no flag_bit_0 flag_bit_7 by blast+
  then have kind: "same_kind raw raw'" by (simp add: same_kind_def b)
  have "n \<notin> flag_bit ` set flags" if "12 \<le> n" for n
    using that flag_bit_less by (metis image_iff not_le)
  then have "entry_target l raw = entry_target l raw'" using kind b by (intro entry_target_kind) simp_all
  moreover have "\<forall>f\<in>set flags. entry_flag l raw' f = Some v"
    using g b get_flag_idx_kind [OF kind] by (simp add: entry_flag_def)
  ultimately show ?thesis using True no b by simp
qed

corollary set_flags_keeps_target_witness:
  "(let (ok, raw') = set_flags PT 0x5003 [UserSuper, Global] True in
     ok \<and> entry_target PT raw' = entry_target PT 0x5003 \<and> entry_flag PT raw' Global = Some True)"
  using set_flags_keeps_target [of PT "0x5003" "[UserSuper, Global]" True
      "fst (set_flags PT 0x5003 [UserSuper, Global] True)" "snd (set_flags PT 0x5003 [UserSuper, Global] True)"]
  by (simp add: set_flags_def has_flag_def get_flag_idx_eq bit_set_bit_iff)

text \<open>A failed \<^verbatim>\<open>EntryRef::reinit\<close> is not without effect. When the flags are fine but the address is
  not aligned to what the entry refers to, \<^verbatim>\<open>reinit\<close> reports failure after it has overwritten the entry:
  the entry is left present, with the new flags, and refers to the page or table at address 0.\<close>

theorem reinit_misaligned_clobbers:
  assumes "flags_ok l flags" "\<not> entry_align l (points_to_page l flags) dvd usize a"
  shows "\<exists>raw'. reinit l raw a flags = Inr (False, raw') \<and>
    entry_target l raw' = Inr (made_target l (Addr 0) flags)"
  using reinit_misaligned [OF assms] flag_word_target [OF assms(1)] by blast

corollary reinit_misaligned_clobbers_witness:
  "\<exists>raw'. reinit PD 0x200083 (Addr 0x1000) [Present, PageSize] = Inr (False, raw') \<and>
    entry_target PD raw' = Inr (Page PD (Addr 0))"
  using reinit_misaligned_clobbers [of PD "[Present, PageSize]" "Addr 0x1000" "0x200083"]
  by (simp add: flags_ok_def points_to_page_def entry_align_def made_target_def)

end
