(* ===== verification/Paging.thy ===== *)
theory Paging
  imports Paging_Entry
begin

text \<open>
  Page tables and the memory map of \<^verbatim>\<open>src/src/mem/paging.rs\<close> and \<^verbatim>\<open>src/src/mem/paging/table.rs\<close>.

  Physical memory holding page tables is a function from the physical address of an entry to the raw
  entry.  The kernel reaches a table at physical address \<open>p\<close> through its remapped address \<open>p2v p\<close>, and
  reaches its static tables through their addresses in the kernel image; both are the memory at the
  physical address.  An \<^verbatim>\<open>EntryRef\<close> is a level with the place of an entry: the memory map's own
  \<^verbatim>\<open>cr3\<close> field, or an address.
\<close>

section \<open>Tables\<close>

type_synonym pmem = "nat \<Rightarrow> raw_entry"

datatype entry_loc = InMap | At nat

record paging =
  pg_cr3 :: raw_entry
  pg_mem :: pmem

definition put :: "pmem \<Rightarrow> nat \<Rightarrow> raw_entry \<Rightarrow> pmem" where
  "put m p raw = m(p := raw)"

lemma put_same [simp]: "put m p raw p = raw"
  by (simp add: put_def)

lemma put_other [simp]: "q \<noteq> p \<Longrightarrow> put m p raw q = m q"
  by (simp add: put_def)

fun read_entry :: "paging \<Rightarrow> entry_loc \<Rightarrow> raw_entry" where
  "read_entry s InMap = pg_cr3 s"
| "read_entry s (At p) = pg_mem s p"

fun write_entry :: "paging \<Rightarrow> entry_loc \<Rightarrow> raw_entry \<Rightarrow> paging" where
  "write_entry s InMap raw = s\<lparr>pg_cr3 := raw\<rparr>"
| "write_entry s (At p) raw = s\<lparr>pg_mem := put (pg_mem s) p raw\<rparr>"

text \<open>\<^verbatim>\<open>TableRef::index\<close> and \<^verbatim>\<open>index_with_vaddr\<close> on the table at a physical address.\<close>

definition table_index :: "nat \<Rightarrow> nat \<Rightarrow> nat res" where
  "table_index table idx = rbind (rassert (idx < TABLE_LEN)) (\<lambda>_. Inr (table + 8 * idx))"

definition index_with_vaddr :: "level \<Rightarrow> nat \<Rightarrow> addr \<Rightarrow> nat res" where
  "index_with_vaddr l table vaddr =
     rbind (page_table_idx_range l) (\<lambda>idx_range.
     rbind (index_range vaddr idx_range) (\<lambda>idx. table_index table idx))"

definition entry_refs :: "nat \<Rightarrow> nat list" where
  "entry_refs table = map (\<lambda>i. table + 8 * i) [0..<TABLE_LEN]"

section \<open>The walker\<close>

record walker =
  w_loc :: entry_loc
  w_level :: level

definition walker_new :: walker where
  "walker_new = \<lparr>w_loc = InMap, w_level = CR3\<rparr>"

definition walker_target :: "paging \<Rightarrow> walker \<Rightarrow> entry_target res" where
  "walker_target s w = entry_target (w_level w) (read_entry s (w_loc w))"

definition down_with_table :: "addr \<Rightarrow> addr \<Rightarrow> level \<Rightarrow> walker res" where
  "down_with_table vaddr table_paddr table_level =
     rbind (p2v table_paddr) (\<lambda>_.
     rbind (index_with_vaddr table_level (usize table_paddr) vaddr) (\<lambda>p.
     Inr \<lparr>w_loc = At p, w_level = table_level\<rparr>))"

definition try_down :: "paging \<Rightarrow> addr \<Rightarrow> walker \<Rightarrow> walker option res" where
  "try_down s vaddr w =
     (case next_level (w_level w) of None \<Rightarrow> Inr None
      | Some _ \<Rightarrow>
        rbind (walker_target s w) (\<lambda>t.
        case t of Table l a \<Rightarrow> rbind (down_with_table vaddr a l) (\<lambda>w'. Inr (Some w'))
        | _ \<Rightarrow> Inr None))"

definition DEFAULT_PAGE_TABLE_FLAGS :: "flag list" where
  "DEFAULT_PAGE_TABLE_FLAGS = [Present, ReadWrite]"

text \<open>\<^verbatim>\<open>EntryRef::reinit\<close> on the entry the walker is at; the result is \<^verbatim>\<open>Option<()>\<close>.\<close>

definition walker_reinit :: "paging \<Rightarrow> walker \<Rightarrow> addr \<Rightarrow> flag list \<Rightarrow> (bool \<times> paging) res" where
  "walker_reinit s w a flags =
     rbind (reinit (w_level w) (read_entry s (w_loc w)) a flags) (\<lambda>(ok, raw).
     Inr (ok, write_entry s (w_loc w) raw))"

text \<open>The allocator of physical memory that \<^verbatim>\<open>down\<close> and \<^verbatim>\<open>map\<close> are given, \<^verbatim>\<open>addr::Allocator\<close>.\<close>

type_synonym 's uma_allocator = "layout \<Rightarrow> 's \<Rightarrow> (addr_range option \<times> 's) res"

definition down ::
  "'s uma_allocator \<Rightarrow> addr \<Rightarrow> walker \<Rightarrow> paging \<Rightarrow> 's \<Rightarrow> (walker \<times> paging \<times> 's) res" where
  "down allocate vaddr w s al =
     (case next_level (w_level w) of None \<Rightarrow> Inr (w, s, al)
      | Some table_level \<Rightarrow>
        rbind (walker_target s w) (\<lambda>t.
        case t of Table l a \<Rightarrow> rbind (down_with_table vaddr a l) (\<lambda>w'. Inr (w', s, al))
        | _ \<Rightarrow>
          rbind (page_layout Small) (\<lambda>layout.
          rbind (allocate layout al) (\<lambda>(r, al).
          rbind (rexpect r) (\<lambda>r.
          rbind (walker_reinit s w (ar_base r) DEFAULT_PAGE_TABLE_FLAGS) (\<lambda>(_, s).
          rbind (down_with_table vaddr (ar_base r) table_level) (\<lambda>w'.
          Inr (w', s, al))))))))"

section \<open>The memory map\<close>

fun height :: "level \<Rightarrow> nat" where
  "height CR3 = 4"
| "height PML4 = 3"
| "height PDPT = 2"
| "height PD = 1"
| "height PT = 0"

lemma next_level_height: "next_level l = Some n \<Longrightarrow> height l = Suc (height n)"
  by (cases l) auto

lemma entry_target_Table: "entry_target l raw = Inr (Table n a) \<Longrightarrow> next_level l = Some n"
  by (cases l) (auto simp: entry_target_eq rbind_eq_Inr_iff page_entry_def split: if_splits)

lemma try_down_Some:
  assumes "try_down s vaddr w = Inr (Some w')"
  obtains a where "next_level (w_level w) = Some (w_level w')" "walker_target s w = Inr (Table (w_level w') a)"
    "down_with_table vaddr a (w_level w') = Inr w'"
proof -
  from assms obtain t where t: "walker_target s w = Inr t"
    by (auto simp: try_down_def rbind_eq_Inr_iff split: option.splits)
  with assms obtain n a where n: "t = Table n a" "down_with_table vaddr a n = Inr w'"
    by (cases t) (auto simp: try_down_def rbind_eq_Inr_iff split: option.splits)
  moreover have "w_level w' = n" using n(2) by (auto simp: down_with_table_def rbind_eq_Inr_iff)
  ultimately show thesis using that t entry_target_Table by (auto simp: walker_target_def)
qed

lemma try_down_height: "try_down s vaddr w = Inr (Some w') \<Longrightarrow> height (w_level w') < height (w_level w)"
  by (elim try_down_Some) (simp add: next_level_height)

text \<open>The loop \<^verbatim>\<open>while walker.try_down().is_some() {}\<close>.\<close>

function walk_down :: "paging \<Rightarrow> addr \<Rightarrow> walker \<Rightarrow> walker res" where
  "walk_down s vaddr w =
     rbind (try_down s vaddr w) (\<lambda>o'. case o' of None \<Rightarrow> Inr w | Some w' \<Rightarrow> walk_down s vaddr w')"
  by auto
termination
  by (relation "measure (\<lambda>(s, vaddr, w). height (w_level w))") (auto intro: try_down_height)

declare walk_down.simps [simp del]

definition translate :: "paging \<Rightarrow> addr \<Rightarrow> addr option res" where
  "translate s vaddr =
     rbind (walk_down s vaddr walker_new) (\<lambda>w.
     rbind (walker_target s w) (\<lambda>t.
     case t of NoTarget \<Rightarrow> Inr None | Page _ a \<Rightarrow> Inr (Some a) | Table _ _ \<Rightarrow> Inl UnreachableCode))"

text \<open>The loop of \<^verbatim>\<open>map\<close>, which ends when the walker is at the level of the page: \<open>None\<close> would be a
  loop that never ends.\<close>

partial_function (option) map_walk ::
  "'s uma_allocator \<Rightarrow> level \<Rightarrow> addr \<Rightarrow> walker \<Rightarrow> paging \<Rightarrow> 's \<Rightarrow> (walker \<times> paging \<times> 's) res option" where
  [code]: "map_walk allocate target_level vaddr w s al =
     (if w_level w = target_level then Some (Inr (w, s, al))
      else case down allocate vaddr w s al of Inl e \<Rightarrow> Some (Inl e)
        | Inr r \<Rightarrow> map_walk allocate target_level vaddr (fst r) (fst (snd r)) (snd (snd r)))"

definition map_page ::
  "'s uma_allocator \<Rightarrow> page_addr \<Rightarrow> page_addr \<Rightarrow> flag list \<Rightarrow> paging \<Rightarrow> 's \<Rightarrow>
     (unit option \<times> paging \<times> 's) res option" where
  "map_page allocate vpage ppage flags s al =
     (if pa_page_size vpage \<noteq> pa_page_size ppage then Some (Inl AssertFailed)
      else case map_walk allocate (from_page_size (pa_page_size vpage)) (pa_base vpage) walker_new s al of
        None \<Rightarrow> None
      | Some r \<Rightarrow> Some (rbind r (\<lambda>(w, s, al).
          rbind (walker_reinit s w (pa_base ppage) flags) (\<lambda>(_, s). Inr (Some (), s, al)))))"

definition unmap :: "addr \<Rightarrow> paging \<Rightarrow> paging res" where
  "unmap vaddr s = Inl NotImplemented"

end
