(* ===== verification/Paging_Walk.thy ===== *)
theory Paging_Walk
  imports Paging
begin

text \<open>
  What the page tables mean.  The reference is the page walk of the hardware, \<open>lookup\<close>: from the root
  table, each level's entry is a page, a table of the next level or nothing.  A ghost typing of frames
  (\<open>tys\<close>) says which frames are tables and of which level; under the invariant \<open>pt_inv\<close> the tables form
  a tree, so that writing one entry changes the walks through that entry and no others.
\<close>

section \<open>The reference walk\<close>

text \<open>The level of the tables at each depth, and the index a virtual address has there.\<close>

fun lv :: "nat \<Rightarrow> level" where
  "lv 0 = PML4"
| "lv (Suc 0) = PDPT"
| "lv (Suc (Suc 0)) = PD"
| "lv (Suc (Suc (Suc _))) = PT"

definition vidx :: "nat \<Rightarrow> addr \<Rightarrow> nat" where
  "vidx d v = usize v div 2 ^ (39 - 9 * d) mod 512"

definition slot :: "nat \<Rightarrow> nat \<Rightarrow> addr \<Rightarrow> nat" where
  "slot f d v = f + 8 * vidx d v"

definition target_at :: "pmem \<Rightarrow> nat \<Rightarrow> nat \<Rightarrow> addr \<Rightarrow> entry_target res" where
  "target_at m d f v = entry_target (lv d) (m (slot f d v))"

text \<open>The walk from the table \<open>f\<close> of depth \<open>d\<close>, with \<open>n\<close> levels to go.\<close>

fun walk :: "pmem \<Rightarrow> nat \<Rightarrow> nat \<Rightarrow> nat \<Rightarrow> addr \<Rightarrow> addr option" where
  "walk m 0 d f v = None"
| "walk m (Suc n) d f v =
     (case target_at m d f v of
        Inr (Page _ a) \<Rightarrow> Some a
      | Inr (Table _ a) \<Rightarrow> walk m n (Suc d) (usize a) v
      | _ \<Rightarrow> None)"

definition lookup :: "pmem \<Rightarrow> nat \<Rightarrow> addr \<Rightarrow> addr option" where
  "lookup m r v = walk m 4 0 r v"

text \<open>The table of depth \<open>d\<close> on the walk of \<open>v\<close>.\<close>

fun tbl :: "pmem \<Rightarrow> nat \<Rightarrow> addr \<Rightarrow> nat \<Rightarrow> nat option" where
  "tbl m r v 0 = Some r"
| "tbl m r v (Suc d) =
     (case tbl m r v d of None \<Rightarrow> None
      | Some f \<Rightarrow> (case target_at m d f v of Inr (Table _ a) \<Rightarrow> Some (usize a) | _ \<Rightarrow> None))"

definition agree :: "nat \<Rightarrow> addr \<Rightarrow> addr \<Rightarrow> bool" where
  "agree d v v' \<longleftrightarrow> (\<forall>e\<le>d. vidx e v = vidx e v')"

definition agree_below :: "nat \<Rightarrow> addr \<Rightarrow> addr \<Rightarrow> bool" where
  "agree_below d v v' \<longleftrightarrow> (\<forall>e<d. vidx e v = vidx e v')"

text \<open>The walk of \<open>v\<close> ends at a page at depth \<open>d\<close>.\<close>

definition hits_page :: "pmem \<Rightarrow> nat \<Rightarrow> addr \<Rightarrow> nat \<Rightarrow> bool" where
  "hits_page m r v d \<longleftrightarrow>
     (case tbl m r v d of None \<Rightarrow> False
      | Some f \<Rightarrow> (case target_at m d f v of Inr (Page _ _) \<Rightarrow> True | _ \<Rightarrow> False))"

section \<open>The invariant\<close>

type_synonym typing = "nat \<Rightarrow> nat option"  \<comment> \<open>the depth of the table in a frame\<close>

definition child :: "pmem \<Rightarrow> nat \<Rightarrow> nat \<Rightarrow> nat \<Rightarrow> nat option" where
  "child m d f i =
     (case entry_target (lv d) (m (f + 8 * i)) of Inr (Table _ a) \<Rightarrow> Some (usize a) | _ \<Rightarrow> None)"

definition entry_ok :: "typing \<Rightarrow> pmem \<Rightarrow> nat \<Rightarrow> nat \<Rightarrow> nat \<Rightarrow> bool" where
  "entry_ok tys m d f i \<longleftrightarrow> (\<exists>t. entry_target (lv d) (m (f + 8 * i)) = Inr t) \<and>
     (\<forall>a. child m d f i = Some a \<longrightarrow> tys a = Some (Suc d))"

definition table_ok :: "typing \<Rightarrow> pmem \<Rightarrow> nat \<Rightarrow> nat \<Rightarrow> bool" where
  "table_ok tys m d f \<longleftrightarrow> d \<le> 3 \<and> 4096 dvd f \<and> f < 2 ^ 46 \<and> (\<forall>i<512. entry_ok tys m d f i)"

definition unshared :: "typing \<Rightarrow> pmem \<Rightarrow> bool" where
  "unshared tys m \<longleftrightarrow> (\<forall>f f' d i i' a. tys f = Some d \<longrightarrow> tys f' = Some d \<longrightarrow> i < 512 \<longrightarrow> i' < 512 \<longrightarrow>
     child m d f i = Some a \<longrightarrow> child m d f' i' = Some a \<longrightarrow> f = f' \<and> i = i')"

definition pt_inv :: "typing \<Rightarrow> nat \<Rightarrow> pmem \<Rightarrow> bool" where
  "pt_inv tys r m \<longleftrightarrow>
     tys r = Some 0 \<and> (\<forall>f d. tys f = Some d \<longrightarrow> table_ok tys m d f) \<and> unshared tys m"

lemma vidx_less [simp]: "vidx d v < 512"
  by (simp add: vidx_def)

lemma target_at_vidx: "target_at m d f v = entry_target (lv d) (m (f + 8 * vidx d v))"
  by (simp add: target_at_def slot_def)

lemma pt_inv_table: "pt_inv tys r m \<Longrightarrow> tys f = Some d \<Longrightarrow> table_ok tys m d f"
  by (simp add: pt_inv_def)

lemma pt_invD:
  assumes "pt_inv tys r m" "tys f = Some d"
  shows "d \<le> 3" "4096 dvd f" "f < 2 ^ 46" "i < 512 \<Longrightarrow> \<exists>t. entry_target (lv d) (m (f + 8 * i)) = Inr t"
    "i < 512 \<Longrightarrow> child m d f i = Some a \<Longrightarrow> tys a = Some (Suc d)"
  using pt_inv_table [OF assms] by (simp_all add: table_ok_def entry_ok_def)

lemma pt_inv_root: "pt_inv tys r m \<Longrightarrow> tys r = Some 0"
  by (simp add: pt_inv_def)

lemma pt_inv_unshared:
  "pt_inv tys r m \<Longrightarrow> tys f = Some d \<Longrightarrow> tys f' = Some d \<Longrightarrow> i < 512 \<Longrightarrow> i' < 512 \<Longrightarrow>
    child m d f i = Some a \<Longrightarrow> child m d f' i' = Some a \<Longrightarrow> f = f' \<and> i = i'"
  unfolding pt_inv_def unshared_def by presburger

lemma tbl_Suc: "tbl m r v (Suc d) = (case tbl m r v d of None \<Rightarrow> None | Some f \<Rightarrow> child m d f (vidx d v))"
  by (simp add: child_def target_at_vidx split: option.splits)

lemma tbl_typed:
  assumes "pt_inv tys r m" "tbl m r v d = Some f"
  shows "tys f = Some d"
  using assms(2)
proof (induction d arbitrary: f)
  case 0
  then show ?case using pt_inv_root [OF assms(1)] by simp
next
  case (Suc d)
  then obtain g where "tbl m r v d = Some g" "child m d g (vidx d v) = Some f"
    by (auto simp: tbl_Suc simp del: tbl.simps(2) split: option.splits)
  with Suc.IH show ?case using pt_invD(5) [OF assms(1), of g d "vidx d v" f] by simp
qed

text \<open>Two walks that meet in a table have come the same way.\<close>

lemma tbl_unique:
  assumes inv: "pt_inv tys r m" and "tbl m r v d = Some f" "tbl m r v' d = Some f"
  shows "agree_below d v v'"
  using assms(2,3)
proof (induction d arbitrary: f)
  case (Suc d)
  obtain g g' where g: "tbl m r v d = Some g" "child m d g (vidx d v) = Some f"
    "tbl m r v' d = Some g'" "child m d g' (vidx d v') = Some f"
    using Suc.prems by (auto simp: tbl_Suc simp del: tbl.simps(2) split: option.splits)
  have "g = g' \<and> vidx d v = vidx d v'"
    using pt_inv_unshared [OF inv tbl_typed [OF inv g(1)] tbl_typed [OF inv g(3)] _ _ g(2,4)] by simp
  with Suc.IH [OF g(1)] g(3) show ?case by (auto simp: agree_below_def less_Suc_eq)
qed (simp add: agree_below_def)

lemma tbl_agree: "agree_below d v v' \<Longrightarrow> tbl m r v d = tbl m r v' d"
  by (induction d) (simp_all add: tbl_Suc agree_below_def del: tbl.simps(2) split: option.split)

text \<open>Entries of different tables, or of different indices, are at different addresses.\<close>

lemma slot_inject:
  assumes "4096 dvd f" "4096 dvd (f' :: nat)" "i < 512" "i' < 512" "f + 8 * i = f' + 8 * i'"
  shows "f = f' \<and> i = i'"
proof -
  obtain k k' where k: "f = 4096 * k" "f' = 4096 * k'" using assms(1,2) by (auto elim!: dvdE)
  have "8 * (512 * k + i) = 8 * (512 * k' + i')" using assms(5) by (simp add: k)
  then have "512 * k + i = 512 * k' + i'" by simp
  from mixed_radix_inject [OF assms(3,4) this] show ?thesis by (simp add: k)
qed

lemma walk_tbl:
  assumes "tbl m r v d = Some f" "d \<le> 3"
  shows "lookup m r v = walk m (4 - d) d f v"
  using assms
proof (induction d arbitrary: f)
  case 0
  then show ?case by (simp add: lookup_def)
next
  case (Suc d)
  from Suc.prems(1) obtain g where g: "tbl m r v d = Some g" by (auto split: option.splits)
  with Suc.prems(1) have "(case target_at m d g v of Inr (Table _ a) \<Rightarrow> Some (usize a) | _ \<Rightarrow> None) = Some f"
    by simp
  then obtain l a where t: "target_at m d g v = Inr (Table l a)" "usize a = f"
    by (auto split: sum.splits entry_target.splits)
  define n where "n = 3 - d"
  have n: "4 - d = Suc n" "4 - Suc d = n" using Suc.prems(2) by (simp_all add: n_def)
  have "lookup m r v = walk m (4 - d) d g v" using Suc.IH [OF g] Suc.prems(2) by simp
  then show ?case unfolding n using t by simp
qed

section \<open>Writing one entry\<close>

lemma fold_put:
  "distinct is \<Longrightarrow> fold (\<lambda>i m'. put m' (a + 8 * i) (g i)) is m p =
    (if \<exists>i \<in> set is. p = a + 8 * i then g ((p - a) div 8) else m p)"
proof (induction "is" arbitrary: m)
  case (Cons i js)
  have "fold (\<lambda>i m'. put m' (a + 8 * i) (g i)) (i # js) m p =
      (if \<exists>i \<in> set js. p = a + 8 * i then g ((p - a) div 8) else put m (a + 8 * i) (g i) p)"
    using Cons by simp
  then show ?case
    by (cases "\<exists>i \<in> set js. p = a + 8 * i"; cases "p = a + 8 * i") simp_all
qed simp

text \<open>The entries of a table other than the one written are as they were.\<close>

lemma other_slot:
  assumes "4096 dvd f" "4096 dvd g" "i < 512" "j < 512" "(g, j) \<noteq> (f, i)"
  shows "put m (f + 8 * i) raw (g + 8 * j) = m (g + 8 * j)"
  using slot_inject [OF assms(1,2,3,4)] assms(5) by (intro put_other) auto

lemma entry_update_target:
  assumes inv: "pt_inv tys r m" and f: "tys f = Some d" and g: "tys g = Some e"
    and ne: "g = f \<longrightarrow> vidx e v' \<noteq> vidx d v"
  shows "target_at (put m (slot f d v) raw) e g v' = target_at m e g v'"
proof -
  have "put m (f + 8 * vidx d v) raw (g + 8 * vidx e v') = m (g + 8 * vidx e v')"
    using ne by (intro other_slot pt_invD(2) [OF inv f] pt_invD(2) [OF inv g] vidx_less) auto
  then show ?thesis by (simp add: target_at_def slot_def)
qed

lemma tbl_update:
  assumes inv: "pt_inv tys r m" and f: "tys f = Some d" and e: "e \<le> d"
  shows "tbl (put m (slot f d v) raw) r v' e = tbl m r v' e"
  using e
proof (induction e)
  case (Suc e)
  have "target_at (put m (slot f d v) raw) e g v' = target_at m e g v'" if "tbl m r v' e = Some g" for g
  proof (rule entry_update_target [OF inv f tbl_typed [OF inv that]])
    have "g \<noteq> f" using tbl_typed [OF inv that] f Suc.prems by auto
    then show "g = f \<longrightarrow> vidx e v' \<noteq> vidx d v" by simp
  qed
  then show ?case using Suc by (auto split: option.split)
qed simp

text \<open>A walk that does not come through the entry written is as it was.\<close>

lemma walk_update_other:
  assumes inv: "pt_inv tys r m" and f: "tbl m r v d = Some f" and na: "\<not> agree d v v'"
    and g: "tbl m r v' e = Some g"
  shows "walk (put m (slot f d v) raw) n e g v' = walk m n e g v'"
  using g
proof (induction n arbitrary: e g)
  case (Suc n)
  have "target_at (put m (slot f d v) raw) e g v' = target_at m e g v'"
  proof (rule entry_update_target [OF inv tbl_typed [OF inv f] tbl_typed [OF inv Suc.prems]], intro impI notI)
    assume gf: "g = f" and ix: "vidx e v' = vidx d v"
    have "e = d" using tbl_typed [OF inv f] tbl_typed [OF inv Suc.prems] gf by simp
    with tbl_unique [OF inv f, of v'] Suc.prems gf ix have "agree d v v'"
      by (auto simp: agree_def agree_below_def le_less)
    with na show False ..
  qed
  moreover have "walk (put m (slot f d v) raw) n (Suc e) (usize a) v' = walk m n (Suc e) (usize a) v'"
    if "target_at m e g v' = Inr (Table l a)" for l a
    using that Suc.prems by (intro Suc.IH) simp
  ultimately show ?case by (simp split: sum.split entry_target.split)
qed simp

lemma lookup_update_other:
  assumes "pt_inv tys r m" "tbl m r v d = Some f" "\<not> agree d v v'"
  shows "lookup (put m (slot f d v) raw) r v' = lookup m r v'"
  unfolding lookup_def using assms by (intro walk_update_other) simp_all

text \<open>A walk that does come through it continues with the new entry.\<close>

lemma lookup_update_agree:
  assumes inv: "pt_inv tys r m" and f: "tbl m r v d = Some f" and ag: "agree d v v'"
  shows "lookup (put m (slot f d v) raw) r v' =
    (case entry_target (lv d) raw of Inr (Page _ a) \<Rightarrow> Some a
     | Inr (Table _ a) \<Rightarrow> walk (put m (slot f d v) raw) (3 - d) (Suc d) (usize a) v'
     | _ \<Rightarrow> None)"
proof -
  let ?m = "put m (slot f d v) raw"
  have ty: "tys f = Some d" by (rule tbl_typed [OF inv f])
  have d: "d \<le> 3" by (rule pt_invD(1) [OF inv ty])
  have below: "agree_below d v v'" and ix: "vidx d v' = vidx d v"
    using ag by (simp_all add: agree_def agree_below_def)
  have "tbl ?m r v' d = Some f" using tbl_update [OF inv ty le_refl] tbl_agree [OF below] f by simp
  then have "lookup ?m r v' = walk ?m (4 - d) d f v'" using d by (rule walk_tbl)
  moreover have "target_at ?m d f v' = entry_target (lv d) raw" by (simp add: target_at_def slot_def ix)
  moreover have "4 - d = Suc (3 - d)" using d by simp
  ultimately show ?thesis by simp
qed

section \<open>The invariant after a write\<close>

lemma lv_neq_CR3 [simp]: "lv d \<noteq> CR3"
  by (cases d rule: lv.cases) simp_all

lemma entry_target_zero [simp]: "entry_target (lv d) 0 = Inr NoTarget"
  by (simp add: entry_target_eq)

definition child_of :: "nat \<Rightarrow> raw_entry \<Rightarrow> nat option" where
  "child_of d raw = (case entry_target (lv d) raw of Inr (Table _ a) \<Rightarrow> Some (usize a) | _ \<Rightarrow> None)"

lemma child_eq: "child m d f i = child_of d (m (f + 8 * i))"
  by (simp add: child_def child_of_def)

lemma child_of_Table: "entry_target (lv d) raw = Inr (Table l a) \<Longrightarrow> child_of d raw = Some (usize a)"
  by (simp add: child_of_def)

lemma child_of_zero [simp]: "child_of d 0 = None"
  by (simp add: child_of_def)

text \<open>A write keeps the invariant, with the typing extended by a new table, when every table is still
  referred to from one place only.\<close>

lemma pt_inv_put:
  assumes inv: "pt_inv tys r m" and f: "tys f = Some d" and i: "i < 512"
    and raw: "entry_target (lv d) raw = Inr t"
    and old: "\<And>a. child_of d raw = Some a \<Longrightarrow> a = new \<and> tys new = None \<and> table_ok tys m (Suc d) new \<and>
      (\<forall>j<512. m (new + 8 * j) = 0)"
  shows "pt_inv (if child_of d raw = None then tys else tys(new \<mapsto> Suc d)) r (put m (f + 8 * i) raw)"
proof -
  let ?m = "put m (f + 8 * i) raw"
  let ?tys = "if child_of d raw = None then tys else tys(new \<mapsto> Suc d)"
  have f4: "4096 dvd f" by (rule pt_invD(2) [OF inv f])
  have ty: "?tys g = Some e \<longleftrightarrow> tys g = Some e \<or> child_of d raw \<noteq> None \<and> g = new \<and> e = Suc d" for g e
    using old by (cases "child_of d raw") auto
  have g4: "4096 dvd g" if "?tys g = Some e" for g e
    using that old pt_invD(2) [OF inv, of g e] unfolding ty by (auto simp: table_ok_def)
  have ch: "child ?m e g j = (if g = f \<and> j = i then child_of d raw
      else if tys g = Some e then child m e g j else None)" if "?tys g = Some e" "j < 512" for e g j
    using that f other_slot [OF f4 g4 [OF that(1)] i that(2), of m raw] old
    by (cases "g = f \<and> j = i") (auto simp: child_eq ty)
  have tgt: "\<exists>t. entry_target (lv e) (?m (g + 8 * j)) = Inr t" if "?tys g = Some e" "j < 512" for e g j
    using that f raw other_slot [OF f4 g4 [OF that(1)] i that(2), of m raw] old pt_invD(4) [OF inv, of g e j]
    by (cases "g = f \<and> j = i") (auto simp: ty)
  have typed: "?tys a = Some (Suc e)" if "?tys g = Some e" "j < 512" "child ?m e g j = Some a" for e g j a
    using that(3) ch [OF that(1,2)] f that(1) old pt_invD(5) [OF inv _ that(2), of g e a]
    by (auto simp: ty split: if_splits)
  have "table_ok ?tys ?m e g" if "?tys g = Some e" for g e
    using that pt_invD(1,3) [OF inv, of g e] old g4 [OF that] tgt [OF that] typed [OF that]
    unfolding table_ok_def entry_ok_def ty by auto
  moreover have "unshared ?tys ?m"
    unfolding unshared_def
  proof (intro allI impI)
    fix g g' e j j' a
    assume h: "?tys g = Some e" "?tys g' = Some e" "j < 512" "j' < 512" "child ?m e g j = Some a"
      "child ?m e g' j' = Some a"
    have c: "g = f \<and> j = i \<and> child_of d raw = Some a \<or> tys g = Some e \<and> child m e g j = Some a"
      using h(5) ch [OF h(1,3)] by (auto split: if_splits)
    have c': "g' = f \<and> j' = i \<and> child_of d raw = Some a \<or> tys g' = Some e \<and> child m e g' j' = Some a"
      using h(6) ch [OF h(2,4)] by (auto split: if_splits)
    have "tys a \<noteq> None" if "tys g = Some e" "child m e g j = Some a" "j < 512" for g j
      using pt_invD(5) [OF inv that(1,3,2)] by simp
    with c c' h(3,4) old [of a] pt_inv_unshared [OF inv _ _ h(3,4), of g e g' a]
    show "g = g' \<and> j = j'" by blast
  qed
  moreover have "?tys r = Some 0" using pt_inv_root [OF inv] by (simp add: ty)
  ultimately show ?thesis unfolding pt_inv_def by blast
qed

lemma pt_inv_put_leaf:
  assumes "pt_inv tys r m" "tys f = Some d" "i < 512" "entry_target (lv d) raw = Inr t" "child_of d raw = None"
  shows "pt_inv tys r (put m (f + 8 * i) raw)"
  using pt_inv_put [OF assms(1-4)] assms(5) by simp

text \<open>A frame that can become a table of depth \<open>d\<close>.\<close>

definition fresh_table :: "typing \<Rightarrow> pmem \<Rightarrow> nat \<Rightarrow> bool" where
  "fresh_table tys m a \<longleftrightarrow> tys a = None \<and> 4096 dvd a \<and> a < 2 ^ 46 \<and> (\<forall>i<512. m (a + 8 * i) = 0)"

lemma pt_inv_put_table:
  assumes inv: "pt_inv tys r m" and f: "tys f = Some d" and i: "i < 512" and d: "d < 3"
    and raw: "entry_target (lv d) raw = Inr (Table l (Addr a))" and fresh: "fresh_table tys m a"
  shows "pt_inv (tys(a \<mapsto> Suc d)) r (put m (f + 8 * i) raw)"
proof -
  have c: "child_of d raw = Some a" using child_of_Table [OF raw] by simp
  have "table_ok tys m (Suc d) a"
    using fresh d by (simp add: fresh_table_def table_ok_def entry_ok_def child_eq)
  then show ?thesis using pt_inv_put [OF inv f i raw, of a] fresh c by (simp add: fresh_table_def)
qed

text \<open>The walk below an entry that has just been given an empty table finds nothing.\<close>

lemma fresh_target:
  assumes "pt_inv tys r m" "tys f = Some d" "i < 512" "fresh_table tys m a"
  shows "target_at (put m (f + 8 * i) raw) e a v = Inr NoTarget"
proof -
  have "a \<noteq> f" using assms by (auto simp: fresh_table_def)
  then have "put m (f + 8 * i) raw (a + 8 * vidx e v) = m (a + 8 * vidx e v)"
    using assms by (intro other_slot) (auto simp: fresh_table_def dest: pt_invD(2))
  then show ?thesis using assms(4) by (simp add: target_at_vidx fresh_table_def)
qed

lemma walk_fresh:
  assumes "pt_inv tys r m" "tys f = Some d" "i < 512" "fresh_table tys m a"
  shows "walk (put m (f + 8 * i) raw) n e a v = None"
  using fresh_target [OF assms] by (cases n) simp_all

text \<open>Addresses that agree down to an entry that is neither a page nor a table are not mapped.\<close>

lemma lookup_none:
  assumes inv: "pt_inv tys r m" and f: "tbl m r v d = Some f" and nt: "child m d f (vidx d v) = None"
    and np: "\<not> hits_page m r v d" and ag: "agree d v v'"
  shows "lookup m r v' = None"
proof -
  have ty: "tys f = Some d" by (rule tbl_typed [OF inv f])
  have below: "agree_below d v v'" and ix: "vidx d v' = vidx d v"
    using ag by (simp_all add: agree_def agree_below_def)
  obtain t where t: "target_at m d f v = Inr t"
    using pt_invD(4) [OF inv ty vidx_less] unfolding target_at_vidx by blast
  then have "t = NoTarget" using np nt f by (cases t) (auto simp: hits_page_def child_def target_at_vidx)
  then have t': "target_at m d f v' = Inr NoTarget" using t by (simp add: target_at_vidx ix)
  have "lookup m r v' = walk m (4 - d) d f v'"
    using tbl_agree [OF below] f pt_invD(1) [OF inv ty] by (intro walk_tbl) simp_all
  then show ?thesis using t' by (cases "4 - d") simp_all
qed

section \<open>Translation is the reference walk\<close>

lemma index_range_bits:
  assumes "s + 9 < 64"
  shows "index_range v (s, s + 9) = Inr (usize v div 2 ^ s mod 512)"
proof -
  have "usize v AND (2 ^ (s + 9) - 1) = take_bit (s + 9) (usize v)"
    by (simp only: take_bit_eq_mask mask_eq_exp_minus_1)
  then have "(usize v AND (2 ^ (s + 9) - 1)) div 2 ^ s = drop_bit s (take_bit (s + 9) (usize v))"
    by (simp only: drop_bit_eq_div)
  also have "\<dots> = take_bit 9 (drop_bit s (usize v))" by (simp add: drop_bit_take_bit)
  also have "\<dots> = usize v div 2 ^ s mod 512" by (simp add: take_bit_eq_mod drop_bit_eq_div)
  finally have e: "(usize v AND (2 ^ (s + 9) - 1)) div 2 ^ s = usize v div 2 ^ s mod 512" .
  have "(s + 9) mod 2 ^ 32 = s + 9" using assms by simp
  moreover have "(1::nat) \<le> 2 ^ (s + 9)" by simp
  ultimately show ?thesis using assms e unfolding index_range_def by (simp del: power_add)
qed

lemma lv_range: "d \<le> 3 \<Longrightarrow> page_table_idx_range (lv d) = Inr (39 - 9 * d, 39 - 9 * d + 9)"
  by (cases d rule: lv.cases) auto

lemma index_lv: "d \<le> 3 \<Longrightarrow> index_with_vaddr (lv d) f v = Inr (slot f d v)"
  unfolding index_with_vaddr_def lv_range rbind_Inr using index_range_bits [of "39 - 9 * d" v]
  by (simp only: rbind_Inr) (simp add: table_index_def TABLE_LEN_def TABLE_SIZE_def KiB_def slot_def vidx_def)

definition at_table :: "nat \<Rightarrow> nat \<Rightarrow> addr \<Rightarrow> walker" where
  "at_table d f v = \<lparr>w_loc = At (slot f d v), w_level = lv d\<rparr>"

lemma p2v_ok: "usize a < 2 ^ 46 \<Longrightarrow> \<exists>b. p2v a = Inr b"
  by (simp add: p2v_def PhysicalRemapSpace_def usize_limit_def)

lemma down_with_table_ok:
  "usize a < 2 ^ 46 \<Longrightarrow> d \<le> 3 \<Longrightarrow> down_with_table v a (lv d) = Inr (at_table d (usize a) v)"
  using p2v_ok [of a] by (auto simp: down_with_table_def index_lv at_table_def)

lemma next_lv: "next_level (lv d) = (if d < 3 then Some (lv (Suc d)) else None)"
  by (cases d rule: lv.cases) auto

lemma w_level_at_table [simp]: "w_level (at_table d f v) = lv d"
  by (simp add: at_table_def)

lemma walker_target_at: "walker_target s (at_table d f v) = target_at (pg_mem s) d f v"
  by (simp add: walker_target_def at_table_def target_at_def)

lemma target_Table_level:
  assumes "target_at m d f v = Inr (Table l a)"
  shows "d < 3" "l = lv (Suc d)"
proof -
  have "next_level (lv d) = Some l" using assms entry_target_Table by (simp add: target_at_def)
  then show "d < 3" "l = lv (Suc d)" by (simp_all add: next_lv split: if_splits)
qed

text \<open>A map whose \<^verbatim>\<open>cr3\<close> refers to the root table \<open>r\<close>.\<close>

definition rooted :: "paging \<Rightarrow> nat \<Rightarrow> bool" where
  "rooted s r \<longleftrightarrow> entry_target CR3 (pg_cr3 s) = Inr (Table PML4 (Addr r))"

lemma walk_down_at:
  assumes inv: "pt_inv tys r (pg_mem s)" and f: "tys f = Some d"
  shows "rbind (walk_down s v (at_table d f v)) (\<lambda>w. rbind (walker_target s w) (\<lambda>t.
     case t of NoTarget \<Rightarrow> Inr None | Page _ a \<Rightarrow> Inr (Some a) | Table _ _ \<Rightarrow> Inl UnreachableCode)) =
    Inr (walk (pg_mem s) (4 - d) d f v)"
  using pt_invD(1) [OF inv f] f
proof (induction "4 - d" arbitrary: d f)
  case (Suc n)
  obtain t where t: "target_at (pg_mem s) d f v = Inr t"
    using pt_invD(4) [OF inv Suc.prems(2) vidx_less] unfolding target_at_vidx by blast
  have n: "4 - d = Suc n" using Suc.hyps(2) by simp
  show ?case
  proof (cases t)
    case (Table l a)
    have d: "d < 3" "l = lv (Suc d)" using target_Table_level t Table by blast+
    have ty: "tys (usize a) = Some (Suc d)"
      using pt_invD(5) [OF inv Suc.prems(2) vidx_less [of d v], of "usize a"] t Table
      by (simp add: child_def target_at_vidx)
    have a: "usize a < 2 ^ 46" by (rule pt_invD(3) [OF inv ty])
    have "try_down s v (at_table d f v) = Inr (Some (at_table (Suc d) (usize a) v))"
      using d a t Table down_with_table_ok [of a "Suc d" v]
      by (simp add: try_down_def walker_target_at next_lv)
    then have "walk_down s v (at_table d f v) = walk_down s v (at_table (Suc d) (usize a) v)"
      by (simp add: walk_down.simps [of s v "at_table d f v"])
    moreover have "n = 4 - Suc d" using n d by simp
    ultimately show ?thesis
      using Suc.hyps(1) [of "Suc d" "usize a"] d ty t Table unfolding n by simp
  qed (use t n in \<open>simp_all add: walk_down.simps [of s v "at_table d f v"] try_down_def walker_target_at
      next_lv\<close>)
qed simp

lemma walker_new_down:
  assumes "rooted s r" "r < 2 ^ 46"
  shows "walker_target s walker_new = Inr (Table PML4 (Addr r))" "next_level (w_level walker_new) = Some PML4"
    "down_with_table v (Addr r) PML4 = Inr (at_table 0 r v)"
  using assms down_with_table_ok [of "Addr r" 0 v] by (simp_all add: rooted_def walker_target_def walker_new_def)

lemma translate_lookup:
  assumes inv: "pt_inv tys r (pg_mem s)" and root: "rooted s r"
  shows "translate s v = Inr (lookup (pg_mem s) r v)"
proof -
  have r: "tys r = Some 0" "r < 2 ^ 46" using pt_inv_root [OF inv] pt_invD(3) [OF inv] by auto
  have "try_down s v walker_new = Inr (Some (at_table 0 r v))"
    by (simp add: try_down_def walker_new_down [OF root r(2)])
  then have "walk_down s v walker_new = walk_down s v (at_table 0 r v)" by (simp add: walk_down.simps [of s v walker_new])
  then show ?thesis using walk_down_at [OF inv r(1), of v] by (simp add: translate_def lookup_def)
qed

section \<open>Memory that differs outside the tables only\<close>

definition same_tables :: "typing \<Rightarrow> pmem \<Rightarrow> pmem \<Rightarrow> bool" where
  "same_tables tys m m' \<longleftrightarrow> (\<forall>f d i. tys f = Some d \<longrightarrow> i < 512 \<longrightarrow> m' (f + 8 * i) = m (f + 8 * i))"

lemma same_tablesD: "same_tables tys m m' \<Longrightarrow> tys f = Some d \<Longrightarrow> i < 512 \<Longrightarrow> m' (f + 8 * i) = m (f + 8 * i)"
  by (simp add: same_tables_def)

lemma walk_same:
  assumes inv: "pt_inv tys r m" and same: "same_tables tys m m'" and f: "tys f = Some d"
  shows "walk m' n d f v = walk m n d f v"
  using f
proof (induction n arbitrary: d f)
  case (Suc n)
  have t: "target_at m' d f v = target_at m d f v"
    using same_tablesD [OF same Suc.prems vidx_less] by (simp add: target_at_vidx)
  have "tys (usize a) = Some (Suc d)" if "target_at m d f v = Inr (Table l a)" for l a
    using pt_invD(5) [OF inv Suc.prems vidx_less [of d v], of "usize a"] that
    by (simp add: child_def target_at_vidx)
  with Suc.IH show ?case by (simp add: t split: sum.split entry_target.split)
qed simp

lemma lookup_same: "pt_inv tys r m \<Longrightarrow> same_tables tys m m' \<Longrightarrow> lookup m' r v = lookup m r v"
  by (simp add: lookup_def walk_same pt_inv_root)

lemma pt_inv_same:
  assumes inv: "pt_inv tys r m" and same: "same_tables tys m m'"
  shows "pt_inv tys r m'"
proof -
  have ch: "child m' d f i = child m d f i" if "tys f = Some d" "i < 512" for d f i
    using same_tablesD [OF same that] by (simp add: child_eq)
  have "table_ok tys m' d f" if "tys f = Some d" for d f
    using pt_inv_table [OF inv that] same_tablesD [OF same that] ch [OF that]
    by (simp add: table_ok_def entry_ok_def)
  moreover have "unshared tys m'"
    unfolding unshared_def using ch pt_inv_unshared [OF inv] by presburger
  ultimately show ?thesis using pt_inv_root [OF inv] by (simp add: pt_inv_def)
qed

text \<open>A second root with some of the entries of the first, in place of the first.\<close>

lemma pt_inv_reroot:
  assumes inv: "pt_inv tys r m" and a: "tys a = None" "4096 dvd a" "a < 2 ^ 46"
    and same: "same_tables tys m m'"
    and entries: "\<And>i. i < 512 \<Longrightarrow> m' (a + 8 * i) = 0 \<or> m' (a + 8 * i) = m (r + 8 * i)"
  shows "pt_inv (tys(r := None, a \<mapsto> 0)) a m'"
proof -
  let ?tys = "tys(r := None, a \<mapsto> 0)"
  have r: "tys r = Some 0" "r \<noteq> a" using pt_inv_root [OF inv] a(1) by auto
  have ty: "?tys g = Some e \<longleftrightarrow> g = a \<and> e = 0 \<or> g \<noteq> a \<and> g \<noteq> r \<and> tys g = Some e" for g e by auto
  have ca: "child m' 0 a i = None \<or> child m' 0 a i = child m 0 r i" if "i < 512" for i
    using entries [OF that] by (auto simp: child_eq)
  have cg: "child m' e g i = child m e g i" if "tys g = Some e" "i < 512" for g e i
    using same_tablesD [OF same that] by (simp add: child_eq)
  have typed: "?tys c = Some (Suc e)" if "tys c = Some (Suc e)" for c e using that r(1) a(1) by (auto simp: ty)
  have "table_ok ?tys m' e g" if "?tys g = Some e" for g e
  proof (cases "g = a")
    case True
    have "entry_ok ?tys m' 0 a i" if i: "i < 512" for i
      unfolding entry_ok_def
    proof (intro conjI allI impI)
      show "\<exists>t. entry_target (lv 0) (m' (a + 8 * i)) = Inr t"
        using entries [OF i] pt_invD(4) [OF inv r(1) i] entry_target_zero by metis
      fix c assume "child m' 0 a i = Some c"
      then have "child m 0 r i = Some c" using ca [OF i] by simp
      then show "?tys c = Some (Suc 0)" using typed pt_invD(5) [OF inv r(1) i] by blast
    qed
    then show ?thesis using True that a by (simp add: table_ok_def ty)
  next
    case False
    then have g: "tys g = Some e" using that unfolding ty by blast
    show ?thesis
      using pt_invD [OF inv g] same_tablesD [OF same g] cg [OF g] typed
      by (simp add: table_ok_def entry_ok_def)
  qed
  moreover have "unshared ?tys m'"
    unfolding unshared_def
  proof (intro allI impI)
    fix f f' d i i' c
    assume h: "?tys f = Some d" "?tys f' = Some d" "i < 512" "i' < 512" "child m' d f i = Some c" "child m' d f' i' = Some c"
    define old where "old g = (if g = a then r else g)" for g
    have og: "tys (old g) = Some d \<and> (child m' d g j = Some c \<longrightarrow> child m d (old g) j = Some c)"
      if "?tys g = Some d" "j < 512" for g j
      using that ca [OF that(2)] cg [of g d j] r(1) unfolding ty old_def by (auto split: if_splits)
    have "old f = old f' \<and> i = i'"
      using pt_inv_unshared [OF inv, of "old f" d "old f'" i i' c] og [OF h(1,3)] og [OF h(2,4)] h by blast
    then show "f = f' \<and> i = i'" using h(1,2) by (auto simp: old_def ty split: if_splits)
  qed
  ultimately show ?thesis by (simp add: pt_inv_def)
qed

end
