(* ===== verification/Paging_Map.thy ===== *)
theory Paging_Map
  imports Paging_Walk
begin

text \<open>
  \<^verbatim>\<open>MemoryMap::map\<close> of \<^verbatim>\<open>src/src/mem/paging.rs\<close> against the reference walk.  The allocator that \<^verbatim>\<open>map\<close> takes
  its tables from is an interface, the locale \<open>table_source\<close>: it answers with a page-aligned frame of its
  spare memory, or with nothing.  The memory it keeps spare must be filled with zeros, because
  \<^verbatim>\<open>LinearWalker::down\<close> uses a new frame as a table without clearing it.
\<close>

section \<open>The allocator\<close>

definition table_layout :: layout where
  "table_layout = \<lparr>l_size = 4096, l_align = 4096\<rparr>"

lemma page_layout_Small: "page_layout Small = Inr table_layout"
  by (simp add: page_layout_eq table_layout_def page_usize_def)

definition frame_bytes :: "nat \<Rightarrow> nat set" where
  "frame_bytes f = {f ..< f + 4096}"

text \<open>The next \<open>n\<close> requests for a table are granted.\<close>

fun grants :: "'s uma_allocator \<Rightarrow> nat \<Rightarrow> 's \<Rightarrow> bool" where
  "grants allocate 0 al \<longleftrightarrow> True"
| "grants allocate (Suc n) al \<longleftrightarrow>
     (case allocate table_layout al of Inr (Some _, al') \<Rightarrow> grants allocate n al' | _ \<Rightarrow> False)"

lemma grants_Suc_iff:
  "grants allocate (Suc n) al \<longleftrightarrow> (\<exists>r al'. allocate table_layout al = Inr (Some r, al') \<and> grants allocate n al')"
  by (auto split: sum.splits prod.splits option.splits)

declare grants.simps(2) [simp del]

lemma grants_Suc: "grants allocate (Suc n) al \<Longrightarrow> grants allocate n al"
  by (induction n arbitrary: al) (auto simp: grants_Suc_iff)

text \<open>The depth of the tables whose entries refer to pages of a size.\<close>

fun page_depth :: "page_size \<Rightarrow> nat" where
  "page_depth Small = 3"
| "page_depth Large = 2"
| "page_depth Huge = 1"

lemma page_depth_lv:
  "page_depth ps \<le> 3" "from_page_size ps = lv (page_depth ps)"
  "entry_align (lv (page_depth ps)) True = page_usize ps"
  by (cases ps; simp add: numeral_3_eq_3 numeral_2_eq_2 entry_align_def page_usize_def)+

text \<open>Two addresses are in the same virtual page when the hardware's 48 bits say so.\<close>

definition same_vpage :: "page_size \<Rightarrow> addr \<Rightarrow> addr \<Rightarrow> bool" where
  "same_vpage ps v v' \<longleftrightarrow> usize v mod 2 ^ 48 div page_usize ps = usize v' mod 2 ^ 48 div page_usize ps"

lemma vpage_step:
  assumes "s = t + 9"
  shows "(x::nat) mod 2 ^ 48 div 2 ^ t = 512 * (x mod 2 ^ 48 div 2 ^ s) + x mod 2 ^ 48 div 2 ^ t mod 512"
proof -
  have "x mod 2 ^ 48 div 2 ^ s = x mod 2 ^ 48 div 2 ^ t div 512"
    by (simp only: assms power_add div_mult2_eq) simp
  then show ?thesis by (simp only: mult_div_mod_eq)
qed

lemma vidx_mod:
  assumes "d \<le> 3"
  shows "vidx d v = usize v mod 2 ^ 48 div 2 ^ (39 - 9 * d) mod 512"
proof -
  let ?s = "39 - 9 * d"
  have "drop_bit ?s (take_bit 48 (usize v)) = take_bit (48 - ?s) (drop_bit ?s (usize v))"
    by (rule drop_bit_take_bit)
  then have "take_bit 9 (drop_bit ?s (take_bit 48 (usize v))) = take_bit (min 9 (48 - ?s)) (drop_bit ?s (usize v))"
    by simp
  moreover have "min 9 (48 - ?s) = 9" using assms by simp
  ultimately show ?thesis by (simp add: vidx_def take_bit_eq_mod drop_bit_eq_div)
qed

lemma agree_vpage:
  assumes "d \<le> 3"
  shows "agree d v v' \<longleftrightarrow> usize v mod 2 ^ 48 div 2 ^ (39 - 9 * d) = usize v' mod 2 ^ 48 div 2 ^ (39 - 9 * d)"
  using assms
proof (induction d)
  case 0
  have "usize w mod 2 ^ 48 div 2 ^ 39 < 512" for w
    by (rule less_mult_imp_div_less) simp
  then have "usize w mod 2 ^ 48 div 2 ^ 39 mod 512 = usize w mod 2 ^ 48 div 2 ^ 39" for w by simp
  then show ?case by (simp add: agree_def vidx_mod)
next
  case (Suc d)
  define t where "t = 39 - 9 * Suc d"
  have t: "39 - 9 * d = t + 9" using Suc.prems by (simp add: t_def)
  have ix: "vidx (Suc d) w = usize w mod 2 ^ 48 div 2 ^ t mod 512" for w
    using vidx_mod [OF Suc.prems] by (simp only: t_def)
  note st = vpage_step [OF t, unfolded t]
  have "agree (Suc d) v v' \<longleftrightarrow> agree d v v' \<and> vidx (Suc d) v = vidx (Suc d) v'"
    by (auto simp: agree_def le_Suc_eq)
  also have "\<dots> \<longleftrightarrow> usize v mod 2 ^ 48 div 2 ^ (t + 9) = usize v' mod 2 ^ 48 div 2 ^ (t + 9) \<and>
      usize v mod 2 ^ 48 div 2 ^ t mod 512 = usize v' mod 2 ^ 48 div 2 ^ t mod 512"
    using Suc by (simp only: ix t)
  also have "\<dots> \<longleftrightarrow> usize v mod 2 ^ 48 div 2 ^ t = usize v' mod 2 ^ 48 div 2 ^ t"
    using st [of "usize v"] st [of "usize v'"]
    by (metis mixed_radix_inject mod_less_divisor zero_less_numeral)
  finally show ?case by (simp only: t_def)
qed

lemma agree_same_vpage: "agree (page_depth ps) v v' \<longleftrightarrow> same_vpage ps v v'"
  unfolding agree_vpage [OF page_depth_lv(1)] same_vpage_def by (cases ps) (simp_all add: page_usize_def)

text \<open>Tables are apart from spare memory, and spare memory is zero.\<close>

definition apart :: "typing \<Rightarrow> pmem \<Rightarrow> nat set \<Rightarrow> bool" where
  "apart tys m S \<longleftrightarrow> (\<forall>f d. tys f = Some d \<longrightarrow> frame_bytes f \<inter> S = {}) \<and> (\<forall>p \<in> S. m p = 0)"

lemma apartD: "apart tys m S \<Longrightarrow> tys f = Some d \<Longrightarrow> i < 512 \<Longrightarrow> f + 8 * i \<notin> S"
  by (auto simp: apart_def frame_bytes_def disjoint_iff)

lemma apart_put:
  assumes "apart tys m S" "tys f = Some d" "i < 512" "S' \<subseteq> S"
  shows "apart tys (put m (f + 8 * i) raw) S'"
proof -
  have "f + 8 * i \<notin> S" by (rule apartD [OF assms(1-3)])
  then have "\<forall>p\<in>S'. p \<noteq> f + 8 * i" using assms(4) by blast
  then show ?thesis using assms(1,4) unfolding apart_def by (auto simp: disjoint_iff subset_iff)
qed

lemma apart_new: "apart tys m S \<Longrightarrow> frame_bytes a \<inter> S = {} \<Longrightarrow> apart (tys(a \<mapsto> d)) m S"
  by (auto simp: apart_def)

lemma apart_fresh:
  assumes "apart tys m S" "frame_bytes a \<subseteq> S" "4096 dvd a" "a < 2 ^ 46"
  shows "fresh_table tys m a"
proof -
  have a: "a + 8 * i \<in> S" if "i < 512" for i using assms(2) that by (auto simp: frame_bytes_def)
  have "tys a = None"
    using apartD [OF assms(1), of a _ 0] a [of 0] by (cases "tys a") auto
  then show ?thesis using a assms by (simp add: fresh_table_def apart_def)
qed

text \<open>One step down to a new table.\<close>

lemma tbl_None_mono: "tbl m r v d = None \<Longrightarrow> d \<le> e \<Longrightarrow> tbl m r v e = None"
  by (induction e) (auto simp: le_Suc_eq)

lemma hits_page_None: "tbl m r v d = None \<Longrightarrow> \<not> hits_page m r v d"
  by (simp add: hits_page_def)

lemma table_flags: "l \<noteq> CR3 \<Longrightarrow> flags_ok l DEFAULT_PAGE_TABLE_FLAGS"
  "points_to_page l DEFAULT_PAGE_TABLE_FLAGS \<longleftrightarrow> l = PT"
  by (auto simp: flags_ok_def points_to_page_def DEFAULT_PAGE_TABLE_FLAGS_def)

definition table_entry :: "nat \<Rightarrow> raw_entry" where
  "table_entry a = entry_word (Addr a) DEFAULT_PAGE_TABLE_FLAGS"

lemma lv_eq_PT: "lv d = PT \<longleftrightarrow> 3 \<le> d"
  by (cases d rule: lv.cases) auto

lemma reinit_table:
  assumes "d < 3" "4096 dvd a" "a < 2 ^ 46"
  shows "reinit (lv d) raw (Addr a) DEFAULT_PAGE_TABLE_FLAGS = Inr (True, table_entry a)"
    "entry_target (lv d) (table_entry a) = Inr (Table (lv (Suc d)) (Addr a))"
  using assms reinit_ok [of "lv d" DEFAULT_PAGE_TABLE_FLAGS "Addr a"]
    entry_word_target [of "lv d" DEFAULT_PAGE_TABLE_FLAGS "Addr a"]
  by (simp_all add: table_flags lv_eq_PT entry_align_def table_entry_def made_target_def next_lv)

lemma lv_inject: "d \<le> 3 \<Longrightarrow> e \<le> 3 \<Longrightarrow> lv d = lv e \<longleftrightarrow> d = e"
  by (cases d rule: lv.cases; cases e rule: lv.cases) auto

text \<open>The effect of giving an entry without a table an empty one.\<close>

lemma put_table_effect:
  assumes inv: "pt_inv tys r m" and f: "tbl m r v d = Some f" and d: "d < 3" and fresh: "fresh_table tys m a"
    and nt: "child m d f (vidx d v) = None"
  defines "m' \<equiv> put m (slot f d v) (table_entry a)"
  shows "pt_inv (tys(a \<mapsto> Suc d)) r m'" "tbl m' r v (Suc d) = Some a"
    "lookup m' r v' = (if hits_page m r v d \<and> agree d v v' then None else lookup m r v')"
    "d < e \<Longrightarrow> \<not> hits_page m r v e" "d < e \<Longrightarrow> \<not> hits_page m' r v e"
proof -
  have ty: "tys f = Some d" by (rule tbl_typed [OF inv f])
  have a: "4096 dvd a" "a < 2 ^ 46" using fresh by (simp_all add: fresh_table_def)
  note tgt = reinit_table(2) [OF d a]
  show "pt_inv (tys(a \<mapsto> Suc d)) r m'"
    unfolding m'_def slot_def by (rule pt_inv_put_table [OF inv ty vidx_less d tgt fresh])
  have "tbl m' r v d = Some f" unfolding m'_def using tbl_update [OF inv ty le_refl] f by simp
  then show ta: "tbl m' r v (Suc d) = Some a"
    by (simp add: tgt target_at_def m'_def)
  have none: "tbl m r v (Suc d) = None" using f nt by (simp add: tbl_Suc del: tbl.simps(2))
  then show "d < e \<Longrightarrow> \<not> hits_page m r v e" using tbl_None_mono hits_page_None by (metis Suc_leI)
  have wf: "walk m' n e a w = None" for n e w
    unfolding m'_def slot_def by (rule walk_fresh [OF inv ty vidx_less fresh])
  have "tbl m' r v (Suc (Suc d)) = None" "\<not> hits_page m' r v (Suc d)"
    using ta fresh_target [OF inv ty vidx_less fresh] by (simp_all add: m'_def slot_def hits_page_def)
  then show "d < e \<Longrightarrow> \<not> hits_page m' r v e"
    using tbl_None_mono hits_page_None by (metis Suc_leI le_less)
  show "lookup m' r v' = (if hits_page m r v d \<and> agree d v v' then None else lookup m r v')"
  proof (cases "agree d v v'")
    case True
    then have "lookup m' r v' = None"
      using lookup_update_agree [OF inv f True, of "table_entry a"] wf by (simp add: m'_def tgt)
    then show ?thesis using lookup_none [OF inv f nt _ True] True by auto
  qed (simp add: m'_def lookup_update_other [OF inv f])
qed

lemma ex_at_depth: "(\<exists>e. d \<le> e \<and> e < Suc d \<and> P e) \<longleftrightarrow> P d"
  by (auto simp: less_Suc_eq_le dest: le_antisym)

lemma ex_depth_split:
  "d < D \<Longrightarrow> (\<exists>e. d \<le> e \<and> e < D \<and> P e) \<longleftrightarrow> P d \<or> (\<exists>e. Suc d \<le> e \<and> e < D \<and> P e)"
proof -
  assume d: "d < D"
  have le: "d \<le> e \<longleftrightarrow> e = d \<or> Suc d \<le> e" for e by auto
  show ?thesis unfolding le using d by blast
qed

lemma pg_mem_write: "pg_mem (write_entry s (At p) raw) = put (pg_mem s) p raw"
  by simp

text \<open>Mapping a page at depth \<open>D\<close> splits a larger page that holds the same address; what was mapped by the
  rest of that page is not mapped any more.\<close>

definition unmaps :: "paging \<Rightarrow> nat \<Rightarrow> addr \<Rightarrow> nat \<Rightarrow> addr \<Rightarrow> bool" where
  "unmaps s r v D v' \<longleftrightarrow> (\<exists>e<D. hits_page (pg_mem s) r v e \<and> agree e v v')"

lemma map_walk_root:
  assumes "rooted s r" "r < 2 ^ 46"
  shows "map_walk allocate (lv D) v walker_new s al = map_walk allocate (lv D) v (at_table 0 r v) s al"
proof -
  have l: "w_level walker_new = CR3" by (simp add: walker_new_def)
  have "down allocate v walker_new s al = Inr (at_table 0 r v, s, al)"
    by (simp add: down_def walker_new_down [OF assms])
  moreover have "CR3 \<noteq> lv D" using lv_neq_CR3 by metis
  ultimately show ?thesis by (subst map_walk.simps) (simp add: l)
qed

locale table_source =
  fixes allocate :: "'s uma_allocator"
    and ainv :: "'s \<Rightarrow> bool"
    and spare :: "'s \<Rightarrow> nat set"
  assumes allocate_law: "ainv al \<Longrightarrow> \<exists>o' al'. allocate table_layout al = Inr (o', al') \<and> ainv al' \<and>
      spare al' \<subseteq> spare al \<and>
      (\<forall>r. o' = Some r \<longrightarrow> 4096 dvd usize (ar_base r) \<and> usize (ar_base r) < 2 ^ 46 \<and>
        frame_bytes (usize (ar_base r)) \<subseteq> spare al - spare al')"
begin

text \<open>What a state of the map is, between the steps of \<^verbatim>\<open>map\<close>.\<close>

definition mapped :: "typing \<Rightarrow> nat \<Rightarrow> paging \<Rightarrow> 's \<Rightarrow> bool" where
  "mapped tys r s al \<longleftrightarrow> pt_inv tys r (pg_mem s) \<and> rooted s r \<and> ainv al \<and> apart tys (pg_mem s) (spare al)"

lemma write_table:
  assumes st: "mapped tys r s al" and al: "ainv al'" "spare al' \<subseteq> spare al"
    and fr: "frame_bytes a \<subseteq> spare al - spare al'" "4096 dvd a" "a < 2 ^ 46"
    and f: "tbl (pg_mem s) r v d = Some f" and d: "d < 3" and nt: "child (pg_mem s) d f (vidx d v) = None"
  shows "mapped (tys(a \<mapsto> Suc d)) r (write_entry s (At (slot f d v)) (table_entry a)) al'"
    "tbl (put (pg_mem s) (slot f d v) (table_entry a)) r v (Suc d) = Some a"
    "lookup (put (pg_mem s) (slot f d v) (table_entry a)) r v' =
      (if hits_page (pg_mem s) r v d \<and> agree d v v' then None else lookup (pg_mem s) r v')"
    "d < e \<Longrightarrow> hits_page (put (pg_mem s) (slot f d v) (table_entry a)) r v e = hits_page (pg_mem s) r v e"
proof -
  have inv: "pt_inv tys r (pg_mem s)" and ap: "apart tys (pg_mem s) (spare al)"
    using st by (simp_all add: mapped_def)
  have fresh: "fresh_table tys (pg_mem s) a" by (rule apart_fresh [OF ap _ fr(2,3)]) (use fr(1) in blast)
  note eff = put_table_effect [OF inv f d fresh nt]
  have "apart tys (put (pg_mem s) (f + 8 * vidx d v) (table_entry a)) (spare al')"
    by (rule apart_put [OF ap tbl_typed [OF inv f] vidx_less al(2)])
  then have "apart (tys(a \<mapsto> Suc d)) (put (pg_mem s) (slot f d v) (table_entry a)) (spare al')"
    using fr(1) unfolding slot_def by (intro apart_new) auto
  then show "mapped (tys(a \<mapsto> Suc d)) r (write_entry s (At (slot f d v)) (table_entry a)) al'"
    using st al(1) eff(1) by (simp add: mapped_def rooted_def)
  show "tbl (put (pg_mem s) (slot f d v) (table_entry a)) r v (Suc d) = Some a" by (rule eff(2))
  show "lookup (put (pg_mem s) (slot f d v) (table_entry a)) r v' =
      (if hits_page (pg_mem s) r v d \<and> agree d v v' then None else lookup (pg_mem s) r v')" by (rule eff(3))
  show "d < e \<Longrightarrow> hits_page (put (pg_mem s) (slot f d v) (table_entry a)) r v e = hits_page (pg_mem s) r v e"
    using eff(4,5) by blast
qed

text \<open>One or more steps of the walker, from the table of depth \<open>d\<close> to the one of depth \<open>D\<close>: the pages on
  the way are gone, every other translation is as it was.\<close>

definition stepped :: "typing \<Rightarrow> nat \<Rightarrow> paging \<Rightarrow> 's \<Rightarrow> addr \<Rightarrow> nat \<Rightarrow> nat \<Rightarrow> typing \<Rightarrow> nat \<Rightarrow> paging \<Rightarrow> 's \<Rightarrow> bool" where
  "stepped tys r s al v d D tys' g s' al' \<longleftrightarrow>
     mapped tys' r s' al' \<and> tbl (pg_mem s') r v D = Some g \<and>
     (\<forall>v'. lookup (pg_mem s') r v' =
       (if \<exists>e. d \<le> e \<and> e < D \<and> hits_page (pg_mem s) r v e \<and> agree e v v' then None
        else lookup (pg_mem s) r v')) \<and>
     (\<forall>e\<ge>D. hits_page (pg_mem s') r v e = hits_page (pg_mem s) r v e)"

lemma down_step:
  assumes st: "mapped tys r s al" and f: "tbl (pg_mem s) r v d = Some f" and d: "d < 3"
  shows "down allocate v (at_table d f v) s al = Inl ExpectFailed \<and> \<not> grants allocate (Suc 0) al \<or>
    (\<exists>tys' g s' al'. down allocate v (at_table d f v) s al = Inr (at_table (Suc d) g v, s', al') \<and>
      stepped tys r s al v d (Suc d) tys' g s' al' \<and>
      (\<forall>n. grants allocate (Suc n) al \<longrightarrow> grants allocate n al'))"
proof -
  have inv: "pt_inv tys r (pg_mem s)" using st by (simp add: mapped_def)
  have ty: "tys f = Some d" by (rule tbl_typed [OF inv f])
  obtain t where t: "target_at (pg_mem s) d f v = Inr t"
    using pt_invD(4) [OF inv ty vidx_less] unfolding target_at_vidx by blast
  have nx: "next_level (w_level (at_table d f v)) = Some (lv (Suc d))" using d by (simp add: next_lv)
  show ?thesis
  proof (cases "\<exists>l a. t = Table l a")
    case True
    then obtain l a where tt: "t = Table l a" by blast
    have l: "l = lv (Suc d)" using target_Table_level t tt by blast
    have tb: "tbl (pg_mem s) r v (Suc d) = Some (usize a)" using f t tt by simp
    have "usize a < 2 ^ 46" by (rule pt_invD(3) [OF inv tbl_typed [OF inv tb]])
    then have "down_with_table v a l = Inr (at_table (Suc d) (usize a) v)"
      using d l by (simp add: down_with_table_ok)
    then have "down allocate v (at_table d f v) s al = Inr (at_table (Suc d) (usize a) v, s, al)"
      unfolding down_def nx by (simp add: walker_target_at t tt)
    moreover have "\<not> hits_page (pg_mem s) r v d" using f t tt by (simp add: hits_page_def)
    then have "stepped tys r s al v d (Suc d) tys (usize a) s al"
      using st tb by (simp add: stepped_def ex_at_depth)
    moreover have "\<forall>n. grants allocate (Suc n) al \<longrightarrow> grants allocate n al" by (simp add: grants_Suc)
    ultimately show ?thesis by blast
  next
    case False
    have nt: "child (pg_mem s) d f (vidx d v) = None"
      using t False by (cases t) (auto simp: child_def target_at_vidx)
    have dn: "down allocate v (at_table d f v) s al =
        rbind (allocate table_layout al) (\<lambda>(o', al'). rbind (rexpect o') (\<lambda>ar.
        rbind (walker_reinit s (at_table d f v) (ar_base ar) DEFAULT_PAGE_TABLE_FLAGS) (\<lambda>(_, s').
        rbind (down_with_table v (ar_base ar) (lv (Suc d))) (\<lambda>w'. Inr (w', s', al')))))"
      unfolding down_def nx using False by (cases t) (auto simp: walker_target_at t page_layout_Small)
    obtain o' al' where o: "allocate table_layout al = Inr (o', al')" "ainv al'" "spare al' \<subseteq> spare al"
      "\<forall>r. o' = Some r \<longrightarrow> 4096 dvd usize (ar_base r) \<and> usize (ar_base r) < 2 ^ 46 \<and>
        frame_bytes (usize (ar_base r)) \<subseteq> spare al - spare al'"
      using allocate_law [of al] st by (auto simp: mapped_def)
    show ?thesis
    proof (cases o')
      case None
      then show ?thesis using o(1) by (simp add: dn grants_Suc_iff)
    next
      case (Some ar)
      define a where "a = usize (ar_base ar)"
      have ar: "ar_base ar = Addr a" by (simp add: a_def)
      have fr: "frame_bytes a \<subseteq> spare al - spare al'" "4096 dvd a" "a < 2 ^ 46" using o(4) Some by (auto simp: a_def)
      note w = write_table [OF st o(2,3) fr f d nt]
      let ?s = "write_entry s (At (slot f d v)) (table_entry a)"
      have "walker_reinit s (at_table d f v) (Addr a) DEFAULT_PAGE_TABLE_FLAGS = Inr (True, ?s)"
        using reinit_table(1) [OF d fr(2,3)] by (simp add: walker_reinit_def at_table_def)
      then have "down allocate v (at_table d f v) s al = Inr (at_table (Suc d) a v, ?s, al')"
        using down_with_table_ok [of "Addr a" "Suc d" v] fr(3) d by (simp add: dn o(1) Some ar)
      moreover have "stepped tys r s al v d (Suc d) (tys(a \<mapsto> Suc d)) a ?s al'"
        using w unfolding stepped_def ex_at_depth pg_mem_write by simp
      moreover have "\<forall>n. grants allocate (Suc n) al \<longrightarrow> grants allocate n al'"
        using o(1) by (simp add: grants_Suc_iff)
      ultimately show ?thesis by blast
    qed
  qed
qed

lemma write_page:
  assumes st: "mapped tys r s al" and f: "tbl (pg_mem s) r v d = Some f"
    and tgt: "entry_target (lv d) raw = Inr (Page l p)"
  shows "mapped tys r (write_entry s (At (slot f d v)) raw) al"
    "lookup (pg_mem (write_entry s (At (slot f d v)) raw)) r v' =
      (if agree d v v' then Some p else lookup (pg_mem s) r v')"
proof -
  have inv: "pt_inv tys r (pg_mem s)" and ap: "apart tys (pg_mem s) (spare al)"
    using st by (simp_all add: mapped_def)
  have ty: "tys f = Some d" by (rule tbl_typed [OF inv f])
  have "child_of d raw = None" by (simp add: child_of_def tgt)
  from pt_inv_put_leaf [OF inv ty vidx_less tgt this]
  have "pt_inv tys r (put (pg_mem s) (slot f d v) raw)" by (simp add: slot_def)
  moreover have "apart tys (put (pg_mem s) (slot f d v) raw) (spare al)"
    unfolding slot_def by (rule apart_put [OF ap ty vidx_less subset_refl])
  ultimately show "mapped tys r (write_entry s (At (slot f d v)) raw) al"
    using st by (simp add: mapped_def rooted_def)
  show "lookup (pg_mem (write_entry s (At (slot f d v)) raw)) r v' =
      (if agree d v v' then Some p else lookup (pg_mem s) r v')"
    using lookup_update_agree [OF inv f, of v' raw] lookup_update_other [OF inv f, of v' raw]
    unfolding pg_mem_write by (simp add: tgt)
qed

lemma stepped_trans:
  assumes a: "stepped tys r s al v d (Suc d) tys1 g s1 al1" and b: "stepped tys1 r s1 al1 v (Suc d) D tys' g' s' al'"
    and d: "d < D"
  shows "stepped tys r s al v d D tys' g' s' al'"
proof -
  have hp: "hits_page (pg_mem s1) r v e = hits_page (pg_mem s) r v e" if "Suc d \<le> e" for e
    using a that by (simp add: stepped_def)
  have "(\<exists>e. d \<le> e \<and> e < D \<and> hits_page (pg_mem s) r v e \<and> agree e v v') \<longleftrightarrow>
      (hits_page (pg_mem s) r v d \<and> agree d v v') \<or>
      (\<exists>e. Suc d \<le> e \<and> e < D \<and> hits_page (pg_mem s1) r v e \<and> agree e v v')" for v'
    unfolding ex_depth_split [OF d] using hp by blast
  then show ?thesis using a b hp d unfolding stepped_def ex_at_depth by (simp, blast)
qed

lemma map_walk_run:
  assumes "mapped tys r s al" "tbl (pg_mem s) r v d = Some f" "d \<le> D" "D \<le> 3"
  shows "map_walk allocate (lv D) v (at_table d f v) s al = Some (Inl ExpectFailed) \<and> \<not> grants allocate (D - d) al \<or>
    (\<exists>tys' g s' al'. map_walk allocate (lv D) v (at_table d f v) s al = Some (Inr (at_table D g v, s', al')) \<and>
      stepped tys r s al v d D tys' g s' al')"
  using assms
proof (induction "D - d" arbitrary: tys s al d f)
  case 0
  then have "d = D" by simp
  with 0 have "stepped tys r s al v d D tys f s al" by (auto simp: stepped_def)
  then show ?case using \<open>d = D\<close> by (auto simp: map_walk.simps)
next
  case (Suc n)
  have d: "d < D" "d < 3" using Suc.hyps(2) Suc.prems(4) by simp_all
  have ne: "lv d \<noteq> lv D" using d Suc.prems(4) by (auto simp: lv_inject)
  from down_step [OF Suc.prems(1,2) d(2)] show ?case
  proof (elim disjE exE conjE)
    assume h: "down allocate v (at_table d f v) s al = Inl ExpectFailed" "\<not> grants allocate (Suc 0) al"
    have "\<not> grants allocate (D - d) al" using h(2) unfolding Suc.hyps(2) [symmetric] by (auto simp: grants_Suc_iff)
    with h(1) ne show ?thesis by (simp add: map_walk.simps [of _ _ _ "at_table d f v"])
  next
    fix tys1 g s1 al1
    assume h: "down allocate v (at_table d f v) s al = Inr (at_table (Suc d) g v, s1, al1)"
      "stepped tys r s al v d (Suc d) tys1 g s1 al1" "\<forall>n. grants allocate (Suc n) al \<longrightarrow> grants allocate n al1"
    have mw: "map_walk allocate (lv D) v (at_table d f v) s al = map_walk allocate (lv D) v (at_table (Suc d) g v) s1 al1"
      using h(1) ne by (simp add: map_walk.simps [of _ _ _ "at_table d f v"])
    have st1: "mapped tys1 r s1 al1" "tbl (pg_mem s1) r v (Suc d) = Some g" using h(2) by (simp_all add: stepped_def)
    have n: "n = D - Suc d" "D - d = Suc (D - Suc d)" "Suc d \<le> D" using Suc.hyps(2) d by simp_all
    from Suc.hyps(1) [OF n(1) st1 n(3) Suc.prems(4)] show ?thesis
    proof (elim disjE exE conjE)
      assume "map_walk allocate (lv D) v (at_table (Suc d) g v) s1 al1 = Some (Inl ExpectFailed)"
        "\<not> grants allocate (D - Suc d) al1"
      then show ?thesis using h(3) unfolding mw n(2) by blast
    next
      fix tys' g' s' al'
      assume k: "map_walk allocate (lv D) v (at_table (Suc d) g v) s1 al1 = Some (Inr (at_table D g' v, s', al'))"
        "stepped tys1 r s1 al1 v (Suc d) D tys' g' s' al'"
      have "stepped tys r s al v d D tys' g' s' al'" by (rule stepped_trans [OF h(2) k(2) d(1)])
      with k(1) show ?thesis unfolding mw by blast
    qed
  qed
qed

text \<open>The whole of \<^verbatim>\<open>map\<close>.\<close>

lemma map_page_run:
  assumes st: "mapped tys r s al" and D: "D = page_depth ps" and fl: "flags_ok (lv D) flags" "points_to_page (lv D) flags"
    and p: "page_usize ps dvd usize p" "usize p < 2 ^ 46"
  shows "map_page allocate \<lparr>pa_base = v, pa_page_size = ps\<rparr> \<lparr>pa_base = p, pa_page_size = ps\<rparr> flags s al =
      Some (Inl ExpectFailed) \<and> \<not> grants allocate D al \<or>
    (\<exists>tys' s' al'. map_page allocate \<lparr>pa_base = v, pa_page_size = ps\<rparr> \<lparr>pa_base = p, pa_page_size = ps\<rparr> flags s al =
      Some (Inr (Some (), s', al')) \<and> mapped tys' r s' al' \<and>
      (\<forall>v'. lookup (pg_mem s') r v' =
        (if agree D v v' then Some p else if unmaps s r v D v' then None else lookup (pg_mem s) r v')))"
proof -
  have D3: "D \<le> 3" "from_page_size ps = lv D" "entry_align (lv D) True = page_usize ps"
    unfolding D by (fact page_depth_lv)+
  have inv: "pt_inv tys r (pg_mem s)" and root: "rooted s r" using st by (simp_all add: mapped_def)
  have r: "r < 2 ^ 46" by (rule pt_invD(3) [OF inv pt_inv_root [OF inv]])
  note mw = map_walk_root [OF root r, of allocate D v al]
  have mp: "map_page allocate \<lparr>pa_base = v, pa_page_size = ps\<rparr> \<lparr>pa_base = p, pa_page_size = ps\<rparr> flags s al =
      (case map_walk allocate (lv D) v (at_table 0 r v) s al of None \<Rightarrow> None
       | Some x \<Rightarrow> Some (rbind x (\<lambda>(w, s, al). rbind (walker_reinit s w p flags) (\<lambda>(_, s). Inr (Some (), s, al)))))"
    by (simp add: map_page_def D3(2) mw split: option.split)
  have "tbl (pg_mem s) r v 0 = Some r" by simp
  from map_walk_run [OF st this le0 D3(1)] show ?thesis
  proof (elim disjE exE conjE)
    fix tys' g s' al'
    assume h: "map_walk allocate (lv D) v (at_table 0 r v) s al = Some (Inr (at_table D g v, s', al'))"
      "stepped tys r s al v 0 D tys' g s' al'"
    have st': "mapped tys' r s' al'" and g: "tbl (pg_mem s') r v D = Some g" using h(2) by (simp_all add: stepped_def)
    have al: "entry_align (lv D) (points_to_page (lv D) flags) dvd usize p"
      using p(1) fl(2) D3(3) by simp
    let ?s = "write_entry s' (At (slot g D v)) (entry_word p flags)"
    have "walker_reinit s' (at_table D g v) p flags = Inr (True, ?s)"
      using reinit_ok [OF fl(1) al] by (simp add: walker_reinit_def at_table_def)
    then have ret: "map_page allocate \<lparr>pa_base = v, pa_page_size = ps\<rparr> \<lparr>pa_base = p, pa_page_size = ps\<rparr> flags s al =
        Some (Inr (Some (), ?s, al'))" by (simp add: mp h(1))
    have tgt: "entry_target (lv D) (entry_word p flags) = Inr (Page (lv D) p)"
      using entry_word_target [OF fl(1) al p(2)] fl(2) by (simp add: made_target_def)
    note page = write_page [OF st' g tgt]
    have "lookup (pg_mem ?s) r v' = (if agree D v v' then Some p else if unmaps s r v D v' then None
        else lookup (pg_mem s) r v')" for v'
      using page(2) [of v'] h(2) by (simp add: stepped_def unmaps_def)
    then show ?thesis using ret page(1) by blast
  qed (simp add: mp)
qed

end

end
