(* ===== verification/Paging_Init.thy ===== *)
theory Paging_Init
  imports Paging_Map
begin

text \<open>
  \<^verbatim>\<open>X86_64MemoryManager::init\<close> of \<^verbatim>\<open>src/src/mem/paging.rs\<close>, which builds the first memory map in static
  tables, and the other operations of the memory manager.

  Where the linker places the static tables and where the kernel ends are parameters, the record
  \<open>kernel_image\<close> of virtual addresses.  The tables start out as zeros.
\<close>

section \<open>The model\<close>

record kernel_image =
  PML4_TABLE :: nat
  PDPT_TABLES :: nat
  KERNEL_PD_TABLE :: nat
  kernel_end_vma :: nat

text \<open>The memory of a static at a virtual address of the kernel image, and the address that the code
  computes for it.\<close>

definition phys_of :: "nat \<Rightarrow> nat" where
  "phys_of v = v - RANGE_start KernelImageSpace"

definition static_v2p :: "nat \<Rightarrow> addr res" where
  "static_v2p v = rbind (addr_new KernelImageSpace v) kernel_image_v2p"

text \<open>\<^verbatim>\<open>EntryRef::reinit\<close> on the entry at a physical address.\<close>

definition reinit_at :: "level \<Rightarrow> nat \<Rightarrow> addr \<Rightarrow> flag list \<Rightarrow> pmem \<Rightarrow> (bool \<times> pmem) res" where
  "reinit_at l p a flags m =
     rbind (reinit l (m p) a flags) (\<lambda>(ok, raw). Inr (ok, put m p raw))"

definition KERNEL_PAGE_FLAGS :: "flag list" where
  "KERNEL_PAGE_FLAGS = [Present, PageSize, Global, ReadWrite]"

definition REMAP_PAGE_FLAGS :: "flag list" where
  "REMAP_PAGE_FLAGS = [Present, PageSize, Global, ReadWrite]"

text \<open>The loop of \<^verbatim>\<open>init_kernel_pdpt\<close> over the pages of the kernel image.\<close>

function map_kernel_pages :: "nat \<Rightarrow> nat \<Rightarrow> addr \<Rightarrow> pmem \<Rightarrow> pmem res" where
  "map_kernel_pages kernel_end pd vaddr m =
     rbind (addr_new KernelImageSpace kernel_end) (\<lambda>end.
     if usize vaddr < usize end then
       rbind (kernel_image_v2p vaddr) (\<lambda>paddr.
       rbind (index_with_vaddr PD pd vaddr) (\<lambda>p.
       rbind (reinit_at PD p paddr KERNEL_PAGE_FLAGS m) (\<lambda>(_, m).
       rbind (level_page_size PD) (\<lambda>ps.
       rbind (byte_add KernelImageSpace vaddr (page_usize ps)) (\<lambda>vaddr.
       map_kernel_pages kernel_end pd vaddr m)))))
     else Inr m)"
  by pat_completeness auto
termination
  by (relation "measure (\<lambda>(kernel_end, pd, vaddr, m). kernel_end - usize vaddr)")
    (auto simp: byte_add_def usize_add_def addr_new_def rbind_eq_Inr_iff page_usize_def split: if_splits)

declare map_kernel_pages.simps [simp del]

definition init_kernel_pdpt :: "kernel_image \<Rightarrow> nat \<Rightarrow> pmem \<Rightarrow> pmem res" where
  "init_kernel_pdpt img pdpt m =
     rbind (addr_new KernelImageSpace (RANGE_start KernelImageSpace)) (\<lambda>kernel_space_start.
     rbind (index_with_vaddr PDPT pdpt kernel_space_start) (\<lambda>p.
     rbind (static_v2p (KERNEL_PD_TABLE img)) (\<lambda>pd.
     rbind (reinit_at PDPT p pd DEFAULT_PAGE_TABLE_FLAGS m) (\<lambda>(ok, m).
     rbind (rexpect (if ok then Some () else None)) (\<lambda>_.
     map_kernel_pages (kernel_end_vma img) (phys_of (KERNEL_PD_TABLE img)) kernel_space_start m)))))"

definition init_physical_remap_pdpt :: "nat \<Rightarrow> nat \<Rightarrow> pmem \<Rightarrow> pmem res" where
  "init_physical_remap_pdpt pdpt remap_idx m =
     rbind (level_page_size PDPT) (\<lambda>ps.
     rbind (usize_mul (page_usize ps) TABLE_LEN) (\<lambda>table_span.
     rbind (usize_mul remap_idx table_span) (\<lambda>remap_start.
     rfold (\<lambda>(idx, p) m.
       rbind (usize_mul idx (page_usize ps)) (\<lambda>off.
       rbind (usize_add remap_start off) (\<lambda>x.
       rbind (addr_new UMASpace x) (\<lambda>remap_paddr.
       rbind (reinit_at PDPT p remap_paddr REMAP_PAGE_FLAGS m) (\<lambda>(_, m). Inr m)))))
       (enumerate 0 (entry_refs pdpt)) m)))"

text \<open>The index of an address of a space in the root table.\<close>

definition pml4_index :: "addr_space \<Rightarrow> nat \<Rightarrow> nat res" where
  "pml4_index S v =
     rbind (addr_new S v) (\<lambda>a. rbind (page_table_idx_range PML4) (\<lambda>rng. index_range a rng))"

text \<open>The body of the loop over the static tables of the second level.\<close>

definition init_pdpt :: "kernel_image \<Rightarrow> addr_range \<Rightarrow> nat \<Rightarrow> pmem \<Rightarrow> pmem res" where
  "init_pdpt img managed idx0 m =
     (let table = PDPT_TABLES img + idx0 * TABLE_SIZE in
     rbind (usize_add idx0 256) (\<lambda>idx.
     rbind (pml4_index KernelImageSpace (RANGE_start KernelImageSpace)) (\<lambda>kernel_page_idx.
     rbind (pml4_index PhysicalRemapSpace (RANGE_start PhysicalRemapSpace)) (\<lambda>remap_page_start.
     rbind (usize_sub (RANGE_end PhysicalRemapSpace) 1) (\<lambda>space_last.
     rbind (usize_add (RANGE_start PhysicalRemapSpace) (ar_size managed)) (\<lambda>e.
     rbind (usize_sub e 1) (\<lambda>managed_last.
     rbind (pml4_index PhysicalRemapSpace (min space_last managed_last)) (\<lambda>remap_page_end.
     rbind (if idx = kernel_page_idx then init_kernel_pdpt img (phys_of table) m
            else if remap_page_start \<le> idx \<and> idx \<le> remap_page_end
            then rbind (usize_sub idx remap_page_start) (\<lambda>i. init_physical_remap_pdpt (phys_of table) i m)
            else Inr m) (\<lambda>m.
     rbind (static_v2p table) (\<lambda>pdpt_table_paddr.
     rbind (table_index (phys_of (PML4_TABLE img)) idx) (\<lambda>p.
     rbind (reinit_at PML4 p pdpt_table_paddr DEFAULT_PAGE_TABLE_FLAGS m) (\<lambda>(_, m). Inr m))))))))))))"

text \<open>The memory manager: the current map, and the register of the processor that is loaded with it.\<close>

record memory_manager =
  mmu_map :: raw_entry
  cpu_cr3 :: raw_entry
  mmu_mem :: pmem

definition set_cr3 :: "raw_entry \<Rightarrow> memory_manager \<Rightarrow> memory_manager" where
  "set_cr3 entry mm = mm\<lparr>cpu_cr3 := entry\<rparr>"

definition flush_tlb :: "memory_manager \<Rightarrow> memory_manager" where
  "flush_tlb mm = set_cr3 (cpu_cr3 mm) mm"

definition mmu_init :: "kernel_image \<Rightarrow> addr_range \<Rightarrow> raw_entry \<Rightarrow> pmem \<Rightarrow> memory_manager res" where
  "mmu_init img managed boot_cr3 m =
     rbind (rfold (init_pdpt img managed) [0..<256] m) (\<lambda>m.
     rbind (static_v2p (PML4_TABLE img)) (\<lambda>pml4.
     rbind (reinit CR3 raw_default pml4 []) (\<lambda>(ok, cr3_raw).
     rbind (rexpect (if ok then Some () else None)) (\<lambda>_.
     Inr (set_cr3 cr3_raw \<lparr>mmu_map = cr3_raw, cpu_cr3 = boot_cr3, mmu_mem = m\<rparr>)))))"

definition mmu_swap :: "raw_entry \<Rightarrow> memory_manager \<Rightarrow> raw_entry \<times> memory_manager" where
  "mmu_swap new mm = (mmu_map mm, mm\<lparr>mmu_map := new\<rparr>)"

definition mmu_flush :: "memory_manager \<Rightarrow> memory_manager" where
  "mmu_flush mm = flush_tlb mm"

definition mmu_paging :: "memory_manager \<Rightarrow> paging" where
  "mmu_paging mm = \<lparr>pg_cr3 = mmu_map mm, pg_mem = mmu_mem mm\<rparr>"

section \<open>The tables that are built\<close>

text \<open>Filling entries of one table.\<close>

definition fill :: "nat \<Rightarrow> nat list \<Rightarrow> (nat \<Rightarrow> raw_entry) \<Rightarrow> pmem \<Rightarrow> pmem" where
  "fill t is g m = fold (\<lambda>i m'. put m' (t + 8 * i) (g i)) is m"

lemma fill_same: "distinct is \<Longrightarrow> fill t is g m (t + 8 * j) = (if j \<in> set is then g j else m (t + 8 * j))"
  unfolding fill_def by (subst fold_put) auto

lemma fill_outside:
  assumes "distinct is" "set is \<subseteq> {..<512}" "p \<notin> frame_bytes t"
  shows "fill t is g m p = m p"
proof -
  have "\<not> (\<exists>i \<in> set is. p = t + 8 * i)" using assms(2,3) by (auto simp: frame_bytes_def)
  then show ?thesis unfolding fill_def by (subst fold_put [OF assms(1)]) simp
qed

lemma rfold_fill:
  "(\<And>i m. i \<in> set is \<Longrightarrow> f i m = Inr (put m (t + 8 * i) (g i))) \<Longrightarrow> rfold f is m = Inr (fill t is g m)"
  unfolding fill_def by (induction "is" arbitrary: m) simp_all

lemma rfold_map: "rfold f (map h xs) s = rfold (\<lambda>x. f (h x)) xs s"
  by (induction xs arbitrary: s) (simp_all cong: rbind_cong)

definition page_word :: "nat \<Rightarrow> raw_entry" where
  "page_word a = entry_word (Addr a) KERNEL_PAGE_FLAGS"

lemma page_flags:
  "REMAP_PAGE_FLAGS = KERNEL_PAGE_FLAGS" "l = PDPT \<or> l = PD \<Longrightarrow> flags_ok l KERNEL_PAGE_FLAGS"
  "points_to_page l KERNEL_PAGE_FLAGS"
  by (auto simp: REMAP_PAGE_FLAGS_def KERNEL_PAGE_FLAGS_def flags_ok_def points_to_page_def)

lemma reinit_at_page:
  assumes "l = PDPT \<and> 2 ^ 30 dvd a \<or> l = PD \<and> 2 ^ 21 dvd a" "a < 2 ^ 46"
  shows "reinit_at l p (Addr a) KERNEL_PAGE_FLAGS m = Inr (True, put m p (page_word a))"
    "entry_target l (page_word a) = Inr (Page l (Addr a))"
proof -
  have fl: "flags_ok l KERNEL_PAGE_FLAGS" using assms(1) page_flags(2) by blast
  have al: "entry_align l (points_to_page l KERNEL_PAGE_FLAGS) dvd usize (Addr a)"
    using assms(1) by (auto simp: entry_align_def page_flags(3))
  show "reinit_at l p (Addr a) KERNEL_PAGE_FLAGS m = Inr (True, put m p (page_word a))"
    by (simp add: reinit_at_def reinit_ok [OF fl al] page_word_def)
  show "entry_target l (page_word a) = Inr (Page l (Addr a))"
    using entry_word_target [OF fl al] assms(2) by (simp add: page_word_def made_target_def page_flags(3))
qed

lemma reinit_at_table:
  assumes "d < 3" "4096 dvd a" "a < 2 ^ 46"
  shows "reinit_at (lv d) p (Addr a) DEFAULT_PAGE_TABLE_FLAGS m = Inr (True, put m p (table_entry a))"
  by (simp add: reinit_at_def reinit_table(1) [OF assms])

lemma remap_pdpt_run:
  assumes "i < 128"
  shows "init_physical_remap_pdpt t i m =
    Inr (fill t [0..<TABLE_LEN] (\<lambda>j. page_word ((i * 512 + j) * 2 ^ 30)) m)"
proof -
  have TL: "TABLE_LEN = 512" by (simp add: TABLE_LEN_def TABLE_SIZE_def KiB_def)
  have lim: "(i * 512 + j) * 2 ^ 30 < 2 ^ 46" if "j < 512" for j
  proof -
    have "i * 512 + j < 2 ^ 16" using assms that by simp
    then have "(i * 512 + j) * 2 ^ 30 < 2 ^ 16 * 2 ^ 30" by (rule mult_strict_right_mono) simp
    then show ?thesis by simp
  qed
  have step: "rbind (usize_mul j (page_usize Huge)) (\<lambda>off. rbind (usize_add (i * (page_usize Huge * TABLE_LEN)) off) (\<lambda>x.
      rbind (addr_new UMASpace x) (\<lambda>a. rbind (reinit_at PDPT (t + 8 * j) a REMAP_PAGE_FLAGS m) (\<lambda>(_, m). Inr m)))) =
      Inr (put m (t + 8 * j) (page_word ((i * 512 + j) * 2 ^ 30)))" if "j < 512" for j m
  proof -
    have e: "i * (page_usize Huge * TABLE_LEN) + j * page_usize Huge = (i * 512 + j) * 2 ^ 30"
      by (simp add: page_usize_def TL algebra_simps)
    then have "usize_add (i * (page_usize Huge * TABLE_LEN)) (j * page_usize Huge) = Inr ((i * 512 + j) * 2 ^ 30)"
      using lim [OF that] by (simp add: usize_add_def usize_limit_def)
    moreover have "usize_mul j (page_usize Huge) = Inr (j * page_usize Huge)"
      using that by (simp add: page_usize_def usize_limit_def)
    moreover have "addr_new UMASpace ((i * 512 + j) * 2 ^ 30) = Inr (Addr ((i * 512 + j) * 2 ^ 30))"
      using lim [OF that] by (simp add: UMASpace_def TiB_def)
    moreover have "reinit_at PDPT (t + 8 * j) (Addr ((i * 512 + j) * 2 ^ 30)) REMAP_PAGE_FLAGS m =
        Inr (True, put m (t + 8 * j) (page_word ((i * 512 + j) * 2 ^ 30)))"
      unfolding page_flags(1) using lim [OF that] by (intro reinit_at_page) simp_all
    ultimately show ?thesis by simp
  qed
  have "usize_mul (page_usize Huge) TABLE_LEN = Inr (page_usize Huge * TABLE_LEN)"
    "usize_mul i (page_usize Huge * TABLE_LEN) = Inr (i * (page_usize Huge * TABLE_LEN))"
    using assms by (simp_all add: page_usize_def TL usize_limit_def)
  then show ?thesis
    unfolding init_physical_remap_pdpt_def level_page_size.simps rbind_Inr entry_refs_def enumerate_map_upt
      rfold_map prod.case
    by (simp only: rbind_Inr) (rule rfold_fill, rule step, simp add: TL)
qed

text \<open>The number of 2 MiB pages of the kernel image up to its end.\<close>

abbreviation image_start :: nat where "image_start \<equiv> 0xFFFFFFFF80000000"

definition kernel_pages :: "nat \<Rightarrow> nat" where
  "kernel_pages kernel_end = (kernel_end - image_start + (2 ^ 21 - 1)) div 2 ^ 21"

lemma kernel_pages_less_iff: "k < kernel_pages e \<longleftrightarrow> image_start + k * 2 ^ 21 < e"
proof -
  have "k < kernel_pages e \<longleftrightarrow> Suc k * 2 ^ 21 \<le> e - image_start + (2 ^ 21 - 1)"
    unfolding kernel_pages_def Suc_le_eq [symmetric] by (simp only: less_eq_div_iff_mult_less_eq zero_less_power zero_less_numeral)
  also have "\<dots> \<longleftrightarrow> k * 2 ^ 21 < e - image_start" by (simp, linarith)
  finally show ?thesis by linarith
qed

lemma image_space: "RANGE_start KernelImageSpace = image_start" "RANGE_end KernelImageSpace = 0xFFFFFFFFFF600000"
  by (simp_all add: KernelImageSpace_def)

lemma kernel_image_v2p_ok:
  "k < 0x7F600000 \<Longrightarrow> kernel_image_v2p (Addr (image_start + k)) = Inr (Addr k)"
  by (simp add: kernel_image_v2p_def RANGE_contains_def KernelImageSpace_def UMASpace_def TiB_def)

lemma image_index: "k < 512 \<Longrightarrow> vidx 2 (Addr (image_start + k * 2 ^ 21)) = k"
proof -
  assume k: "k < 512"
  have "image_start + k * 2 ^ 21 = (0x7FFFFFFFC00 + k) * 2 ^ 21" by simp
  then have "(image_start + k * 2 ^ 21) div 2 ^ 21 = 0x7FFFFFFFC00 + k" by (simp only: nonzero_mult_div_cancel_right power_not_zero) simp
  then have "vidx 2 (Addr (image_start + k * 2 ^ 21)) = (0x3FFFFFFFE * 512 + k) mod 512"
    by (simp add: vidx_def)
  also have "\<dots> = k" using k by (simp only: mod_mult_self3 mod_less)
  finally show ?thesis .
qed

lemma map_kernel_pages_run:
  assumes e: "image_start \<le> e" "e \<le> image_start + 2 ^ 30" and k: "k \<le> kernel_pages e"
  shows "map_kernel_pages e t (Addr (image_start + k * 2 ^ 21)) m =
    Inr (fill t [k..<kernel_pages e] (\<lambda>j. page_word (j * 2 ^ 21)) m)"
  using k
proof (induction "kernel_pages e - k" arbitrary: k m)
  case 0
  then have "k = kernel_pages e" by simp
  moreover from this have "\<not> image_start + k * 2 ^ 21 < e" using kernel_pages_less_iff [of k e] by blast
  ultimately show ?case using e by (subst map_kernel_pages.simps) (simp add: image_space fill_def)
next
  case (Suc n)
  have less: "k < kernel_pages e" using Suc.hyps(2) by simp
  then have ke: "image_start + k * 2 ^ 21 < e" by (simp add: kernel_pages_less_iff)
  then have k512: "k < 512" using e(2) by simp
  let ?v = "Addr (image_start + k * 2 ^ 21)" and ?m = "put m (t + 8 * k) (page_word (k * 2 ^ 21))"
  have v2p: "kernel_image_v2p ?v = Inr (Addr (k * 2 ^ 21))" using k512 by (intro kernel_image_v2p_ok) simp
  have ix: "index_with_vaddr PD t ?v = Inr (t + 8 * k)"
    using index_lv [of 2 t ?v] image_index [OF k512] by (simp add: slot_def numeral_2_eq_2)
  have re: "reinit_at PD (t + 8 * k) (Addr (k * 2 ^ 21)) KERNEL_PAGE_FLAGS m = Inr (True, ?m)"
    using k512 by (intro reinit_at_page) simp_all
  have ba: "byte_add KernelImageSpace ?v (page_usize Large) = Inr (Addr (image_start + Suc k * 2 ^ 21))"
    using k512 by (simp add: byte_add_def usize_add_def usize_limit_def page_usize_def image_space)
  have "map_kernel_pages e t ?v m = map_kernel_pages e t (Addr (image_start + Suc k * 2 ^ 21)) ?m"
    using e ke by (subst map_kernel_pages.simps) (simp only: addr_new_ok image_space rbind_Inr addr.sel if_True v2p ix re
        prod.case level_page_size.simps ba, simp add: image_space)
  also have "\<dots> = Inr (fill t [Suc k..<kernel_pages e] (\<lambda>j. page_word (j * 2 ^ 21)) ?m)"
    using Suc.hyps less by (intro Suc.hyps(1)) simp_all
  also have "\<dots> = Inr (fill t [k..<kernel_pages e] (\<lambda>j. page_word (j * 2 ^ 21)) m)"
    using less by (simp add: fill_def upt_conv_Cons)
  finally show ?case .
qed

section \<open>The loop over the tables\<close>

text \<open>What is asked of the kernel image: its tables are page aligned and apart, and it is not larger
  than the 1 GiB that one page directory maps.\<close>

definition image_ok :: "kernel_image \<Rightarrow> bool" where
  "image_ok img \<longleftrightarrow>
     4096 dvd PML4_TABLE img \<and> 4096 dvd PDPT_TABLES img \<and> 4096 dvd KERNEL_PD_TABLE img \<and>
     image_start \<le> PML4_TABLE img \<and> PML4_TABLE img + 4096 \<le> 0xFFFFFFFFFF600000 \<and>
     image_start \<le> PDPT_TABLES img \<and> PDPT_TABLES img + 256 * 4096 \<le> 0xFFFFFFFFFF600000 \<and>
     image_start \<le> KERNEL_PD_TABLE img \<and> KERNEL_PD_TABLE img + 4096 \<le> 0xFFFFFFFFFF600000 \<and>
     (\<forall>i<256. PML4_TABLE img \<noteq> PDPT_TABLES img + i * 4096 \<and> KERNEL_PD_TABLE img \<noteq> PDPT_TABLES img + i * 4096) \<and>
     PML4_TABLE img \<noteq> KERNEL_PD_TABLE img \<and>
     image_start \<le> kernel_end_vma img \<and> kernel_end_vma img \<le> image_start + 2 ^ 30"

definition pml4_frame :: "kernel_image \<Rightarrow> nat" where
  "pml4_frame img = phys_of (PML4_TABLE img)"

definition pdpt_frame :: "kernel_image \<Rightarrow> nat \<Rightarrow> nat" where
  "pdpt_frame img i = phys_of (PDPT_TABLES img + i * 4096)"

definition pd_frame :: "kernel_image \<Rightarrow> nat" where
  "pd_frame img = phys_of (KERNEL_PD_TABLE img)"

definition image_frame :: "nat \<Rightarrow> bool" where
  "image_frame v \<longleftrightarrow> 4096 dvd v \<and> image_start \<le> v \<and> v + 4096 \<le> 0xFFFFFFFFFF600000"

lemma image_frame_phys:
  assumes "image_frame v"
  shows "static_v2p v = Inr (Addr (phys_of v))" "4096 dvd phys_of v" "phys_of v < 2 ^ 46"
proof -
  obtain k where v: "v = image_start + k" "k < 0x7F600000" using assms by (auto simp: image_frame_def le_iff_add)
  then show "static_v2p v = Inr (Addr (phys_of v))"
    using kernel_image_v2p_ok [of k] by (simp add: static_v2p_def phys_of_def image_space)
  have "4096 dvd image_start + k" "(4096::nat) dvd image_start" using assms v(1) by (simp_all add: image_frame_def)
  then have "4096 dvd k" by (simp only: dvd_add_right_iff)
  then show "4096 dvd phys_of v" "phys_of v < 2 ^ 46" using v by (simp_all add: phys_of_def image_space)
qed

lemma image_frame_inject: "image_frame v \<Longrightarrow> image_frame w \<Longrightarrow> phys_of v = phys_of w \<Longrightarrow> v = w"
  by (simp add: image_frame_def phys_of_def image_space eq_diff_iff)

lemma image_frames:
  assumes "image_ok img"
  shows "image_frame (PML4_TABLE img)" "image_frame (KERNEL_PD_TABLE img)"
    "i < 256 \<Longrightarrow> image_frame (PDPT_TABLES img + i * 4096)"
  using assms by (simp_all add: image_ok_def image_frame_def)

text \<open>The last index of the root table that the remapping of a managed range of a size reaches.\<close>

definition remap_last :: "nat \<Rightarrow> nat" where
  "remap_last sz = 273 + (min (2 ^ 46) sz - 1) div 2 ^ 39"

lemma remap_last_le: "remap_last sz \<le> 400"
proof -
  have "(min (2 ^ 46) sz - 1) div 2 ^ 39 < 128" by (rule less_mult_imp_div_less) simp
  then show ?thesis by (simp add: remap_last_def)
qed

lemma pml4_index_remap:
  assumes "x < 2 ^ 46"
  shows "pml4_index PhysicalRemapSpace (0xFFFF888000000000 + x) = Inr (273 + x div 2 ^ 39)"
proof -
  have q: "x div 2 ^ 39 < 128" using assms by (intro less_mult_imp_div_less) simp
  have "(0xFFFF888000000000 + x) div 2 ^ 39 = 65535 * 512 + (273 + x div 2 ^ 39)"
    using div_mult_self3 [of "2 ^ 39" "0x1FFFF11" x] by simp
  then have "(0xFFFF888000000000 + x) div 2 ^ 39 mod 512 = 273 + x div 2 ^ 39"
    using q by (simp only: mod_mult_self3) simp
  moreover have "index_range (Addr (0xFFFF888000000000 + x)) (39, 39 + 9) =
      Inr ((0xFFFF888000000000 + x) div 2 ^ 39 mod 512)"
    using index_range_bits [of 39 "Addr (0xFFFF888000000000 + x)"] by simp
  ultimately show ?thesis using assms by (simp add: pml4_index_def PhysicalRemapSpace_def)
qed

lemma pml4_index_kernel: "pml4_index KernelImageSpace image_start = Inr 511"
  using index_range_bits [of 39 "Addr image_start"] by (simp add: pml4_index_def image_space)

text \<open>One turn of the loop.\<close>

definition pdpt_filled :: "kernel_image \<Rightarrow> nat \<Rightarrow> nat \<Rightarrow> pmem \<Rightarrow> pmem" where
  "pdpt_filled img sz n m =
     (if n = 255 then fill (pd_frame img) [0..<kernel_pages (kernel_end_vma img)] (\<lambda>j. page_word (j * 2 ^ 21))
        (put m (pdpt_frame img n + 8 * 510) (table_entry (pd_frame img)))
      else if 17 \<le> n \<and> n + 256 \<le> remap_last sz
      then fill (pdpt_frame img n) [0..<TABLE_LEN] (\<lambda>j. page_word (((n - 17) * 512 + j) * 2 ^ 30)) m
      else m)"

lemma init_kernel_pdpt_run:
  assumes "image_ok img"
  shows "init_kernel_pdpt img t m =
    Inr (fill (pd_frame img) [0..<kernel_pages (kernel_end_vma img)] (\<lambda>j. page_word (j * 2 ^ 21))
      (put m (t + 8 * 510) (table_entry (pd_frame img))))"
proof -
  note pd = image_frame_phys [OF image_frames(2) [OF assms]]
  have "vidx 1 (Addr image_start) = 510" by (simp add: vidx_def)
  then have ix: "index_with_vaddr PDPT t (Addr image_start) = Inr (t + 8 * 510)"
    using index_lv [of 1 t "Addr image_start"] by (simp add: slot_def)
  have re: "reinit_at PDPT (t + 8 * 510) (Addr (pd_frame img)) DEFAULT_PAGE_TABLE_FLAGS m =
      Inr (True, put m (t + 8 * 510) (table_entry (pd_frame img)))"
    using reinit_at_table [of 1 "pd_frame img"] pd(2,3) by (simp add: pd_frame_def)
  have an: "addr_new KernelImageSpace image_start = Inr (Addr image_start)" by (simp add: image_space)
  have run: "map_kernel_pages (kernel_end_vma img) (pd_frame img) (Addr image_start) m' =
      Inr (fill (pd_frame img) [0..<kernel_pages (kernel_end_vma img)] (\<lambda>j. page_word (j * 2 ^ 21)) m')" for m'
    using map_kernel_pages_run [of "kernel_end_vma img" 0 "pd_frame img" m'] assms by (simp add: image_ok_def)
  show ?thesis
    unfolding init_kernel_pdpt_def image_space an rbind_Inr ix pd(1) pd_frame_def [symmetric] re prod.case
    by (simp add: run)
qed

lemma remap_end_index:
  assumes "0 < sz" "sz \<le> 2 ^ 46"
  shows "pml4_index PhysicalRemapSpace (min (0xFFFFC88000000000 - 1) (0xFFFF888000000000 + sz - 1)) = Inr (remap_last sz)"
proof -
  have "min (0xFFFFC88000000000 - 1) (0xFFFF888000000000 + sz - 1) = 0xFFFF888000000000 + (min (2 ^ 46) sz - 1)"
    using assms by (simp add: min_def)
  moreover have "min (2 ^ 46) sz - 1 < 2 ^ 46" by simp
  ultimately show ?thesis using pml4_index_remap [of "min (2 ^ 46) sz - 1"] by (simp only: remap_last_def)
qed

lemma init_pdpt_run:
  assumes img: "image_ok img" and n: "n < 256" and sz: "0 < ar_size managed" "ar_size managed \<le> 2 ^ 46"
  shows "init_pdpt img managed n m = Inr (put (pdpt_filled img (ar_size managed) n m)
    (pml4_frame img + 8 * (256 + n)) (table_entry (pdpt_frame img n)))"
proof -
  let ?sz = "ar_size managed"
  have TS: "TABLE_SIZE = 4096" "TABLE_LEN = 512" by (simp_all add: TABLE_LEN_def TABLE_SIZE_def KiB_def)
  note fr = image_frame_phys [OF image_frames(3) [OF img n]]
  have k: "pml4_index KernelImageSpace (RANGE_start KernelImageSpace) = Inr 511"
    using pml4_index_kernel by (simp add: image_space)
  have rs: "RANGE_start PhysicalRemapSpace = 0xFFFF888000000000" "RANGE_end PhysicalRemapSpace = 0xFFFFC88000000000"
    by (simp_all add: PhysicalRemapSpace_def)
  have r: "pml4_index PhysicalRemapSpace 0xFFFF888000000000 = Inr 273" using pml4_index_remap [of 0] by simp
  have us: "usize_sub 0xFFFFC88000000000 1 = Inr (0xFFFFC88000000000 - 1)" by simp
  have ua: "usize_add 0xFFFF888000000000 ?sz = Inr (0xFFFF888000000000 + ?sz)"
    using sz(2) by (intro usize_add_ok) (simp add: usize_limit_def)
  have us2: "usize_sub (0xFFFF888000000000 + ?sz) 1 = Inr (0xFFFF888000000000 + ?sz - 1)" by simp
  have ui: "usize_add n 256 = Inr (n + 256)" using n by (intro usize_add_ok) (simp add: usize_limit_def)
  have body: "(if n + 256 = 511 then init_kernel_pdpt img (pdpt_frame img n) m
      else if 273 \<le> n + 256 \<and> n + 256 \<le> remap_last ?sz
      then rbind (usize_sub (n + 256) 273) (\<lambda>i. init_physical_remap_pdpt (pdpt_frame img n) i m)
      else Inr m) = Inr (pdpt_filled img ?sz n m)"
    using init_kernel_pdpt_run [OF img, of "pdpt_frame img n" m] remap_last_le [of ?sz]
      remap_pdpt_run [of "n - 17" "pdpt_frame img n" m]
    by (auto simp: pdpt_filled_def)
  have ti: "table_index (pml4_frame img) (n + 256) = Inr (pml4_frame img + 8 * (256 + n))"
    using n by (simp add: table_index_def TS)
  have re: "reinit_at PML4 p (Addr (pdpt_frame img n)) DEFAULT_PAGE_TABLE_FLAGS m' =
      Inr (True, put m' p (table_entry (pdpt_frame img n)))" for p m'
    using reinit_at_table [of 0 "pdpt_frame img n"] fr(2,3) by (simp add: pdpt_frame_def)
  show ?thesis
    unfolding init_pdpt_def Let_def TS k rs r us ua us2 ui rbind_Inr remap_end_index [OF sz] fr(1)
      pdpt_frame_def [symmetric] pml4_frame_def [symmetric] body ti re prod.case ..
qed

text \<open>The contents of the tables after the loop.\<close>

definition pdpt_word :: "kernel_image \<Rightarrow> nat \<Rightarrow> nat \<Rightarrow> nat \<Rightarrow> raw_entry" where
  "pdpt_word img sz i j =
     (if i = 255 then (if j = 510 then table_entry (pd_frame img) else 0)
      else if 17 \<le> i \<and> i + 256 \<le> remap_last sz then page_word (((i - 17) * 512 + j) * 2 ^ 30)
      else 0)"

definition pd_word :: "kernel_image \<Rightarrow> nat \<Rightarrow> raw_entry" where
  "pd_word img j = (if j < kernel_pages (kernel_end_vma img) then page_word (j * 2 ^ 21) else 0)"

definition image_tables :: "kernel_image \<Rightarrow> nat set" where
  "image_tables img = frame_bytes (pml4_frame img) \<union> frame_bytes (pd_frame img) \<union>
     (\<Union>i<256. frame_bytes (pdpt_frame img i))"

definition built :: "kernel_image \<Rightarrow> nat \<Rightarrow> nat \<Rightarrow> pmem \<Rightarrow> pmem \<Rightarrow> bool" where
  "built img sz n m0 m \<longleftrightarrow>
     (\<forall>j<512. m (pml4_frame img + 8 * j) =
       (if 256 \<le> j \<and> j < 256 + n then table_entry (pdpt_frame img (j - 256)) else 0)) \<and>
     (\<forall>i<256. \<forall>j<512. m (pdpt_frame img i + 8 * j) = (if i < n then pdpt_word img sz i j else 0)) \<and>
     (\<forall>j<512. m (pd_frame img + 8 * j) = (if n = 256 then pd_word img j else 0)) \<and>
     (\<forall>p. p \<notin> image_tables img \<longrightarrow> m p = m0 p)"

lemma frame_apart:
  assumes "4096 dvd t" "4096 dvd (u::nat)" "t \<noteq> u" "j < 512"
  shows "u + 8 * j \<notin> frame_bytes t"
proof -
  obtain a b where ab: "t = 4096 * a" "u = 4096 * b" using assms(1,2) by (auto elim!: dvdE)
  then consider "a + 1 \<le> b" | "b + 1 \<le> a" using assms(3) by fastforce
  then have "t + 4096 \<le> u \<or> u + 4096 \<le> t" unfolding ab by cases simp_all
  then show ?thesis using assms(4) by (auto simp: frame_bytes_def)
qed

lemma slot_in_frame: "j < 512 \<Longrightarrow> t + 8 * j \<in> frame_bytes t"
  by (simp add: frame_bytes_def)

lemma table_frames:
  assumes "image_ok img"
  shows "4096 dvd pml4_frame img" "4096 dvd pd_frame img" "i < 256 \<Longrightarrow> 4096 dvd pdpt_frame img i"
    "pml4_frame img < 2 ^ 46" "pd_frame img < 2 ^ 46" "i < 256 \<Longrightarrow> pdpt_frame img i < 2 ^ 46"
    "pml4_frame img \<noteq> pd_frame img" "i < 256 \<Longrightarrow> pdpt_frame img i \<noteq> pml4_frame img"
    "i < 256 \<Longrightarrow> pdpt_frame img i \<noteq> pd_frame img"
    "i < 256 \<Longrightarrow> i' < 256 \<Longrightarrow> pdpt_frame img i = pdpt_frame img i' \<longleftrightarrow> i = i'"
proof -
  note f = image_frames [OF assms]
  show "4096 dvd pml4_frame img" "4096 dvd pd_frame img" "i < 256 \<Longrightarrow> 4096 dvd pdpt_frame img i"
    "pml4_frame img < 2 ^ 46" "pd_frame img < 2 ^ 46" "i < 256 \<Longrightarrow> pdpt_frame img i < 2 ^ 46"
    unfolding pml4_frame_def pd_frame_def pdpt_frame_def by (fact image_frame_phys [OF f(1)] image_frame_phys [OF f(2)] image_frame_phys [OF f(3)])+
  show "pml4_frame img \<noteq> pd_frame img" "i < 256 \<Longrightarrow> pdpt_frame img i \<noteq> pml4_frame img"
    "i < 256 \<Longrightarrow> pdpt_frame img i \<noteq> pd_frame img"
    "i < 256 \<Longrightarrow> i' < 256 \<Longrightarrow> pdpt_frame img i = pdpt_frame img i' \<longleftrightarrow> i = i'"
    using assms image_frame_inject [OF f(1) f(2)] image_frame_inject [OF f(3) f(1)] image_frame_inject [OF f(3) f(2)]
      image_frame_inject [OF f(3) f(3)] unfolding pml4_frame_def pd_frame_def pdpt_frame_def image_ok_def
    by (metis, metis, metis, metis add_left_cancel mult_cancel2 zero_neq_numeral)
qed

lemma kernel_pages_le: "image_ok img \<Longrightarrow> kernel_pages (kernel_end_vma img) \<le> 512"
  using kernel_pages_less_iff [of 512 "kernel_end_vma img"] by (simp add: image_ok_def)

lemma fill_ranges:
  "image_ok img \<Longrightarrow> set [0..<kernel_pages (kernel_end_vma img)] \<subseteq> {..<512}" "set [0..<TABLE_LEN] \<subseteq> {..<512}"
  using kernel_pages_le [of img] unfolding TABLE_LEN_def TABLE_SIZE_def KiB_def by auto

lemma pdpt_filled_cases:
  obtains (kernel) "n = 255" "pdpt_filled img sz n m =
      fill (pd_frame img) [0..<kernel_pages (kernel_end_vma img)] (\<lambda>j. page_word (j * 2 ^ 21))
        (put m (pdpt_frame img n + 8 * 510) (table_entry (pd_frame img)))"
  | (remap) "n \<noteq> 255" "17 \<le> n \<and> n + 256 \<le> remap_last sz" "pdpt_filled img sz n m =
      fill (pdpt_frame img n) [0..<TABLE_LEN] (\<lambda>j. page_word (((n - 17) * 512 + j) * 2 ^ 30)) m"
  | (none) "n \<noteq> 255" "\<not> (17 \<le> n \<and> n + 256 \<le> remap_last sz)" "pdpt_filled img sz n m = m"
  unfolding pdpt_filled_def by metis

lemma pdpt_filled_outside:
  assumes "image_ok img" "p \<notin> frame_bytes (pdpt_frame img n)" "p \<notin> frame_bytes (pd_frame img)"
  shows "pdpt_filled img sz n m p = m p"
proof -
  have p: "p \<noteq> pdpt_frame img n + 8 * 510" using assms(2) slot_in_frame [of 510 "pdpt_frame img n"] by auto
  note f = fill_outside [OF distinct_upt fill_ranges(1) [OF assms(1)] assms(3)]
    fill_outside [OF distinct_upt fill_ranges(2) assms(2)]
  show ?thesis
  proof (cases rule: pdpt_filled_cases [of n img sz m, case_names kernel remap none])
    case kernel
    then show ?thesis using f(1) put_other [OF p] by simp
  next
    case remap
    then show ?thesis using f(2) by simp
  qed simp
qed

lemma pdpt_filled_own:
  assumes img: "image_ok img" and n: "n < 256" and j: "j < 512" and z: "m (pdpt_frame img n + 8 * j) = 0"
  shows "pdpt_filled img sz n m (pdpt_frame img n + 8 * j) = pdpt_word img sz n j"
proof -
  note tf = table_frames [OF img]
  have out: "pdpt_frame img n + 8 * j \<notin> frame_bytes (pd_frame img)"
    by (rule frame_apart [OF tf(2) tf(3) [OF n] tf(9) [OF n, symmetric] j])
  note k = fill_outside [OF distinct_upt fill_ranges(1) [OF img] out]
  have f: "fill (pdpt_frame img n) [0..<TABLE_LEN] g m (pdpt_frame img n + 8 * j) = g j" for g
    using j by (subst fill_same) (simp_all add: TABLE_LEN_def TABLE_SIZE_def KiB_def del: upt_Suc)
  have p: "put m (pdpt_frame img n + 8 * 510) raw (pdpt_frame img n + 8 * j) = (if j = 510 then raw else 0)" for raw
    using z by (cases "j = 510") simp_all
  show ?thesis
  proof (cases rule: pdpt_filled_cases [of n img sz m, case_names kernel remap none])
    case kernel
    then show ?thesis using k p by (simp add: pdpt_word_def)
  next
    case remap
    then show ?thesis using f by (simp add: pdpt_word_def)
  qed (auto simp: z pdpt_word_def)
qed

lemma pdpt_filled_pd:
  assumes "image_ok img" "n < 256" "j < 512" "m (pd_frame img + 8 * j) = 0"
  shows "pdpt_filled img sz n m (pd_frame img + 8 * j) = (if n = 255 then pd_word img j else 0)"
proof -
  note tf = table_frames [OF assms(1)]
  have out: "pd_frame img + 8 * j \<notin> frame_bytes (pdpt_frame img n)"
    by (rule frame_apart [OF tf(3) [OF assms(2)] tf(2) tf(9) [OF assms(2)] assms(3)])
  then have "pd_frame img + 8 * j \<noteq> pdpt_frame img n + 8 * 510" using slot_in_frame [of 510 "pdpt_frame img n"] by auto
  then have p: "put m (pdpt_frame img n + 8 * 510) raw (pd_frame img + 8 * j) = 0" for raw using assms(4) by simp
  show ?thesis
  proof (cases rule: pdpt_filled_cases [of n img sz m, case_names kernel remap none])
    case kernel
    then show ?thesis using p by (simp add: fill_same pd_word_def)
  next
    case remap
    then show ?thesis using fill_outside [OF distinct_upt fill_ranges(2) out] assms(4) by simp
  qed (simp add: assms(4))
qed

lemma built_step:
  assumes img: "image_ok img" and n: "n < 256" and b: "built img sz n m0 m"
  shows "built img sz (Suc n) m0 (put (pdpt_filled img sz n m) (pml4_frame img + 8 * (256 + n)) (table_entry (pdpt_frame img n)))"
proof -
  let ?m = "pdpt_filled img sz n m" and ?p = "pml4_frame img + 8 * (256 + n)"
  note tf = table_frames [OF img]
  have other: "put ?m ?p raw (f + 8 * j) = ?m (f + 8 * j)"
    if "4096 dvd f" "j < 512" "f \<noteq> pml4_frame img \<or> j \<noteq> 256 + n" for f j raw
    using that slot_inject [OF tf(1) that(1), of "256 + n" j] n by (intro put_other) auto
  have root: "?m (pml4_frame img + 8 * j) = m (pml4_frame img + 8 * j)" if "j < 512" for j
    by (intro pdpt_filled_outside [OF img] frame_apart tf(1,2) tf(3) [OF n] tf(7) [symmetric] tf(8) [OF n] that)
  have pdpt: "?m (pdpt_frame img i + 8 * j) = (if i = n then pdpt_word img sz i j else m (pdpt_frame img i + 8 * j))"
    if "i < 256" "j < 512" for i j
  proof (cases "i = n")
    case True
    then show ?thesis using b that n by (simp add: pdpt_filled_own [OF img n] built_def)
  next
    case False
    then have "pdpt_frame img n \<noteq> pdpt_frame img i" using tf(10) that(1) n by blast
    then have "?m (pdpt_frame img i + 8 * j) = m (pdpt_frame img i + 8 * j)"
      by (intro pdpt_filled_outside [OF img] frame_apart tf(2) tf(3) n that tf(9) [symmetric])
    then show ?thesis using False by simp
  qed
  have pd: "?m (pd_frame img + 8 * j) = (if n = 255 then pd_word img j else 0)" if "j < 512" for j
    using b that n by (intro pdpt_filled_pd [OF img n]) (simp_all add: built_def)
  have out: "put ?m ?p raw p = m p" if "p \<notin> image_tables img" for p raw
  proof -
    have "p \<notin> frame_bytes (pdpt_frame img n)" "p \<notin> frame_bytes (pd_frame img)" "p \<noteq> ?p"
      using that n slot_in_frame [of "256 + n" "pml4_frame img"] by (auto simp: image_tables_def)
    then show ?thesis using pdpt_filled_outside [OF img] by simp
  qed
  show ?thesis
    unfolding built_def
  proof (intro conjI allI impI)
    fix j :: nat assume j: "j < 512"
    show "put ?m ?p (table_entry (pdpt_frame img n)) (pml4_frame img + 8 * j) =
        (if 256 \<le> j \<and> j < 256 + Suc n then table_entry (pdpt_frame img (j - 256)) else 0)"
      using other [OF tf(1) j] root [OF j] b j by (cases "j = 256 + n") (auto simp: built_def)
    show "put ?m ?p (table_entry (pdpt_frame img n)) (pd_frame img + 8 * j) = (if Suc n = 256 then pd_word img j else 0)"
      using other [OF tf(2) j] tf(7) pd [OF j] by simp
    fix i :: nat assume i: "i < 256"
    show "put ?m ?p (table_entry (pdpt_frame img n)) (pdpt_frame img i + 8 * j) =
        (if i < Suc n then pdpt_word img sz i j else 0)"
      using other [OF tf(3) [OF i] j] tf(8) [OF i] pdpt [OF i j] b i j by (auto simp: built_def)
  next
    fix p assume "p \<notin> image_tables img"
    then show "put ?m ?p (table_entry (pdpt_frame img n)) p = m0 p" using out b by (simp add: built_def)
  qed
qed

lemma built_loop:
  assumes "image_ok img" "0 < ar_size managed" "ar_size managed \<le> 2 ^ 46" "\<forall>p \<in> image_tables img. m0 p = 0" "n \<le> 256"
  shows "\<exists>m. rfold (init_pdpt img managed) [0..<n] m0 = Inr m \<and> built img (ar_size managed) n m0 m"
  using assms(5)
proof (induction n)
  case 0
  have "f + 8 * j \<in> image_tables img \<Longrightarrow> m0 (f + 8 * j) = 0" for f j using assms(4) by blast
  then show ?case using slot_in_frame by (fastforce simp: built_def image_tables_def)
next
  case (Suc n)
  then obtain m where m: "rfold (init_pdpt img managed) [0..<n] m0 = Inr m" "built img (ar_size managed) n m0 m" by auto
  have "rfold (init_pdpt img managed) [0..<Suc n] m0 = init_pdpt img managed n m"
    using m(1) by (cases "init_pdpt img managed n m") (simp_all add: rfold_append)
  with init_pdpt_run [OF assms(1) _ assms(2,3), of n m] built_step [OF assms(1) _ m(2)] Suc.prems
  show ?case by simp
qed

section \<open>What the first map maps\<close>

definition init_typing :: "kernel_image \<Rightarrow> typing" where
  "init_typing img f =
     (if f = pml4_frame img then Some 0 else if f = pd_frame img then Some 2
      else if \<exists>i<256. f = pdpt_frame img i then Some 1 else None)"

definition init_lookup :: "kernel_image \<Rightarrow> nat \<Rightarrow> addr \<Rightarrow> addr option" where
  "init_lookup img sz v =
     (if vidx 0 v = 511 \<and> vidx 1 v = 510 \<and> vidx 2 v < kernel_pages (kernel_end_vma img)
      then Some (Addr (vidx 2 v * 2 ^ 21))
      else if 273 \<le> vidx 0 v \<and> vidx 0 v \<le> remap_last sz
      then Some (Addr (((vidx 0 v - 273) * 512 + vidx 1 v) * 2 ^ 30))
      else None)"

lemma init_typing_pdpt: "image_ok img \<Longrightarrow> i < 256 \<Longrightarrow> init_typing img (pdpt_frame img i) = Some 1"
  using table_frames(8,9) by (auto simp: init_typing_def)

lemma init_typing_cases:
  assumes "init_typing img f = Some d"
  obtains (root) "f = pml4_frame img" "d = 0" | (pdpt) i where "i < 256" "f = pdpt_frame img i" "d = 1"
  | (pd) "f = pd_frame img" "d = 2"
  using assms by (auto simp: init_typing_def split: if_splits)

lemma pdpt_word_target:
  assumes "image_ok img" "i < 256" "j < 512"
  shows "entry_target (lv 1) (pdpt_word img sz i j) =
    (if i = 255 then (if j = 510 then Inr (Table PD (Addr (pd_frame img))) else Inr NoTarget)
     else if 17 \<le> i \<and> i + 256 \<le> remap_last sz then Inr (Page PDPT (Addr (((i - 17) * 512 + j) * 2 ^ 30)))
     else Inr NoTarget)"
proof -
  have t: "entry_target (lv 1) (table_entry (pd_frame img)) = Inr (Table PD (Addr (pd_frame img)))"
    using reinit_table(2) [of 1 "pd_frame img"] table_frames(2,5) [OF assms(1)] by (simp add: numeral_2_eq_2)
  have p: "entry_target (lv 1) (page_word (((i - 17) * 512 + j) * 2 ^ 30)) = Inr (Page PDPT (Addr (((i - 17) * 512 + j) * 2 ^ 30)))"
    if "17 \<le> i \<and> i + 256 \<le> remap_last sz"
  proof -
    have "i \<le> 144" using that remap_last_le [of sz] by linarith
    then have "i - 17 \<le> 127" by simp
    then have "(i - 17) * 512 + j < 2 ^ 16" using assms(3) by simp
    then have "((i - 17) * 512 + j) * 2 ^ 30 < 2 ^ 16 * 2 ^ 30" by (rule mult_strict_right_mono) simp
    then have "((i - 17) * 512 + j) * 2 ^ 30 < 2 ^ 46" by simp
    then show ?thesis using reinit_at_page(2) [of PDPT "((i - 17) * 512 + j) * 2 ^ 30"] by simp
  qed
  show ?thesis unfolding pdpt_word_def using t p entry_target_zero [of 1] by (simp del: lv.simps)
qed

lemma pd_word_target:
  assumes "image_ok img"
  shows "entry_target (lv 2) (pd_word img j) =
    (if j < kernel_pages (kernel_end_vma img) then Inr (Page PD (Addr (j * 2 ^ 21))) else Inr NoTarget)"
proof -
  have "entry_target PD (page_word (j * 2 ^ 21)) = Inr (Page PD (Addr (j * 2 ^ 21)))" if "j < kernel_pages (kernel_end_vma img)"
    using kernel_pages_le [OF assms] that by (intro reinit_at_page) simp_all
  moreover have "lv 2 = PD" by (simp add: numeral_2_eq_2)
  ultimately show ?thesis using entry_target_zero [of 2] by (simp add: pd_word_def)
qed

lemma pml4_word_target:
  assumes "image_ok img" "i < 256"
  shows "entry_target (lv 0) (table_entry (pdpt_frame img i)) = Inr (Table PDPT (Addr (pdpt_frame img i)))"
  using reinit_table(2) [of 0 "pdpt_frame img i"] table_frames(3,6) [OF assms(1) assms(2)] by simp

lemma built_targets:
  assumes img: "image_ok img" and b: "built img sz 256 m0 m" and j: "j < 512"
  shows "entry_target (lv 0) (m (pml4_frame img + 8 * j)) =
      (if 256 \<le> j then Inr (Table PDPT (Addr (pdpt_frame img (j - 256)))) else Inr NoTarget)"
    "i < 256 \<Longrightarrow> entry_target (lv 1) (m (pdpt_frame img i + 8 * j)) = entry_target (lv 1) (pdpt_word img sz i j)"
    "entry_target (lv 2) (m (pd_frame img + 8 * j)) = entry_target (lv 2) (pd_word img j)"
  using b j pml4_word_target [OF img, of "j - 256"] entry_target_zero [of 0]
  by (auto simp: built_def simp del: lv.simps)

lemma built_children:
  assumes img: "image_ok img" and b: "built img sz 256 m0 m" and j: "j < 512"
  shows "child m 0 (pml4_frame img) j = (if 256 \<le> j then Some (pdpt_frame img (j - 256)) else None)"
    "i < 256 \<Longrightarrow> child m 1 (pdpt_frame img i) j = (if i = 255 \<and> j = 510 then Some (pd_frame img) else None)"
    "child m 2 (pd_frame img) j = None"
  using built_targets [OF img b j] pdpt_word_target [OF img _ j] pd_word_target [OF img]
  by (simp_all add: child_def del: lv.simps)

lemma built_inv:
  assumes img: "image_ok img" and b: "built img sz 256 m0 m"
  shows "pt_inv (init_typing img) (pml4_frame img) m"
proof -
  note tf = table_frames [OF img]
  note bt = built_targets [OF img b] and bc = built_children [OF img b]
  have pd: "init_typing img (pd_frame img) = Some 2" using tf(7) by (simp add: init_typing_def)
  have "table_ok (init_typing img) m d f" if "init_typing img f = Some d" for d f
    using that
  proof (cases rule: init_typing_cases)
    case root
    have "\<exists>t. entry_target (lv 0) (m (pml4_frame img + 8 * j)) = Inr t" if "j < 512" for j
      using bt(1) [OF that] by auto
    moreover have "init_typing img a = Some (Suc 0)" if "j < 512" "child m 0 (pml4_frame img) j = Some a" for j a
      using bc(1) [OF that(1)] that init_typing_pdpt [OF img, of "j - 256"] by (auto split: if_splits)
    ultimately show ?thesis using root tf(1,4) by (simp add: table_ok_def entry_ok_def)
  next
    case (pdpt i)
    have "\<exists>t. entry_target (lv 1) (m (pdpt_frame img i + 8 * j)) = Inr t" if "j < 512" for j
      using bt(2) [OF that pdpt(1)] pdpt_word_target [OF img pdpt(1) that] by auto
    moreover have "init_typing img a = Some (Suc 1)" if "j < 512" "child m 1 (pdpt_frame img i) j = Some a" for j a
      using bc(2) [OF that(1) pdpt(1)] that(2) pd by (auto split: if_splits)
    ultimately show ?thesis using pdpt tf(3,6) by (simp add: table_ok_def entry_ok_def)
  next
    case pd
    have "\<exists>t. entry_target (lv 2) (m (pd_frame img + 8 * j)) = Inr t" if "j < 512" for j
      using bt(3) [OF that] pd_word_target [OF img] by auto
    then show ?thesis using pd tf(2,5) bc(3) by (simp add: table_ok_def entry_ok_def)
  qed
  moreover have "unshared (init_typing img) m"
    unfolding unshared_def
  proof (intro allI impI)
    fix f f' d i i' a
    assume h: "init_typing img f = Some d" "init_typing img f' = Some d" "i < 512" "i' < 512"
      "child m d f i = Some a" "child m d f' i' = Some a"
    from h(1) show "f = f' \<and> i = i'"
    proof (cases rule: init_typing_cases)
      case root
      have f': "f' = pml4_frame img" using h(2) root(2) by (cases rule: init_typing_cases) simp_all
      have "256 \<le> i" "256 \<le> i'" "pdpt_frame img (i - 256) = pdpt_frame img (i' - 256)"
        using bc(1) [OF h(3)] bc(1) [OF h(4)] h(5,6) root f' by (auto split: if_splits)
      then show ?thesis using tf(10) [of "i - 256" "i' - 256"] h(3,4) root f' by simp
    next
      case (pdpt k)
      obtain k' where k': "k' < 256" "f' = pdpt_frame img k'"
        using h(2) pdpt(3) by (cases rule: init_typing_cases) auto
      show ?thesis using bc(2) [OF h(3) pdpt(1)] bc(2) [OF h(4) k'(1)] h(5,6) pdpt k' by (simp split: if_splits)
    next
      case pd
      then show ?thesis using bc(3) [OF h(3)] h(5) by simp
    qed
  qed
  ultimately show ?thesis by (simp add: pt_inv_def init_typing_def)
qed

lemma walk_step:
  "n = Suc n' \<Longrightarrow> d' = Suc d \<Longrightarrow> walk m n d f v = (case target_at m d f v of
    Inr (Page _ a) \<Rightarrow> Some a | Inr (Table _ a) \<Rightarrow> walk m n' d' (usize a) v | _ \<Rightarrow> None)"
  by hypsubst (rule walk.simps(2))

lemma built_lookup:
  assumes img: "image_ok img" and b: "built img sz 256 m0 m"
  shows "lookup m (pml4_frame img) v = init_lookup img sz v"
proof -
  define i j k where "i = vidx 0 v" and "j = vidx 1 v" and "k = vidx 2 v"
  have less: "i < 512" "j < 512" "k < 512" by (simp_all add: i_def j_def k_def)
  note bt = built_targets [OF img b]
  have t0: "target_at m 0 (pml4_frame img) v =
      (if 256 \<le> i then Inr (Table PDPT (Addr (pdpt_frame img (i - 256)))) else Inr NoTarget)"
    using bt(1) [OF less(1)] by (simp add: target_at_vidx i_def del: lv.simps)
  have t1: "target_at m 1 (pdpt_frame img (i - 256)) v = entry_target (lv 1) (pdpt_word img sz (i - 256) j)"
    using bt(2) [OF less(2), of "i - 256"] less(1) by (simp add: target_at_vidx j_def del: lv.simps)
  have t2: "target_at m 2 (pd_frame img) v = entry_target (lv 2) (pd_word img k)"
    using bt(3) [OF less(3)] by (simp add: target_at_vidx k_def del: lv.simps)
  have w0: "lookup m (pml4_frame img) v = (case target_at m 0 (pml4_frame img) v of
      Inr (Page _ a) \<Rightarrow> Some a | Inr (Table _ a) \<Rightarrow> walk m 3 1 (usize a) v | _ \<Rightarrow> None)"
    unfolding lookup_def by (rule walk_step) simp_all
  have w1: "walk m 3 1 f v = (case target_at m 1 f v of
      Inr (Page _ a) \<Rightarrow> Some a | Inr (Table _ a) \<Rightarrow> walk m 2 2 (usize a) v | _ \<Rightarrow> None)" for f
    by (rule walk_step) simp_all
  have w2: "walk m 2 2 f v = (case target_at m 2 f v of
      Inr (Page _ a) \<Rightarrow> Some a | Inr (Table _ a) \<Rightarrow> walk m 1 3 (usize a) v | _ \<Rightarrow> None)" for f
    by (rule walk_step) simp_all
  note word = pdpt_word_target [OF img _ less(2), of "i - 256" sz]
  consider "i < 256" | "i = 511" | "256 \<le> i" "i < 511" using less(1) by linarith
  then have "lookup m (pml4_frame img) v =
      (if i = 511 \<and> j = 510 \<and> k < kernel_pages (kernel_end_vma img) then Some (Addr (k * 2 ^ 21))
       else if 273 \<le> i \<and> i \<le> remap_last sz then Some (Addr (((i - 273) * 512 + j) * 2 ^ 30)) else None)"
  proof cases
    case 1
    then show ?thesis using remap_last_le [of sz] by (simp add: w0 t0)
  next
    case 2
    have "target_at m 1 (pdpt_frame img 255) v =
        (if j = 510 then Inr (Table PD (Addr (pd_frame img))) else Inr NoTarget)"
      using t1 word 2 by simp
    then show ?thesis
      using remap_last_le [of sz] pd_word_target [OF img, of k] 2
      by (simp add: w0 t0 w1 w2 t2 del: lv.simps One_nat_def)
  next
    case 3
    define n where "n = i - 256"
    have n: "i = n + 256" "n \<noteq> 255" "n < 256" using 3 by (simp_all add: n_def)
    then have "target_at m 1 (pdpt_frame img n) v =
        (if 17 \<le> n \<and> n + 256 \<le> remap_last sz then Inr (Page PDPT (Addr (((n - 17) * 512 + j) * 2 ^ 30)))
         else Inr NoTarget)"
      using t1 word by simp
    then show ?thesis using n by (simp add: w0 t0 w1 del: lv.simps One_nat_def)
  qed
  then show ?thesis by (simp only: init_lookup_def i_def j_def k_def)
qed

text \<open>The indices of a remapped address and of an address of the kernel image.\<close>

abbreviation remap_start :: nat where "remap_start \<equiv> 0xFFFF888000000000"

lemma remap_vidx:
  assumes "p < 2 ^ 46"
  shows "vidx 0 (Addr (remap_start + p)) = 273 + p div 2 ^ 39" "vidx 1 (Addr (remap_start + p)) = p div 2 ^ 30 mod 512"
proof -
  have "index_range (Addr (remap_start + p)) (39, 39 + 9) = Inr (273 + p div 2 ^ 39)"
    using pml4_index_remap [OF assms] assms by (simp add: pml4_index_def PhysicalRemapSpace_def)
  then show "vidx 0 (Addr (remap_start + p)) = 273 + p div 2 ^ 39"
    using index_range_bits [of 39 "Addr (remap_start + p)"] by (simp add: vidx_def)
  have "(remap_start + p) div 2 ^ 30 = 0x3FFFE22 * 2 ^ 8 + p div 2 ^ 30"
    using div_mult_self3 [of "2 ^ 30" "0x3FFFE2200" p] by simp
  also have "0x3FFFE22 * 2 ^ 8 + p div 2 ^ 30 = 0x1FFFF11 * 512 + p div 2 ^ 30" by simp
  finally have "(remap_start + p) div 2 ^ 30 mod 512 = p div 2 ^ 30 mod 512" by (simp only: mod_mult_self3)
  then show "vidx 1 (Addr (remap_start + p)) = p div 2 ^ 30 mod 512" by (simp add: vidx_def)
qed

lemma image_vidx:
  assumes "x < 2 ^ 30"
  shows "vidx 0 (Addr (image_start + x)) = 511" "vidx 1 (Addr (image_start + x)) = 510"
    "vidx 2 (Addr (image_start + x)) = x div 2 ^ 21"
proof -
  have "image_start + x = 0x1FFFFFF * 2 ^ 39 + (0x7F80000000 + x)" by simp
  then have "(image_start + x) div 2 ^ 39 = 0x1FFFFFF + (0x7F80000000 + x) div 2 ^ 39"
    by (simp only: div_mult_self3 power_not_zero) simp
  moreover have "(0x7F80000000 + x) div 2 ^ 39 = 0" using assms by simp
  ultimately show "vidx 0 (Addr (image_start + x)) = 511" by (simp add: vidx_def)
  have "image_start + x = 0x3FFFFFFFE * 2 ^ 30 + x" by simp
  then have "(image_start + x) div 2 ^ 30 = 0x3FFFFFFFE + x div 2 ^ 30"
    by (simp only: div_mult_self3 power_not_zero) simp
  then show "vidx 1 (Addr (image_start + x)) = 510" using assms by (simp add: vidx_def)
  have "image_start + x = 0x7FFFFFFFC00 * 2 ^ 21 + x" by simp
  then have d: "(image_start + x) div 2 ^ 21 = 0x3FFFFFFFE * 512 + x div 2 ^ 21"
    by (simp only: div_mult_self3 power_not_zero) simp
  have "x div 2 ^ 21 < 512" using assms by (intro less_mult_imp_div_less) simp
  then have "(image_start + x) div 2 ^ 21 mod 512 = x div 2 ^ 21" unfolding d by (simp only: mod_mult_self3 mod_less)
  then show "vidx 2 (Addr (image_start + x)) = x div 2 ^ 21" by (simp add: vidx_def)
qed

lemma init_lookup_remap:
  assumes "p < 2 ^ 46" "0 < sz" "sz \<le> 2 ^ 46"
  shows "init_lookup img sz (Addr (remap_start + p)) =
    (if p div 2 ^ 39 \<le> (sz - 1) div 2 ^ 39 then Some (Addr (p div 2 ^ 30 * 2 ^ 30)) else None)"
proof -
  have "p div 2 ^ 39 < 128" using assms(1) by (intro less_mult_imp_div_less) simp
  moreover have e: "(273 + p div 2 ^ 39 - 273) * 512 + p div 2 ^ 30 mod 512 = p div 2 ^ 30"
    using div_mult2_eq [of p "2 ^ 30" 512] by simp
  moreover have "remap_last sz = 273 + (sz - 1) div 2 ^ 39" using assms(3) by (simp add: remap_last_def min_def)
  ultimately show ?thesis unfolding init_lookup_def remap_vidx [OF assms(1)] e by simp
qed

lemma init_lookup_kernel:
  assumes "image_ok img" "image_start \<le> v" "v < kernel_end_vma img"
  shows "init_lookup img sz (Addr v) = Some (Addr ((v - image_start) div 2 ^ 21 * 2 ^ 21))"
proof -
  define x where "x = v - image_start"
  have "kernel_end_vma img \<le> image_start + 2 ^ 30" using assms(1) by (simp add: image_ok_def)
  then have v: "v = image_start + x" "x < 2 ^ 30" using assms(2,3) unfolding x_def by linarith+
  have "x div 2 ^ 21 * 2 ^ 21 \<le> x" by (rule div_times_less_eq_dividend)
  then have "x div 2 ^ 21 < kernel_pages (kernel_end_vma img)"
    using assms(3) v(1) by (simp only: kernel_pages_less_iff)
  then have "init_lookup img sz (Addr (image_start + x)) = Some (Addr (x div 2 ^ 21 * 2 ^ 21))"
    unfolding init_lookup_def image_vidx [OF v(2)] by simp
  then show ?thesis by (simp only: v(1) add_diff_cancel_left')
qed

lemma mmu_init_run:
  assumes img: "image_ok img" and sz: "0 < ar_size managed" "ar_size managed \<le> 2 ^ 46"
    and z: "\<forall>p \<in> image_tables img. m0 p = 0"
  shows "\<exists>mm. mmu_init img managed boot m0 = Inr mm \<and> cpu_cr3 mm = mmu_map mm \<and>
    built img (ar_size managed) 256 m0 (mmu_mem mm) \<and>
    pt_inv (init_typing img) (pml4_frame img) (mmu_mem mm) \<and> rooted (mmu_paging mm) (pml4_frame img) \<and>
    (\<forall>v. translate (mmu_paging mm) v = Inr (init_lookup img (ar_size managed) v))"
proof -
  obtain m where m: "rfold (init_pdpt img managed) [0..<256] m0 = Inr m" and b: "built img (ar_size managed) 256 m0 m"
    using built_loop [OF img sz z, of 256] by auto
  let ?r = "pml4_frame img"
  note tf = table_frames [OF img]
  have s: "static_v2p (PML4_TABLE img) = Inr (Addr ?r)"
    using image_frame_phys(1) [OF image_frames(1) [OF img]] by (simp add: pml4_frame_def)
  have re: "reinit CR3 raw_default (Addr ?r) [] = Inr (True, entry_word (Addr ?r) [])"
    and tg: "entry_target CR3 (entry_word (Addr ?r) []) = Inr (Table PML4 (Addr ?r))"
    using reinit_ok [of CR3 "[]" "Addr ?r" raw_default] entry_word_target [of CR3 "[]" "Addr ?r"] tf(1,4)
    by (simp_all add: flags_ok_def points_to_page_def entry_align_def made_target_def)
  let ?mm = "\<lparr>mmu_map = entry_word (Addr ?r) [], cpu_cr3 = entry_word (Addr ?r) [], mmu_mem = m\<rparr>"
  have run: "mmu_init img managed boot m0 = Inr ?mm" by (simp add: mmu_init_def m s re set_cr3_def)
  have inv: "pt_inv (init_typing img) ?r m" by (rule built_inv [OF img b])
  have root: "rooted (mmu_paging ?mm) ?r" by (simp add: rooted_def mmu_paging_def tg)
  have "translate (mmu_paging ?mm) v = Inr (init_lookup img (ar_size managed) v)" for v
    using translate_lookup [of "init_typing img" ?r "mmu_paging ?mm" v] inv root built_lookup [OF img b]
    by (simp add: mmu_paging_def)
  then show ?thesis using run inv root b by (intro exI [of _ ?mm]) simp
qed

section \<open>Properties\<close>

text \<open>A kernel image of 4 MiB whose tables are at 2 MiB.\<close>

definition small_image :: kernel_image where
  "small_image = \<lparr>PML4_TABLE = 0xFFFFFFFF80200000, PDPT_TABLES = 0xFFFFFFFF80202000,
     KERNEL_PD_TABLE = 0xFFFFFFFF80201000, kernel_end_vma = 0xFFFFFFFF80400000\<rparr>"

lemma small_image_ok: "image_ok small_image"
  by (simp add: image_ok_def small_image_def)

text \<open>C14. \<^verbatim>\<open>X86_64MemoryManager::init\<close> does not panic and loads the map it has built.  In that map the
  remapped address of every physical address translates to the 1 GiB page that holds it, up to the
  end of the 512 GiB region in which the \<^emph>\<open>size\<close> of the managed range ends, and to nothing above that.  The
  map's tables form a tree, so it is fit for \<^verbatim>\<open>map\<close>.\<close>

theorem init_remaps_memory:
  assumes "image_ok img" "0 < ar_size managed" "ar_size managed \<le> 2 ^ 46" "\<forall>p \<in> image_tables img. m0 p = 0"
  shows "\<exists>mm. mmu_init img managed boot m0 = Inr mm \<and> cpu_cr3 mm = mmu_map mm \<and>
    pt_inv (init_typing img) (pml4_frame img) (mmu_mem mm) \<and> rooted (mmu_paging mm) (pml4_frame img) \<and>
    (\<forall>p<2 ^ 46. \<forall>v. p2v (Addr p) = Inr v \<longrightarrow> translate (mmu_paging mm) v =
      Inr (if p div 2 ^ 39 \<le> (ar_size managed - 1) div 2 ^ 39 then Some (Addr (p div 2 ^ 30 * 2 ^ 30)) else None))"
proof -
  have "v = Addr (remap_start + p)" if "p < 2 ^ 46" "p2v (Addr p) = Inr v" for p v
    using that by (simp add: p2v_def PhysicalRemapSpace_def usize_limit_def add.commute)
  then show ?thesis using mmu_init_run [OF assms, of boot] init_lookup_remap [OF _ assms(2,3)] by fastforce
qed

corollary init_remaps_memory_witness:
  "\<exists>mm. mmu_init small_image \<lparr>ar_base = Addr 0x400000, ar_size = 0x10000000\<rparr> 0 (\<lambda>_. 0) = Inr mm \<and>
    translate (mmu_paging mm) (Addr 0xFFFF8880B8000123) = Inr (Some (Addr 0x80000000))"
proof -
  have "p2v (Addr 0xB8000123) = Inr (Addr 0xFFFF8880B8000123)"
    by (simp add: p2v_def PhysicalRemapSpace_def usize_limit_def)
  note va = this
  from init_remaps_memory [OF small_image_ok, of "\<lparr>ar_base = Addr 0x400000, ar_size = 0x10000000\<rparr>" "\<lambda>_. 0" 0]
  obtain mm where mm: "mmu_init small_image \<lparr>ar_base = Addr 0x400000, ar_size = 0x10000000\<rparr> 0 (\<lambda>_. 0) = Inr mm"
    "\<forall>p<2 ^ 46. \<forall>v. p2v (Addr p) = Inr v \<longrightarrow> translate (mmu_paging mm) v =
      Inr (if p div 2 ^ 39 \<le> (0x10000000 - 1) div 2 ^ 39 then Some (Addr (p div 2 ^ 30 * 2 ^ 30)) else None)"
    by auto
  have "(0xB8000123::nat) < 2 ^ 46" by simp
  from mm(2) [rule_format, OF this va] have "translate (mmu_paging mm) (Addr 0xFFFF8880B8000123) = Inr (Some (Addr 0x80000000))"
    by simp
  with mm(1) show ?thesis by blast
qed

text \<open>C15. In the first map every address of the kernel image, up to its end, translates to the 2 MiB page
  of physical memory that the image was loaded to, so the kernel keeps running where it is; and an
  address of the lower half translates to nothing.\<close>

theorem init_maps_kernel_image:
  assumes "image_ok img" "0 < ar_size managed" "ar_size managed \<le> 2 ^ 46" "\<forall>p \<in> image_tables img. m0 p = 0"
  shows "\<exists>mm. mmu_init img managed boot m0 = Inr mm \<and>
    (\<forall>v p. usize v < kernel_end_vma img \<and> kernel_image_v2p v = Inr p \<longrightarrow>
      translate (mmu_paging mm) v = Inr (Some (Addr (usize p div 2 ^ 21 * 2 ^ 21)))) \<and>
    (\<forall>v. vidx 0 v < 256 \<longrightarrow> translate (mmu_paging mm) v = Inr None)"
proof -
  obtain mm where mm: "mmu_init img managed boot m0 = Inr mm"
    "\<And>v. translate (mmu_paging mm) v = Inr (init_lookup img (ar_size managed) v)"
    using mmu_init_run [OF assms, of boot] by blast
  have "translate (mmu_paging mm) v = Inr (Some (Addr (usize p div 2 ^ 21 * 2 ^ 21)))"
    if "usize v < kernel_end_vma img" "kernel_image_v2p v = Inr p" for v p
  proof -
    have "image_start \<le> usize v" "usize p = usize v - image_start"
      using that(2) by (auto simp: kernel_image_v2p_def rbind_eq_Inr_iff rassert_eq_Inr_iff RANGE_contains_def image_space
          addr_new_def usize_sub_def split: if_splits)
    then show ?thesis using mm(2) [of v] init_lookup_kernel [OF assms(1) _ that(1)] by (cases v) simp
  qed
  moreover have "translate (mmu_paging mm) v = Inr None" if "vidx 0 v < 256" for v
    using that mm(2) [of v] by (simp add: init_lookup_def)
  ultimately show ?thesis using mm(1) by blast
qed

corollary init_maps_kernel_image_witness:
  "\<exists>mm. mmu_init small_image \<lparr>ar_base = Addr 0x400000, ar_size = 0x10000000\<rparr> 0 (\<lambda>_. 0) = Inr mm \<and>
    translate (mmu_paging mm) (Addr 0xFFFFFFFF80234567) = Inr (Some (Addr 0x200000))"
proof -
  have "kernel_image_v2p (Addr 0xFFFFFFFF80234567) = Inr (Addr 0x234567)"
    using kernel_image_v2p_ok [of "0x234567"] by simp
  moreover have "usize (Addr 0xFFFFFFFF80234567) < kernel_end_vma small_image" by (simp add: small_image_def)
  moreover from init_maps_kernel_image [OF small_image_ok, of "\<lparr>ar_base = Addr 0x400000, ar_size = 0x10000000\<rparr>" "\<lambda>_. 0" 0]
  obtain mm where "mmu_init small_image \<lparr>ar_base = Addr 0x400000, ar_size = 0x10000000\<rparr> 0 (\<lambda>_. 0) = Inr mm"
    "\<forall>v p. usize v < kernel_end_vma small_image \<and> kernel_image_v2p v = Inr p \<longrightarrow>
      translate (mmu_paging mm) v = Inr (Some (Addr (usize p div 2 ^ 21 * 2 ^ 21)))"
    by auto
  ultimately show ?thesis by (intro exI [of _ mm]) auto
qed

end
