(* ===== verification/Descriptors.thy ===== *)
theory Descriptors
  imports Koe_Prelude
begin

text \<open>
  The descriptor tables: the segment descriptors of \<^verbatim>\<open>src/src/mem.rs\<close> and the gates of
  \<^verbatim>\<open>src/src/interrupt.rs\<close>, and the header of \<^verbatim>\<open>src/src/boot/multiboot2_header.rs\<close>.

  The code reads and writes ranges of bits with the trait \<^verbatim>\<open>BitField\<close> of the crate \<^verbatim>\<open>bitvec\<close>.  Its two
  operations are a record, and what the crate documents of them is the locale \<^term>\<open>bit_region\<close>.
\<close>

section \<open>Ranges of bits\<close>

record bit_field =
  load_le :: "nat \<times> nat \<Rightarrow> nat \<Rightarrow> nat"
  store_le :: "nat \<times> nat \<Rightarrow> nat \<Rightarrow> nat \<Rightarrow> nat"

section \<open>Privilege levels and segments\<close>

datatype privilege = User | Kernel

primrec privilege_u8 :: "privilege \<Rightarrow> nat" where
  "privilege_u8 User = 3"
| "privilege_u8 Kernel = 0"

definition SEG_TYPE_IDXS :: "nat \<times> nat" where "SEG_TYPE_IDXS = (40, 44)"
definition SEG_DESC_TYPE_IDXS :: "nat \<times> nat" where "SEG_DESC_TYPE_IDXS = (44, 45)"
definition SEG_DPL_IDXS :: "nat \<times> nat" where "SEG_DPL_IDXS = (45, 47)"
definition SEG_P_IDXS :: "nat \<times> nat" where "SEG_P_IDXS = (47, 48)"
definition SEG_LONG_MODE_IDXS :: "nat \<times> nat" where "SEG_LONG_MODE_IDXS = (53, 54)"

definition segment_code :: "bit_field \<Rightarrow> nat" where
  "segment_code B =
     (let view = store_le B SEG_TYPE_IDXS 0b1000 0;
          view = store_le B SEG_DESC_TYPE_IDXS 1 view;
          view = store_le B SEG_DPL_IDXS (privilege_u8 Kernel) view;
          view = store_le B SEG_P_IDXS 1 view
      in store_le B SEG_LONG_MODE_IDXS 1 view)"

definition segment_invalid :: nat where
  "segment_invalid = 0"

definition GDT_LEN :: nat where
  "GDT_LEN = 2"

definition GDT :: "nat list" where
  "GDT = replicate GDT_LEN segment_invalid"

text \<open>\<^verbatim>\<open>lgdt\<close> loads the limit of the table, which is the offset of its last byte.\<close>

definition init_gdtr :: "bit_field \<Rightarrow> nat list \<Rightarrow> (nat list \<times> nat) res" where
  "init_gdtr B gdt =
     (if 1 < length gdt
      then let gdt = gdt[1 := segment_code B] in
           rbind (usize_sub (GDT_LEN * 8) 1) (\<lambda>limit. Inr (gdt, limit mod 2 ^ 16))
      else Inl IndexOutOfBounds)"

section \<open>Gates\<close>

record interrupt_desc =
  low_low_offset :: nat
  segment_selector :: nat
  attributes :: nat
  high_low_offset :: nat
  high_offset :: nat
  desc_reserved :: nat

datatype gate_typ = Intrpt | Trap

primrec gate_typ_u8 :: "gate_typ \<Rightarrow> nat" where
  "gate_typ_u8 Intrpt = 0b1110"
| "gate_typ_u8 Trap = 0b1111"

definition DPL_IDXS :: "nat \<times> nat" where "DPL_IDXS = (13, 15)"
definition P_IDXS :: "nat \<times> nat" where "P_IDXS = (15, 16)"
definition TYPE_IDXS :: "nat \<times> nat" where "TYPE_IDXS = (8, 12)"

definition desc_new :: "bit_field \<Rightarrow> nat \<Rightarrow> gate_typ \<Rightarrow> privilege \<Rightarrow> interrupt_desc" where
  "desc_new B addr typ dpl =
     (let attr = store_le B TYPE_IDXS (gate_typ_u8 typ) 0;
          attr = store_le B DPL_IDXS (privilege_u8 dpl) attr;
          attr = store_le B P_IDXS 1 attr
      in \<lparr>low_low_offset = load_le B (0, 16) addr, segment_selector = 8, attributes = attr,
          high_low_offset = load_le B (16, 32) addr, high_offset = load_le B (32, 64) addr, desc_reserved = 0\<rparr>)"

definition desc_exn :: "bit_field \<Rightarrow> nat \<Rightarrow> interrupt_desc" where
  "desc_exn B addr = desc_new B addr Trap Kernel"

definition desc_irq :: "bit_field \<Rightarrow> nat \<Rightarrow> interrupt_desc" where
  "desc_irq B addr = desc_new B addr Trap Kernel"

definition desc_null :: interrupt_desc where
  "desc_null = \<lparr>low_low_offset = 0, segment_selector = 0, attributes = 0, high_low_offset = 0, high_offset = 0,
     desc_reserved = 0\<rparr>"

definition IDT_LEN :: nat where
  "IDT_LEN = 256"

definition IDT :: "interrupt_desc list" where
  "IDT = replicate IDT_LEN desc_null"

text \<open>A round of the two loops that fill the table.\<close>

definition set_gate :: "(nat \<Rightarrow> interrupt_desc) \<Rightarrow> nat list \<Rightarrow> nat \<Rightarrow> interrupt_desc list \<Rightarrow> interrupt_desc list res" where
  "set_gate gate isr i idt =
     (if i < length isr
      then if isr ! i = 0 then Inr idt
           else if i < length idt then Inr (idt[i := gate (isr ! i)]) else Inl IndexOutOfBounds
      else Inl IndexOutOfBounds)"

definition init_exn_handlers :: "bit_field \<Rightarrow> nat list \<Rightarrow> interrupt_desc list \<Rightarrow> interrupt_desc list res" where
  "init_exn_handlers B isr idt = rfold (set_gate (desc_exn B) isr) [0..<22] idt"

definition init_irq_handlers :: "bit_field \<Rightarrow> nat list \<Rightarrow> interrupt_desc list \<Rightarrow> interrupt_desc list res" where
  "init_irq_handlers B isr idt = rfold (set_gate (desc_irq B) isr) [32..<48] idt"

text \<open>The limit that \<^verbatim>\<open>lidt\<close> loads; a gate has 16 bytes.\<close>

definition init_idtr :: nat where
  "init_idtr = IDT_LEN * 16 mod 2 ^ 16"

section \<open>The boot header\<close>

definition MAGIC :: "32 word" where "MAGIC = 0xE85250D6"
definition ARCHITECTURE :: "32 word" where "ARCHITECTURE = 0"

text \<open>The size of \<^verbatim>\<open>Header\<close>: four words of 32 bits and the end tag of 8 bytes, aligned to 8.\<close>

record end_tag =
  et_typ :: "16 word"
  et_flags :: "16 word"
  et_size :: "32 word"

record boot_header =
  magic :: "32 word"
  architecture :: "32 word"
  header_length :: "32 word"
  checksum :: "32 word"
  end_tag :: end_tag

definition HEADER_LENGTH :: "32 word" where
  "HEADER_LENGTH = 4 + 4 + 4 + 4 + (2 + 2 + 4)"

definition CHECKSUM :: "32 word" where
  "CHECKSUM = NOT (MAGIC + ARCHITECTURE + HEADER_LENGTH) + 1"

definition END_TAG :: end_tag where
  "END_TAG = \<lparr>et_typ = 0, et_flags = 0, et_size = 8\<rparr>"

definition MULTIBOOT2_HEADER :: boot_header where
  "MULTIBOOT2_HEADER = \<lparr>magic = MAGIC, architecture = ARCHITECTURE, header_length = HEADER_LENGTH,
     checksum = CHECKSUM, end_tag = END_TAG\<rparr>"

section \<open>What the tables say\<close>

text \<open>The fields of a gate as the processor reads them.\<close>

definition gate_offset :: "interrupt_desc \<Rightarrow> nat" where
  "gate_offset d = low_low_offset d + 2 ^ 16 * high_low_offset d + 2 ^ 32 * high_offset d"

definition gate_present :: "interrupt_desc \<Rightarrow> bool" where
  "gate_present d \<longleftrightarrow> bit (attributes d) 15"

definition gate_type :: "interrupt_desc \<Rightarrow> nat" where
  "gate_type d = attributes d div 2 ^ 8 mod 2 ^ 4"

definition gate_dpl :: "interrupt_desc \<Rightarrow> nat" where
  "gate_dpl d = attributes d div 2 ^ 13 mod 2 ^ 2"

text \<open>The gates of both kinds of vectors: trap gates of the kernel, in the segment of entry 1.\<close>

definition kernel_gate :: "interrupt_desc \<Rightarrow> nat \<Rightarrow> bool" where
  "kernel_gate d addr \<longleftrightarrow> gate_offset d = addr \<and> segment_selector d = 8 \<and> gate_present d \<and>
     gate_type d = gate_typ_u8 Trap \<and> gate_dpl d = privilege_u8 Kernel"

lemmas desc_idxs = TYPE_IDXS_def DPL_IDXS_def P_IDXS_def
lemmas seg_idxs = SEG_TYPE_IDXS_def SEG_DESC_TYPE_IDXS_def SEG_DPL_IDXS_def SEG_P_IDXS_def SEG_LONG_MODE_IDXS_def

lemma parts_sum: "(a::nat) mod m + m * (a div m mod m) + m * m * (a div m div m) = a"
proof -
  have "m * (a div m mod m) + m * m * (a div m div m) = m * (a div m mod m + m * (a div m div m))"
    by (simp only: distrib_left mult.assoc)
  then show ?thesis by (simp add: add.assoc)
qed

locale bit_region =
  fixes B :: bit_field
  assumes load_bits: "lo \<le> hi \<Longrightarrow> hi \<le> 64 \<Longrightarrow> bit (load_le B (lo, hi) w) i \<longleftrightarrow> i < hi - lo \<and> bit w (lo + i)"
    and store_bits: "lo \<le> hi \<Longrightarrow> hi \<le> 64 \<Longrightarrow>
      bit (store_le B (lo, hi) x w) i \<longleftrightarrow> (if lo \<le> i \<and> i < hi then bit x (i - lo) else bit w i)"
begin

lemma load_eq:
  assumes "lo \<le> hi" "hi \<le> 64"
  shows "load_le B (lo, hi) w = w div 2 ^ lo mod 2 ^ (hi - lo)"
proof -
  have "load_le B (lo, hi) w = take_bit (hi - lo) (drop_bit lo w)"
    using assms by (intro bit_eqI) (simp add: load_bits bit_take_bit_iff bit_drop_bit_eq)
  then show ?thesis by (simp add: take_bit_eq_mod drop_bit_eq_div)
qed

text \<open>Storing above all bits that are set.\<close>

lemma store_above:
  assumes "w < 2 ^ lo" "x < 2 ^ (hi - lo)" "lo \<le> hi" "hi \<le> 64"
  shows "store_le B (lo, hi) x w = w + 2 ^ lo * x"
proof -
  have w: "take_bit lo w = w" using assms(1) by (simp add: take_bit_nat_eq_self)
  then have wb: "n < lo" if "bit w n" for n using that by (metis bit_take_bit_iff)
  have x: "take_bit (hi - lo) x = x" using assms(2) by (simp add: take_bit_nat_eq_self)
  have "store_le B (lo, hi) x w = take_bit lo w OR push_bit lo (take_bit (hi - lo) x)"
    using wb assms(3,4) by (intro bit_eqI) (auto simp: store_bits bit_or_iff bit_push_bit_iff bit_take_bit_iff)
  also have "\<dots> = w + push_bit lo x" unfolding w x
    by (rule disjunctive_add [symmetric]) (use wb in \<open>auto simp: bit_push_bit_iff dest: wb\<close>)
  finally show ?thesis by (simp add: push_bit_eq_mult mult.commute)
qed

lemma attributes_eq:
  "attributes (desc_new B addr g dpl) = 2 ^ 8 * gate_typ_u8 g + 2 ^ 13 * privilege_u8 dpl + 2 ^ 15"
  by (cases g; cases dpl) (simp_all add: desc_new_def desc_idxs store_above)

lemma gate_offset_new:
  assumes "addr < 2 ^ 64"
  shows "gate_offset (desc_new B addr g dpl) = addr"
proof -
  let ?y = "addr div 2 ^ 16"
  have "addr div 2 ^ 32 mod 2 ^ 32 = ?y div 2 ^ 16" using assms by (simp add: div_mult2_eq [symmetric] div_less_iff_less_mult)
  then show ?thesis using parts_sum [of addr "2 ^ 16"] by (simp add: gate_offset_def desc_new_def load_eq)
qed

lemma kernel_gate_new: "addr < 2 ^ 64 \<Longrightarrow> kernel_gate (desc_new B addr Trap Kernel) addr"
  by (simp add: kernel_gate_def gate_offset_new gate_present_def gate_type_def gate_dpl_def attributes_eq bit_0)
    (simp add: desc_new_def)

lemma segment_code_eq: "segment_code B = 2 ^ 43 + 2 ^ 44 + 2 ^ 47 + 2 ^ 53"
  by (simp add: segment_code_def seg_idxs store_above)

end

definition word_fields :: bit_field where
  "word_fields = \<lparr>load_le = (\<lambda>(lo, hi) w. take_bit (hi - lo) (drop_bit lo w)),
     store_le = (\<lambda>(lo, hi) x w. take_bit lo w OR push_bit lo (take_bit (hi - lo) x) OR push_bit hi (drop_bit hi w))\<rparr>"

interpretation wf: bit_region word_fields
  by unfold_locales (auto simp: word_fields_def bit_or_iff bit_take_bit_iff bit_push_bit_iff bit_drop_bit_eq)

section \<open>Filled tables\<close>

lemma set_gates:
  assumes "\<forall>i \<in> set is. i < length idt \<and> i < length isr"
  shows "rfold (set_gate gate isr) is idt =
    Inr (map (\<lambda>i. if i \<in> set is \<and> isr ! i \<noteq> 0 then gate (isr ! i) else idt ! i) [0..<length idt])"
  using assms
proof (induction "is" arbitrary: idt)
  case (Cons i "is")
  let ?idt = "if isr ! i = 0 then idt else idt[i := gate (isr ! i)]"
  have "set_gate gate isr i idt = Inr ?idt" using Cons.prems by (simp add: set_gate_def)
  moreover have "map (\<lambda>j. if j \<in> set is \<and> isr ! j \<noteq> 0 then gate (isr ! j) else ?idt ! j) [0..<length ?idt] =
    map (\<lambda>j. if j \<in> set (i # is) \<and> isr ! j \<noteq> 0 then gate (isr ! j) else idt ! j) [0..<length idt]"
    using Cons.prems by (auto simp: nth_list_update)
  ultimately show ?case using Cons.IH [of ?idt] Cons.prems by simp
qed (simp add: map_nth)

lemma GDT_eq: "GDT = [0, 0]"
  by (simp add: GDT_def GDT_LEN_def segment_invalid_def numeral_2_eq_2)

text \<open>Each vector from 0 to 21 and from 32 to 47 that has an entry point gets a gate to exactly that
  address, and every other vector keeps its empty gate.\<close>

lemma gates_filled:
  assumes "bit_region B" "length isr = 256" "\<forall>addr \<in> set isr. addr < 2 ^ 64"
  shows "\<exists>idt0 idt. init_exn_handlers B isr IDT = Inr idt0 \<and> init_irq_handlers B isr idt0 = Inr idt \<and> length idt = 256 \<and>
    (\<forall>i<256. if isr ! i \<noteq> 0 \<and> (i \<le> 21 \<or> 32 \<le> i \<and> i \<le> 47) then kernel_gate (idt ! i) (isr ! i) else idt ! i = desc_null)"
proof -
  let ?exns = "map (\<lambda>i. if i \<in> set [0..<22] \<and> isr ! i \<noteq> 0 then desc_exn B (isr ! i) else IDT ! i) [0..<256]"
  define idt where "idt = map (\<lambda>i. if i \<in> set [32..<48] \<and> isr ! i \<noteq> 0 then desc_irq B (isr ! i) else ?exns ! i) [0..<256]"
  have len: "length IDT = 256" by (simp add: IDT_def IDT_LEN_def)
  have exn: "init_exn_handlers B isr IDT = Inr ?exns"
    using set_gates [of "[0..<22]" IDT isr "desc_exn B"] assms(2) by (simp add: init_exn_handlers_def len del: upt_rec_numeral)
  have irq: "init_irq_handlers B isr ?exns = Inr idt"
    using set_gates [of "[32..<48]" ?exns isr "desc_irq B"] assms(2) by (simp add: init_irq_handlers_def idt_def del: upt_rec_numeral)
  have gate: "kernel_gate (desc_new B (isr ! i) Trap Kernel) (isr ! i)" if "i < 256" for i
    using bit_region.kernel_gate_new [OF assms(1)] assms(2,3) that by simp
  have "idt ! i = (if isr ! i \<noteq> 0 \<and> (i \<le> 21 \<or> 32 \<le> i \<and> i \<le> 47) then desc_new B (isr ! i) Trap Kernel else desc_null)"
    if "i < 256" for i
    using that by (auto simp: idt_def desc_exn_def desc_irq_def IDT_def IDT_LEN_def simp del: upt_rec_numeral)
  then have "\<forall>i<256. if isr ! i \<noteq> 0 \<and> (i \<le> 21 \<or> 32 \<le> i \<and> i \<le> 47) then kernel_gate (idt ! i) (isr ! i) else idt ! i = desc_null"
    using gate by simp
  moreover have "length idt = 256" by (simp add: idt_def)
  ultimately show ?thesis using exn irq by blast
qed

text \<open>The segment of the gates is entry 1 of the table that \<^verbatim>\<open>init_gdtr\<close> loads, the same 64-bit code
  segment that \<^verbatim>\<open>src/src/boot/boot.S\<close> starts with, and the limit is the offset of the last byte.\<close>

lemma gdt_loaded:
  assumes "bit_region B"
  shows "init_gdtr B GDT = Inr ([0, 2 ^ 43 + 2 ^ 44 + 2 ^ 47 + 2 ^ 53], 15)"
  using bit_region.segment_code_eq [OF assms] by (simp add: init_gdtr_def GDT_eq GDT_LEN_def)

text \<open>The boot loader accepts the header: its four words sum up to 0, and its length is that of the four
  words and the end tag.\<close>

lemma boot_header_accepted:
  "magic MULTIBOOT2_HEADER + architecture MULTIBOOT2_HEADER + header_length MULTIBOOT2_HEADER + checksum MULTIBOOT2_HEADER = 0 \<and>
   header_length MULTIBOOT2_HEADER = 4 * 4 + et_size (end_tag MULTIBOOT2_HEADER)"
  by (simp add: MULTIBOOT2_HEADER_def CHECKSUM_def HEADER_LENGTH_def END_TAG_def minus_eq_not_plus_1 [symmetric])

end
