(* ===== verification/Mem_Init.thy ===== *)
theory Mem_Init
  imports Phy_Boot Paging_Init Descriptors
begin

text \<open>
  \<^verbatim>\<open>init\<close> of \<^verbatim>\<open>src/src/mem.rs\<close>: the segments, the boot-time memory, the first memory map and the physical
  memory manager, in this order.

  The addresses of the linker's symbols are a record.  The single memory manager and the single physical
  memory manager are made once: they are options, and a second \<^verbatim>\<open>call_once\<close> changes nothing.
\<close>

section \<open>The model\<close>

record kernel_symbols =
  sym_image :: kernel_image
  KERNEL_START_VMA :: nat
  KERNEL_START_LMA :: nat

definition kernel_start_vma :: "kernel_symbols \<Rightarrow> addr res" where
  "kernel_start_vma syms = addr_new KernelImageSpace (KERNEL_START_VMA syms)"

definition kernel_end_vma_addr :: "kernel_symbols \<Rightarrow> addr res" where
  "kernel_end_vma_addr syms = addr_new KernelImageSpace (kernel_end_vma (sym_image syms))"

definition kernel_start_lma :: "kernel_symbols \<Rightarrow> addr res" where
  "kernel_start_lma syms = addr_new UMASpace (KERNEL_START_LMA syms)"

text \<open>The conversion of a difference to \<^verbatim>\<open>usize\<close> fails when it is negative.\<close>

definition kernel_size :: "kernel_symbols \<Rightarrow> nat res" where
  "kernel_size syms =
     rbind (kernel_end_vma_addr syms) (\<lambda>e.
     rbind (kernel_start_vma syms) (\<lambda>s.
     rbind (addr_sub e s) (\<lambda>d.
     rexpect (if 0 \<le> d then Some (nat d) else None))))"

definition kernel_end_lma :: "kernel_symbols \<Rightarrow> addr res" where
  "kernel_end_lma syms =
     rbind (kernel_start_lma syms) (\<lambda>a.
     rbind (kernel_size syms) (\<lambda>n.
     byte_add UMASpace a n))"

definition phy_init ::
  "(nat \<Rightarrow> frame) \<Rightarrow> boot_memory_manager \<Rightarrow> phy_record option \<Rightarrow> phy_record option res" where
  "phy_init frames bmm pmm =
     (case pmm of Some r \<Rightarrow> Inr (Some r)
      | None \<Rightarrow> rbind (phy_new frames bmm) (\<lambda>(r, _). Inr (Some r)))"

record memory_state =
  st_gdt :: "nat list"
  st_gdt_limit :: nat
  st_mmu :: "memory_manager option"
  st_pmm :: "phy_record option"

text \<open>The memory areas are \<open>None\<close> when the boot loader gives no memory map.  What \<^verbatim>\<open>cr3\<close>, the tables and
  the array of frames hold before are arguments.\<close>

definition mem_init ::
  "bit_field \<Rightarrow> kernel_symbols \<Rightarrow> raw_entry \<Rightarrow> pmem \<Rightarrow> (nat \<Rightarrow> frame) \<Rightarrow> memory_area list option \<Rightarrow> memory_state \<Rightarrow>
     memory_state res" where
  "mem_init F syms boot_cr3 m0 frames memory_info st =
     rbind (rexpect memory_info) (\<lambda>areas.
     rbind (init_gdtr F (st_gdt st)) (\<lambda>(gdt, limit).
     rbind (kernel_end_lma syms) (\<lambda>kend.
     rbind (init_boot_mem kend areas) (\<lambda>bmm.
     rbind (case st_mmu st of Some mm \<Rightarrow> Inr mm
            | None \<Rightarrow> mmu_init (sym_image syms) (boot_managed_range bmm) boot_cr3 m0) (\<lambda>mm.
     rbind (phy_init frames bmm (st_pmm st)) (\<lambda>pmm.
     Inr \<lparr>st_gdt = gdt, st_gdt_limit = limit, st_mmu = Some mm, st_pmm = pmm\<rparr>))))))"

definition reset_state :: memory_state where
  "reset_state = \<lparr>st_gdt = GDT, st_gdt_limit = 0, st_mmu = None, st_pmm = None\<rparr>"

section \<open>Start-up\<close>

lemma kernel_end_lma_ok:
  assumes "image_start \<le> KERNEL_START_VMA syms" "KERNEL_START_VMA syms \<le> kernel_end_vma (sym_image syms)"
    "kernel_end_vma (sym_image syms) < RANGE_end KernelImageSpace" "KERNEL_START_LMA syms < RANGE_end UMASpace"
  shows "kernel_end_lma syms = Inr (Addr (KERNEL_START_LMA syms + (kernel_end_vma (sym_image syms) - KERNEL_START_VMA syms)))"
proof -
  let ?s = "KERNEL_START_VMA syms" and ?e = "kernel_end_vma (sym_image syms)"
  have "same_half ?e ?s" using assms(1-3) by (auto simp: same_half_def isize_limit_def usize_limit_def KernelImageSpace_def)
  then have "addr_sub (Addr ?e) (Addr ?s) = Inr (int ?e - int ?s)" using addr_sub_same_half [of "Addr ?e" "Addr ?s"] by simp
  then show ?thesis using assms
    by (simp add: kernel_end_lma_def kernel_start_lma_def kernel_size_def kernel_end_vma_addr_def kernel_start_vma_def
        addr_new_def KernelImageSpace_def UMASpace_def TiB_def byte_add_def usize_limit_def nat_diff_distrib)
qed

lemma mem_init_ok:
  assumes F: "bit_region F" and img: "image_ok (sym_image syms)" "\<forall>p \<in> image_tables (sym_image syms). m0 p = 0"
    and kend: "kernel_end_lma syms = Inr kend" and boots: "boots kend areas s'"
  shows "\<exists>mm r managed. mem_init F syms boot_cr3 m0 frames (Some areas) reset_state =
      Inr \<lparr>st_gdt = [0, 2 ^ 43 + 2 ^ 44 + 2 ^ 47 + 2 ^ 53], st_gdt_limit = 15, st_mmu = Some mm, st_pmm = Some r\<rparr> \<and> phy_inv r \<and>
    pt_inv (init_typing (sym_image syms)) (pml4_frame (sym_image syms)) (mmu_mem mm) \<and> cpu_cr3 mm = mmu_map mm \<and>
    0 < managed \<and> managed \<le> 2 ^ 46 \<and> (\<forall>v. translate (mmu_paging mm) v = Inr (init_lookup (sym_image syms) managed v))"
proof -
  obtain s r where s: "init_boot_mem kend areas = Inr s" "range_in UMASpace (ms_managed_range s)" "0 < ar_size (ms_managed_range s)"
    "phy_new frames s = Inr (r, s')" "phy_inv r"
    using bootsE [OF boots] by metis
  then have sz: "ar_size (ms_managed_range s) \<le> 2 ^ 46" by (simp add: range_in_def uma_end)
  obtain mm where mm: "mmu_init (sym_image syms) (ms_managed_range s) boot_cr3 m0 = Inr mm" "cpu_cr3 mm = mmu_map mm"
    "pt_inv (init_typing (sym_image syms)) (pml4_frame (sym_image syms)) (mmu_mem mm)"
    "\<forall>v. translate (mmu_paging mm) v = Inr (init_lookup (sym_image syms) (ar_size (ms_managed_range s)) v)"
    using mmu_init_run [OF img(1) s(3) sz img(2), of boot_cr3] by blast
  have "mem_init F syms boot_cr3 m0 frames (Some areas) reset_state =
      Inr \<lparr>st_gdt = [0, 2 ^ 43 + 2 ^ 44 + 2 ^ 47 + 2 ^ 53], st_gdt_limit = 15, st_mmu = Some mm, st_pmm = Some r\<rparr>"
    using gdt_loaded [OF F] kend s(1,4) mm(1) by (simp add: mem_init_def reset_state_def boot_managed_range_def phy_init_def)
  then show ?thesis using s(3,5) sz mm(2-4) by blast
qed

end
