(* ===== verification/Paging_Stale.thy ===== *)
theory Paging_Stale
  imports Paging
begin

text \<open>
  What \<^verbatim>\<open>MemoryMap::map\<close> does with tables that are not cleared (\<^verbatim>\<open>src/src/mem/paging.rs\<close>), on a
  concrete memory.
\<close>

text \<open>An allocator that hands out given frames, and an empty map in a memory where the frame at
  \<open>0x2000\<close> still holds a word of its former use.\<close>

fun list_source :: "nat list uma_allocator" where
  "list_source l [] = Inr (None, [])"
| "list_source l (a # as) = Inr (Some \<lparr>ar_base = Addr a, ar_size = l_size l\<rparr>, as)"

definition used_memory :: paging where
  "used_memory = \<lparr>pg_cr3 = 0x1000, pg_mem = (\<lambda>_. 0)(0x2028 := 0x40000083)\<rparr>"

text \<open>The translations of two addresses, after mapping the page at address 0.\<close>

definition map_then_translate :: "paging \<Rightarrow> nat list \<Rightarrow> addr \<Rightarrow> addr \<Rightarrow> (addr option \<times> addr option) res option" where
  "map_then_translate s frames v v' =
     (case map_page list_source \<lparr>pa_base = Addr 0, pa_page_size = Small\<rparr> \<lparr>pa_base = Addr 0x5000, pa_page_size = Small\<rparr>
        [Present, ReadWrite] s frames of
        None \<Rightarrow> None
      | Some r \<Rightarrow> Some (rbind r (\<lambda>(_, s', _).
          rbind (translate s' v) (\<lambda>a. rbind (translate s' v') (\<lambda>a'. Inr (a, a'))))))"


end
