(* ===== verification/Page_Alloc.thy ===== *)
theory Page_Alloc
  imports Phy Paging_Map
begin

text \<open>
  The page allocators of \<^verbatim>\<open>src/src/mem/alloc/page.rs\<close> and the helpers for zero-sized layouts of
  \<^verbatim>\<open>src/src/mem/alloc.rs\<close>, on top of the physical memory manager.  A pointer to a slice, as
  \<^verbatim>\<open>core::alloc::Allocator\<close> answers it, is the pair of its address and its length.
\<close>

section \<open>Zero-sized layouts\<close>

text \<open>The dangling pointer of \<^verbatim>\<open>u8\<close>, whose alignment is 1.\<close>

definition dangling :: nat where "dangling = 1"

definition allocate_if_zst :: "layout \<Rightarrow> (nat \<times> nat) option" where
  "allocate_if_zst l = (if l_size l \<noteq> 0 then None else Some (dangling, 0))"

definition deallocate_if_zst :: "nat \<Rightarrow> layout \<Rightarrow> bool" where
  "deallocate_if_zst ptr l \<longleftrightarrow> l_size l = 0 \<and> ptr = dangling"

section \<open>The physical memory manager by pages\<close>

definition pmm_allocate_pages ::
  "nat \<Rightarrow> page_size \<Rightarrow> phy_record option \<Rightarrow> (page_range option \<times> phy_record option) res" where
  "pmm_allocate_pages cnt ps pmm =
     (case pmm of None \<Rightarrow> Inl AssertFailed
      | Some r \<Rightarrow> rbind (phy_allocate_pages r cnt ps) (\<lambda>(o', r'). Inr (o', Some r')))"

definition pmm_deallocate_pages :: "page_range \<Rightarrow> phy_record option \<Rightarrow> phy_record option res" where
  "pmm_deallocate_pages pages pmm =
     rbind (rexpect pmm) (\<lambda>r. rbind (phy_deallocate_pages r pages) (\<lambda>r'. Inr (Some r')))"

section \<open>The page allocator\<close>

text \<open>\<^verbatim>\<open>addr::Allocator\<close> for \<^verbatim>\<open>PageAllocator\<close>.\<close>

definition page_cnt_of :: "layout \<Rightarrow> nat res" where
  "page_cnt_of l =
     rbind (next_multiple_of (l_size l) (page_usize page_MIN)) (\<lambda>n. usize_div n (page_usize page_MIN))"

definition page_allocate_range ::
  "layout \<Rightarrow> phy_record option \<Rightarrow> (addr_range option \<times> phy_record option) res" where
  "page_allocate_range l pmm =
     (if l_size l = 0 then rbind (addr_range_empty UMASpace) (\<lambda>e. Inr (Some e, pmm))
      else
        rbind (usize_rem (page_align page_MIN) (l_align l)) (\<lambda>m.
        rbind (rassert (m = 0)) (\<lambda>_.
        rbind (page_cnt_of l) (\<lambda>page_cnt.
        rbind (pmm_allocate_pages page_cnt page_MIN pmm) (\<lambda>(o', pmm).
        case o' of None \<Rightarrow> Inr (None, pmm)
        | Some prange \<Rightarrow>
          rbind (rassert (page_cnt \<le> pr_len prange)) (\<lambda>_.
          rbind (rassert (page_order page_MIN \<le> page_order (pa_page_size (pr_base prange)))) (\<lambda>_.
          rbind (page_range_into prange) (\<lambda>ar. Inr (Some ar, pmm)))))))))"

definition page_deallocate_range :: "addr \<Rightarrow> layout \<Rightarrow> phy_record option \<Rightarrow> phy_record option res" where
  "page_deallocate_range a l pmm =
     (if l_size l = 0 then Inr pmm
      else
        rbind (page_cnt_of l) (\<lambda>page_cnt.
        rbind (usize_mul page_cnt (page_usize page_MIN)) (\<lambda>sz.
        rbind (addr_range_new UMASpace a sz) (\<lambda>prange.
        rbind (try_from_range prange page_MIN) (\<lambda>o'.
        rbind (rexpect o') (\<lambda>prange. pmm_deallocate_pages prange pmm))))))"

text \<open>\<^verbatim>\<open>core::alloc::Allocator\<close> for \<^verbatim>\<open>PageAllocator\<close>.\<close>

definition page_allocate ::
  "layout \<Rightarrow> phy_record option \<Rightarrow> ((nat \<times> nat) option \<times> phy_record option) res" where
  "page_allocate l pmm =
     (case allocate_if_zst l of Some ptr \<Rightarrow> Inr (Some ptr, pmm)
      | None \<Rightarrow>
        rbind (page_allocate_range l pmm) (\<lambda>(o', pmm).
        case o' of None \<Rightarrow> Inr (None, pmm)
        | Some phy \<Rightarrow> rbind (p2v (ar_base phy)) (\<lambda>base. Inr (Some (usize base, ar_size phy), pmm))))"

definition page_deallocate :: "nat \<Rightarrow> layout \<Rightarrow> phy_record option \<Rightarrow> phy_record option res" where
  "page_deallocate ptr l pmm =
     rbind (rassert (RANGE_contains PhysicalRemapSpace ptr)) (\<lambda>_.
     rbind (addr_new PhysicalRemapSpace ptr) (\<lambda>v.
     rbind (v2p v) (\<lambda>p. page_deallocate_range p l pmm)))"

text \<open>\<^verbatim>\<open>core::alloc::Allocator\<close> for \<^verbatim>\<open>PhysicalPageManager\<close>.\<close>

definition ppm_allocate ::
  "layout \<Rightarrow> phy_record option \<Rightarrow> ((nat \<times> nat) option \<times> phy_record option) res" where
  "ppm_allocate l pmm =
     (case allocate_if_zst l of Some ptr \<Rightarrow> Inr (Some ptr, pmm)
      | None \<Rightarrow>
        rbind (usize_rem (page_align page_MIN) (l_align l)) (\<lambda>m.
        rbind (rassert (m = 0)) (\<lambda>_.
        case checked_next_multiple_of (l_size l) (page_usize page_MIN) of None \<Rightarrow> Inr (None, pmm)
        | Some n \<Rightarrow>
          rbind (usize_div n (page_usize page_MIN)) (\<lambda>page_cnt.
          rbind (pmm_allocate_pages page_cnt page_MIN pmm) (\<lambda>(o', pmm).
          case o' of None \<Rightarrow> Inr (None, pmm)
          | Some prange \<Rightarrow>
            rbind (rassert (page_cnt \<le> pr_len prange)) (\<lambda>_.
            rbind (rassert (page_order page_MIN \<le> page_order (pa_page_size (pr_base prange)))) (\<lambda>_.
            rbind (p2v (pa_base (pr_base prange))) (\<lambda>vbase.
            rbind (rexpect (if usize vbase = 0 then None else Some (usize vbase))) (\<lambda>ptr.
            rbind (usize_mul (page_usize page_MIN) (pr_len prange)) (\<lambda>sz.
            Inr (Some (ptr, sz), pmm)))))))))))"

definition ppm_deallocate :: "nat \<Rightarrow> layout \<Rightarrow> phy_record option \<Rightarrow> phy_record option res" where
  "ppm_deallocate ptr l pmm =
     (if deallocate_if_zst ptr l then Inr pmm
      else
        rbind (page_cnt_of l) (\<lambda>page_cnt.
        rbind (rassert (RANGE_contains PhysicalRemapSpace ptr)) (\<lambda>_.
        rbind (addr_new PhysicalRemapSpace ptr) (\<lambda>vbase.
        rbind (v2p vbase) (\<lambda>pbase.
        rbind (usize_mul page_cnt (page_usize page_MIN)) (\<lambda>sz.
        rbind (addr_range_new UMASpace pbase sz) (\<lambda>prange.
        rbind (try_from_range prange page_MIN) (\<lambda>o'.
        rbind (rexpect o') (\<lambda>prange. pmm_deallocate_pages prange pmm)))))))))"

section \<open>What the allocator does\<close>

text \<open>The pages of a layout, and their number rounded up to a power of two.\<close>

definition layout_pages :: "layout \<Rightarrow> nat" where
  "layout_pages l = ceil_to (l_size l) 4096 div 4096"

definition pages_fit :: "phy_record \<Rightarrow> layout \<Rightarrow> bool" where
  "pages_fit r l \<longleftrightarrow> 0 < l_size l \<and> l_align l dvd 4096 \<and> 0 < l_align l \<and>
     pow2_exp (layout_pages l) \<le> bs_max_order (ph_buddy r)"

lemma layout_pages_mult: "layout_pages l * 4096 = ceil_to (l_size l) 4096"
  using ceil_to_multiple [of 4096 "l_size l"] by (simp add: layout_pages_def)

lemma layout_pages_limit:
  assumes "phy_inv r" "pages_fit r l"
  shows "layout_pages l \<le> 2 ^ 18" "0 < layout_pages l"
proof -
  have "pow2_exp (layout_pages l) \<le> 18"
    using assms buddy_order_limit [of "ph_buddy r"] by (auto simp: phy_inv_def pages_fit_def)
  then have "(2::nat) ^ pow2_exp (layout_pages l) \<le> 2 ^ 18" by (rule power_increasing) simp
  then show "layout_pages l \<le> 2 ^ 18" using pow2_exp_ge [of "layout_pages l"] by linarith
  have "0 < ceil_to (l_size l) 4096" using ceil_to_ge [of "l_size l" 4096] assms(2) by (simp add: pages_fit_def)
  then show "0 < layout_pages l" using layout_pages_mult [of l] by (cases "layout_pages l") simp_all
qed

lemma page_cnt_ok:
  assumes "phy_inv r" "pages_fit r l"
  shows "page_cnt_of l = Inr (layout_pages l)"
proof -
  have "layout_pages l * 4096 \<le> 2 ^ 18 * 4096" using layout_pages_limit(1) [OF assms] by simp
  then have "ceil_to (l_size l) 4096 < usize_limit" unfolding layout_pages_mult by (simp add: usize_limit_def)
  then show ?thesis by (simp add: page_cnt_of_def page_MIN_def next_multiple_of_ok layout_pages_def)
qed

lemma page_allocate_law:
  assumes inv: "phy_inv r" and fit: "pages_fit r l"
  defines "k \<equiv> pow2_exp (layout_pages l)"
  shows "page_allocate_range l (Some r) = Inr (None, Some r) \<or>
    (\<exists>i r'. page_allocate_range l (Some r) =
        Inr (Some \<lparr>ar_base = frame_addr r (i * 2 ^ k), ar_size = 2 ^ k * 4096\<rparr>, Some r') \<and>
      phy_inv r' \<and> bs_max_order (ph_buddy r') = bs_max_order (ph_buddy r) \<and> ph_base r' = ph_base r \<and>
      block k i \<subseteq> phy_free r \<and> phy_free r' = phy_free r - block k i \<and>
      phy_used r' k i \<and> (\<forall>k' j. phy_used r k' j \<longrightarrow> phy_used r' k' j))"
proof -
  have k: "k \<le> bs_max_order (ph_buddy r)" using fit by (simp add: pages_fit_def k_def)
  have k18: "k \<le> 18" using k buddy_order_limit inv by (fastforce simp: phy_inv_def)
  then have "(2::nat) ^ k \<le> 2 ^ 18" by (rule power_increasing) simp
  then have sz: "2 ^ k * 4096 < usize_limit" by (simp add: usize_limit_def)
  have m: "(4096::nat) mod l_align l = 0" using fit by (simp add: pages_fit_def)
  have le: "layout_pages l \<le> 2 ^ k" using pow2_exp_ge [of "layout_pages l"] by (simp add: k_def)
  note defs = page_allocate_range_def page_cnt_ok [OF inv fit] pmm_allocate_pages_def page_MIN_def
  show ?thesis
    using phy_allocate_law [OF inv k_def [THEN meta_eq_to_obj_eq, symmetric] k]
  proof (elim disjE exE conjE)
    assume "phy_allocate_pages r (layout_pages l) Small = Inr (None, r)"
    then show ?thesis using fit m by (simp add: defs pages_fit_def)
  next
    fix i r'
    assume h: "phy_allocate_pages r (layout_pages l) Small = Inr (Some (frame_range r (i * 2 ^ k) (2 ^ k)), r')"
    have "page_allocate_range l (Some r) =
        Inr (Some \<lparr>ar_base = frame_addr r (i * 2 ^ k), ar_size = 2 ^ k * 4096\<rparr>, Some r')"
      using fit m h le sz by (simp add: defs pages_fit_def frame_range_def page_range_into_def)
    moreover assume "phy_inv r'" "bs_max_order (ph_buddy r') = bs_max_order (ph_buddy r)" "ph_base r' = ph_base r"
      "block k i \<subseteq> free_frames (ph_buddy r)" "free_frames (ph_buddy r') = free_frames (ph_buddy r) - block k i"
      "phy_used r' k i" "\<forall>k' j. phy_used r k' j \<longrightarrow> phy_used r' k' j"
    ultimately show ?thesis by (auto simp: phy_free_def)
  qed
qed

section \<open>A source of page tables\<close>

definition pmm_ok :: "phy_record option \<Rightarrow> bool" where
  "pmm_ok pmm \<longleftrightarrow> (case pmm of None \<Rightarrow> False | Some r \<Rightarrow> phy_inv r)"

definition pmm_spare :: "phy_record option \<Rightarrow> nat set" where
  "pmm_spare pmm = (case pmm of None \<Rightarrow> {} | Some r \<Rightarrow> \<Union>x \<in> phy_free r. frame_bytes (usize (frame_addr r x)))"

lemma frame_bytes_disjoint:
  "x \<noteq> y \<Longrightarrow> frame_bytes (usize (frame_addr r x)) \<inter> frame_bytes (usize (frame_addr r y)) = {}"
proof -
  assume "x \<noteq> y"
  then consider "x + 1 \<le> y" | "y + 1 \<le> x" by linarith
  then have "x * 4096 + 4096 \<le> y * 4096 \<or> y * 4096 + 4096 \<le> x * 4096" by cases simp_all
  then show ?thesis by (auto simp: frame_bytes_def frame_addr_def)
qed

lemma page_allocate_table:
  assumes "pmm_ok pmm"
  shows "page_allocate_range table_layout pmm = Inr (None, pmm) \<or>
    (\<exists>a pmm'. page_allocate_range table_layout pmm = Inr (Some \<lparr>ar_base = Addr a, ar_size = 4096\<rparr>, pmm') \<and>
      pmm_ok pmm' \<and> pmm_spare pmm' \<subseteq> pmm_spare pmm \<and> 4096 dvd a \<and> a < 2 ^ 46 \<and>
      frame_bytes a \<subseteq> pmm_spare pmm - pmm_spare pmm')"
proof -
  obtain r where pmm: "pmm = Some r" and inv: "phy_inv r" using assms by (cases pmm) (auto simp: pmm_ok_def)
  have e: "pow2_exp 1 = 0" using pow2_exp_two_power [of 0] by simp
  have lp: "layout_pages table_layout = 1" by (simp add: layout_pages_def table_layout_def ceil_to_def)
  have fit: "pages_fit r table_layout" unfolding pages_fit_def lp e by (simp add: table_layout_def)
  from page_allocate_law [OF inv fit, unfolded lp e] show ?thesis
  proof (elim disjE exE conjE)
    fix i r'
    assume h: "page_allocate_range table_layout (Some r) =
        Inr (Some \<lparr>ar_base = frame_addr r (i * 2 ^ 0), ar_size = 2 ^ 0 * 4096\<rparr>, Some r')"
      "phy_inv r'" "ph_base r' = ph_base r" "block 0 i \<subseteq> phy_free r" "phy_free r' = phy_free r - block 0 i"
    define a where "a = usize (frame_addr r i)"
    have i: "i \<in> phy_free r" "i < length (ph_frames r)"
      using h(4) inv by (auto simp: block_eq phy_free_def phy_inv_def)
    have fa: "frame_addr r' = frame_addr r" using h(3) by (simp add: frame_addr_def fun_eq_iff)
    have fr: "phy_free r' = phy_free r - {i}" using h(5) by (simp add: block_eq)
    have "frame_bytes a \<inter> pmm_spare (Some r') = {}"
      unfolding a_def using frame_bytes_disjoint by (auto simp: pmm_spare_def fa fr)
    then have "frame_bytes a \<subseteq> pmm_spare (Some r) - pmm_spare (Some r')"
      using i(1) by (auto simp: pmm_spare_def a_def)
    moreover have "pmm_spare (Some r') \<subseteq> pmm_spare (Some r)" by (auto simp: pmm_spare_def fa fr)
    moreover have "4096 dvd a" "a < 2 ^ 46"
      using inv i(2) uma_end by (simp_all add: phy_inv_def frame_addr_def a_def)
    moreover have "frame_addr r i = Addr a" by (simp add: a_def)
    ultimately show ?thesis using h(1,2) by (auto simp: pmm pmm_ok_def)
  qed (simp add: pmm)
qed

interpretation pages: table_source page_allocate_range pmm_ok pmm_spare
proof
  fix pmm assume "pmm_ok pmm"
  from page_allocate_table [OF this] this
  show "\<exists>o' al'. page_allocate_range table_layout pmm = Inr (o', al') \<and> pmm_ok al' \<and> pmm_spare al' \<subseteq> pmm_spare pmm \<and>
      (\<forall>r. o' = Some r \<longrightarrow> 4096 dvd usize (ar_base r) \<and> usize (ar_base r) < 2 ^ 46 \<and>
        frame_bytes (usize (ar_base r)) \<subseteq> pmm_spare pmm - pmm_spare al')" by auto
qed

end
