(* ===== verification/Page_Ptr.thy ===== *)
theory Page_Ptr
  imports Page_Alloc
begin

text \<open>
  The page allocator by pointers (\<^verbatim>\<open>core::alloc::Allocator\<close> for \<^verbatim>\<open>PageAllocator\<close> in
  \<^verbatim>\<open>src/src/mem/alloc/page.rs\<close>): what it answers lies in the remap window, at the remapped address of a
  block of frames that was free, and the pointer gives the block back.
\<close>

section \<open>Remapped addresses\<close>

lemma p2v_v2p:
  assumes "a < 2 ^ 46"
  shows "p2v (Addr a) = Inr (Addr (a + RANGE_start PhysicalRemapSpace))"
    "addr_new PhysicalRemapSpace (a + RANGE_start PhysicalRemapSpace) = Inr (Addr (a + RANGE_start PhysicalRemapSpace))"
    "v2p (Addr (a + RANGE_start PhysicalRemapSpace)) = Inr (Addr a)"
    "RANGE_contains PhysicalRemapSpace (a + RANGE_start PhysicalRemapSpace)"
  using assms
  by (simp_all add: p2v_def v2p_def RANGE_contains_def PhysicalRemapSpace_def UMASpace_def TiB_def usize_limit_def)

lemma page_allocate_via_range:
  "0 < l_size l \<Longrightarrow> page_allocate l pmm = rbind (page_allocate_range l pmm) (\<lambda>(o', pmm).
     case o' of None \<Rightarrow> Inr (None, pmm)
     | Some phy \<Rightarrow> rbind (p2v (ar_base phy)) (\<lambda>base. Inr (Some (usize base, ar_size phy), pmm)))"
  by (simp add: page_allocate_def allocate_if_zst_def)

lemma page_allocate_table_via_range:
  "page_allocate table_layout pmm = rbind (page_allocate_range table_layout pmm) (\<lambda>(o', pmm).
     case o' of None \<Rightarrow> Inr (None, pmm)
     | Some phy \<Rightarrow> rbind (p2v (ar_base phy)) (\<lambda>base. Inr (Some (usize base, ar_size phy), pmm)))"
  by (rule page_allocate_via_range) (simp add: table_layout_def)

text \<open>The virtual address of a frame, and the virtual addresses of a block of frames.\<close>

definition vptr :: "phy_record \<Rightarrow> nat \<Rightarrow> nat" where
  "vptr r x = usize (frame_addr r x) + RANGE_start PhysicalRemapSpace"

definition in_frames :: "phy_record \<Rightarrow> nat set \<Rightarrow> nat set" where
  "in_frames r X = {v. vptr r 0 \<le> v \<and> (v - vptr r 0) div 4096 \<in> X}"

lemma vptr_eq: "vptr r x = vptr r 0 + x * 4096"
  by (simp add: vptr_def frame_addr_def)

lemma vptr_pos: "0 < vptr r x"
  by (simp add: vptr_def PhysicalRemapSpace_def)

lemma vptr_base: "ph_base r' = ph_base r \<Longrightarrow> vptr r' = vptr r"
  by (simp add: vptr_def frame_addr_def fun_eq_iff)

lemma in_frames_base: "ph_base r' = ph_base r \<Longrightarrow> in_frames r' X = in_frames r X"
  using vptr_base [of r' r] by (simp add: in_frames_def)

lemma vptr_aligned: "phy_inv r \<Longrightarrow> 4096 dvd vptr r x"
proof -
  assume "phy_inv r"
  then have "4096 dvd usize (frame_addr r x)" by (simp add: phy_inv_def frame_addr_def)
  moreover have "4096 dvd RANGE_start PhysicalRemapSpace" by (simp add: PhysicalRemapSpace_def)
  ultimately show ?thesis unfolding vptr_def by (rule dvd_add)
qed

lemma vptr_inject: "vptr r x = vptr r y \<longleftrightarrow> x = y"
  using vptr_eq [of r x] vptr_eq [of r y] by simp

lemma in_frames_disjoint: "X \<inter> Y = {} \<Longrightarrow> in_frames r X \<inter> in_frames r Y = {}"
  by (auto simp: in_frames_def)

lemma in_frames_block:
  "in_frames r (block k i) = {vptr r (i * 2 ^ k) ..< vptr r (i * 2 ^ k) + 2 ^ k * 4096}"
proof -
  have "v \<in> in_frames r (block k i) \<longleftrightarrow> v \<in> {vptr r (i * 2 ^ k) ..< vptr r (i * 2 ^ k) + 2 ^ k * 4096}" for v
  proof (cases "vptr r 0 \<le> v")
    case True
    then obtain d where d: "v = vptr r 0 + d" using le_Suc_ex by blast
    have "d div 4096 \<in> block k i \<longleftrightarrow> i * 2 ^ k \<le> d div 4096 \<and> d div 4096 < i * 2 ^ k + 2 ^ k"
      by (auto simp: block_eq add.commute)
    also have "\<dots> \<longleftrightarrow> i * 2 ^ k * 4096 \<le> d \<and> d < (i * 2 ^ k + 2 ^ k) * 4096"
      by (simp only: less_eq_div_iff_mult_less_eq div_less_iff_less_mult zero_less_numeral)
    also have "\<dots> \<longleftrightarrow> v \<in> {vptr r 0 + i * 2 ^ k * 4096 ..< vptr r 0 + i * 2 ^ k * 4096 + 2 ^ k * 4096}"
      by (auto simp: d add_mult_distrib)
    finally show ?thesis unfolding vptr_eq [of r "i * 2 ^ k"] by (simp add: d in_frames_def)
  next
    case False
    then show ?thesis by (auto simp: in_frames_def vptr_eq [of r "i * 2 ^ k"])
  qed
  then show ?thesis by blast
qed

section \<open>Allocating and deallocating by pointer\<close>

lemma frame_addr_limit:
  assumes "phy_inv r" "x < length (ph_frames r)"
  shows "usize (frame_addr r x) < 2 ^ 46"
proof -
  have "usize (pa_base (ph_base r)) + length (ph_frames r) * 4096 < 2 ^ 46" using assms(1) by (simp add: phy_inv_def uma_end)
  moreover have "x * 4096 < length (ph_frames r) * 4096" using assms(2) by simp
  ultimately show ?thesis by (simp add: frame_addr_def)
qed

lemma page_allocate_ptr:
  assumes inv: "phy_inv r" and fit: "pages_fit r l"
  defines "k \<equiv> pow2_exp (layout_pages l)"
  shows "page_allocate l (Some r) = Inr (None, Some r) \<or>
    (\<exists>i r'. page_allocate l (Some r) = Inr (Some (vptr r (i * 2 ^ k), 2 ^ k * 4096), Some r') \<and>
      phy_inv r' \<and> bs_max_order (ph_buddy r') = bs_max_order (ph_buddy r) \<and> ph_base r' = ph_base r \<and>
      block k i \<subseteq> phy_free r \<and> phy_free r' = phy_free r - block k i \<and>
      phy_used r' k i \<and> (\<forall>k' j. phy_used r k' j \<longrightarrow> phy_used r' k' j))"
proof -
  have sz: "0 < l_size l" using fit by (simp add: pages_fit_def)
  have ptr: "p2v (frame_addr r x) = Inr (Addr (vptr r x))" if "x \<in> phy_free r" for x
  proof -
    have "x < length (ph_frames r)" using that inv by (auto simp: phy_inv_def phy_free_def)
    then show ?thesis using p2v_v2p(1) [OF frame_addr_limit [OF inv]] by (simp add: vptr_def)
  qed
  from page_allocate_law [OF inv fit, folded k_def] show ?thesis
  proof (elim disjE exE conjE)
    assume "page_allocate_range l (Some r) = Inr (None, Some r)"
    then show ?thesis by (simp add: page_allocate_via_range [OF sz])
  next
    fix i r'
    assume h: "page_allocate_range l (Some r) =
        Inr (Some \<lparr>ar_base = frame_addr r (i * 2 ^ k), ar_size = 2 ^ k * 4096\<rparr>, Some r')"
      "block k i \<subseteq> phy_free r"
    have "i * 2 ^ k \<in> phy_free r" using h(2) block_start [of i k] by blast
    then have "page_allocate l (Some r) = Inr (Some (vptr r (i * 2 ^ k), 2 ^ k * 4096), Some r')"
      by (simp add: page_allocate_via_range [OF sz] h(1) ptr)
    moreover assume "phy_inv r'" "bs_max_order (ph_buddy r') = bs_max_order (ph_buddy r)" "ph_base r' = ph_base r"
      "phy_free r' = phy_free r - block k i" "phy_used r' k i" "\<forall>k' j. phy_used r k' j \<longrightarrow> phy_used r' k' j"
    ultimately show ?thesis using h(2) by blast
  qed
qed

lemma page_deallocate_ptr:
  assumes inv: "phy_inv r" and fit: "pages_fit r l" and us: "phy_used r k i" and k: "k = pow2_exp (layout_pages l)"
  shows "\<exists>r'. page_deallocate (vptr r (i * 2 ^ k)) l (Some r) = Inr (Some r') \<and> phy_inv r' \<and>
    bs_max_order (ph_buddy r') = bs_max_order (ph_buddy r) \<and> ph_base r' = ph_base r \<and>
    phy_free r' = phy_free r \<union> block k i \<and>
    (\<forall>k' j. phy_used r k' j \<and> (k', j) \<noteq> (k, i) \<longrightarrow> phy_used r' k' j)"
proof -
  let ?x = "i * 2 ^ k" and ?n = "layout_pages l"
  have blk: "block k i \<subseteq> {..< length (ph_frames r)}" using us by (simp add: phy_used_def)
  have x: "?x < length (ph_frames r)" using blk block_start by fastforce
  note ptr = p2v_v2p [OF frame_addr_limit [OF inv x], folded vptr_def]
  have "?x + 2 ^ k \<le> length (ph_frames r)"
  proof -
    obtain m where m: "2 ^ k = Suc m" by (metis Suc_pred zero_less_numeral zero_less_power)
    have "?x + m \<in> block k i" by (auto simp: block_eq m)
    with blk m show ?thesis by auto
  qed
  then have "?x + ?n \<le> length (ph_frames r)" using pow2_exp_ge [of ?n] by (simp add: k)
  then have "(?x + ?n) * 4096 \<le> length (ph_frames r) * 4096" by simp
  then have "usize (frame_addr r ?x) + ?n * 4096 < RANGE_end UMASpace"
    using inv by (simp add: phy_inv_def frame_addr_def algebra_simps)
  moreover from this have "usize (frame_addr r ?x) + ?n * 4096 < usize_limit" "?n * 4096 < usize_limit"
    using uma_limits(1) by linarith+
  ultimately have rng: "addr_range_new UMASpace (frame_addr r ?x) (?n * 4096) =
      Inr \<lparr>ar_base = frame_addr r ?x, ar_size = ?n * 4096\<rparr>" and mul: "usize_mul ?n 4096 = Inr (?n * 4096)"
    by (simp_all add: addr_range_new_def)
  have "4096 dvd usize (frame_addr r ?x)" using inv by (simp add: frame_addr_def phy_inv_def)
  then have tr: "try_from_range \<lparr>ar_base = frame_addr r ?x, ar_size = ?n * 4096\<rparr> Small =
      Inr (Some (frame_range r ?x ?n))"
    using page_at_frame(2) [OF inv x]
    by (simp add: try_from_range_def is_aligned_to_def frame_range_def mod_eq_0_iff_dvd)
  obtain r' where r': "phy_deallocate_pages r (frame_range r ?x ?n) = Inr r'" "phy_inv r'"
    "bs_max_order (ph_buddy r') = bs_max_order (ph_buddy r)" "ph_base r' = ph_base r"
    "free_frames (ph_buddy r') = free_frames (ph_buddy r) \<union> block k i"
    "\<forall>k' j. phy_used r k' j \<and> (k', j) \<noteq> (k, i) \<longrightarrow> phy_used r' k' j"
    using phy_deallocate_law [OF inv us] by blast
  have "page_deallocate (vptr r ?x) l (Some r) = Inr (Some r')"
    using fit ptr r'(1)
    by (simp add: page_deallocate_def page_deallocate_range_def pages_fit_def page_cnt_ok [OF inv fit] mul rng tr
        pmm_deallocate_pages_def page_MIN_def)
  with r' show ?thesis by (auto simp: phy_free_def)
qed

text \<open>A layout for more pages than the largest block is refused.\<close>

lemma page_allocate_too_large:
  assumes inv: "phy_inv r" and wf: "layout_wf l" and l: "0 < l_size l" "l_align l dvd 4096" and no: "\<not> pages_fit r l"
  shows "page_allocate l (Some r) = Inr (None, Some r)"
proof -
  let ?n = "layout_pages l"
  have al: "0 < l_align l" using l(2) by (auto intro: gr0I)
  have "int (l_size l) < 2 ^ 63" using wf ceil_to_ge [of "l_size l" "l_align l"] by (simp add: layout_wf_def isize_limit_def)
  then have "l_size l < 2 ^ 63" by simp
  then have ceil: "ceil_to (l_size l) 4096 < 2 ^ 64" using ceil_to_less [of 4096 "l_size l"] by simp
  then have cnt: "page_cnt_of l = Inr ?n"
    by (simp add: page_cnt_of_def page_MIN_def next_multiple_of_ok layout_pages_def usize_limit_def)
  have "?n * 4096 < 2 ^ 52 * 4096" using ceil unfolding layout_pages_mult by simp
  then have n: "?n \<le> 2 ^ 52" by simp
  then have e: "pow2_exp ?n \<le> 52" by (simp add: pow2_exp_le_iff)
  then have "(2::nat) ^ pow2_exp ?n \<le> 2 ^ 52" by (rule power_increasing) simp
  then have p: "next_power_of_two ?n = Inr (2 ^ pow2_exp ?n)"
    by (intro next_power_of_two_ok) (simp add: usize_limit_def)
  have "bs_max_order (ph_buddy r) < pow2_exp ?n" using no l al by (simp add: pages_fit_def not_le)
  moreover have "usize_mul ?n 1 = Inr ?n" using n by (intro usize_mul_ok [THEN trans]) (simp_all add: usize_limit_def)
  moreover have "pow2_exp ?n mod 256 = pow2_exp ?n" using e by simp
  ultimately have "phy_allocate_pages r ?n Small = Inr (None, r)"
    using p by (simp add: phy_allocate_pages_def Let_def)
  moreover have "(4096::nat) mod l_align l = 0" using l(2) by simp
  ultimately have "page_allocate_range l (Some r) = Inr (None, Some r)"
    using l(1) al by (simp add: page_allocate_range_def cnt pmm_allocate_pages_def page_MIN_def)
  then show ?thesis by (simp add: page_allocate_via_range [OF l(1)])
qed

end
