(* ===== verification/Memory_Map.thy ===== *)
theory Memory_Map
  imports Page_Ptr
begin

text \<open>
  Memory maps as the kernel uses them (\<^verbatim>\<open>src/src/mem/paging.rs\<close>): \<^verbatim>\<open>map\<close> and \<^verbatim>\<open>translate\<close> with tables from
  the page allocator, and \<^verbatim>\<open>X86_64MemoryMap::new\<close> and \<^verbatim>\<open>drop\<close>, which take and give back pages.
\<close>

section \<open>Creating and dropping a map\<close>

text \<open>\<^verbatim>\<open>Allocator::allocate_zeroed\<close>: the memory of the slice is filled with zeros.\<close>

definition zero_fill :: "nat \<Rightarrow> nat \<Rightarrow> pmem \<Rightarrow> pmem" where
  "zero_fill base len m = (\<lambda>p. if base \<le> p \<and> p < base + len then 0 else m p)"

text \<open>The table a map's \<^verbatim>\<open>cr3\<close> refers to, \<^verbatim>\<open>Into<TableRef>\<close>.\<close>

definition map_table :: "paging \<Rightarrow> nat res" where
  "map_table s =
     rbind (entry_target CR3 (pg_cr3 s)) (\<lambda>t.
     case t of Table l a \<Rightarrow> rbind (p2v a) (\<lambda>_. Inr (usize a)) | _ \<Rightarrow> Inl UnreachableCode)"

text \<open>The entries 256 to 511 of one table are copied to another.\<close>

definition copy_kernel_half :: "nat \<Rightarrow> nat \<Rightarrow> pmem \<Rightarrow> pmem" where
  "copy_kernel_half src dst m =
     fold (\<lambda>i m'. put m' (dst + 8 * i) (m (src + 8 * i))) [256..<TABLE_LEN] m"

definition memory_map_new :: "paging \<Rightarrow> phy_record option \<Rightarrow> (paging \<times> phy_record option) res" where
  "memory_map_new cur pmm =
     rbind (page_allocate table_layout pmm) (\<lambda>(o', pmm).
     rbind (rexpect o') (\<lambda>(table_ptr, len).
     rbind (addr_new PhysicalRemapSpace table_ptr) (\<lambda>table_vaddr.
     rbind (v2p table_vaddr) (\<lambda>table_paddr.
     let m = zero_fill (usize table_paddr) len (pg_mem cur) in
     rbind (map_table (cur\<lparr>pg_mem := m\<rparr>)) (\<lambda>cur_table.
     let m = copy_kernel_half cur_table (usize table_paddr) m in
     rbind (reinit CR3 raw_default table_paddr []) (\<lambda>(ok, cr3).
     rbind (rexpect (if ok then Some cr3 else None)) (\<lambda>cr3.
     Inr (\<lparr>pg_cr3 = cr3, pg_mem = m\<rparr>, pmm))))))))"

lemma rfold_cong [fundef_cong]:
  "xs = ys \<Longrightarrow> s = t \<Longrightarrow> (\<And>x s. x \<in> set ys \<Longrightarrow> f x s = g x s) \<Longrightarrow> rfold f xs s = rfold g ys t"
proof (induction xs arbitrary: ys s t)
  case (Cons x xs)
  then have "f x t = g x t" "\<And>s. rfold f xs s = rfold g xs s" by (auto intro: Cons.IH)
  with Cons.prems(1,2) show ?case by (auto simp: rbind_def split: sum.split)
qed simp

text \<open>\<^verbatim>\<open>drop_entry_target\<close> on the entry at an address.\<close>

function drop_entry_target :: "pmem \<Rightarrow> level \<Rightarrow> nat \<Rightarrow> phy_record option \<Rightarrow> phy_record option res" where
  "drop_entry_target m l p pmm =
     rbind (entry_target l (m p)) (\<lambda>t.
     case t of
       Table n a \<Rightarrow>
         rbind (p2v a) (\<lambda>table_ptr.
         rbind (rfold (drop_entry_target m n) (entry_refs (usize a)) pmm) (\<lambda>pmm.
         page_deallocate (usize table_ptr) table_layout pmm))
     | _ \<Rightarrow> Inr pmm)"
  by pat_completeness auto
termination
proof (relation "measure (\<lambda>(m, l, p, pmm). height l)", simp)
  fix m l p pmm t n a v q and x :: "phy_record option"
  assume "entry_target l (m p) = Inr t" "t = Table n a"
  then have "height l = Suc (height n)" using entry_target_Table next_level_height by blast
  then show "((m, n, q, x), m, l, p, pmm) \<in> measure (\<lambda>(m, l, p, pmm). height l)" by simp
qed

declare drop_entry_target.simps [simp del]

definition memory_map_drop :: "paging \<Rightarrow> phy_record option \<Rightarrow> phy_record option res" where
  "memory_map_drop s pmm =
     rbind (map_table s) (\<lambda>pml4_table.
     rbind (rfold (drop_entry_target (pg_mem s) PML4) (take 256 (entry_refs pml4_table)) pmm) (\<lambda>pmm.
     rbind (p2v (Addr pml4_table)) (\<lambda>table_ptr. page_deallocate (usize table_ptr) table_layout pmm)))"

section \<open>Mapping and translating\<close>

text \<open>A map and the page allocator it takes tables from: the tables form a tree, and the memory the
  allocator has to give is not in use for tables and is zero.\<close>

definition map_ok :: "typing \<Rightarrow> nat \<Rightarrow> paging \<Rightarrow> phy_record option \<Rightarrow> bool" where
  "map_ok tys r s pmm \<longleftrightarrow> pt_inv tys r (pg_mem s) \<and> rooted s r \<and> pmm_ok pmm \<and> apart tys (pg_mem s) (pmm_spare pmm)"

lemma map_ok_mapped: "map_ok tys r s pmm \<longleftrightarrow> pages.mapped tys r s pmm"
  by (simp add: map_ok_def pages.mapped_def)

text \<open>An empty map with its root table at \<open>0x1000\<close>, and four free pages from \<open>0x200000\<close> on.\<close>

definition empty_map :: paging where
  "empty_map = \<lparr>pg_cr3 = 0x1000, pg_mem = (\<lambda>_. 0)\<rparr>"

lemma empty_map_ok: "map_ok [0x1000 \<mapsto> 0] 0x1000 empty_map (Some four_pages)"
proof -
  have "entry_target CR3 0x1000 = Inr (Table PML4 (Addr 0x1000))" by code_simp
  then have "rooted empty_map 0x1000" by (simp add: rooted_def empty_map_def)
  moreover have "pt_inv [0x1000 \<mapsto> 0] 0x1000 (pg_mem empty_map)"
    by (auto simp: pt_inv_def table_ok_def entry_ok_def unshared_def child_eq empty_map_def split: if_splits)
  moreover have "frame_bytes 0x1000 \<inter> pmm_spare (Some four_pages) = {}"
    by (auto simp: frame_bytes_def pmm_spare_def frame_addr_def four_pages_def)
  ultimately show ?thesis
    using four_pages_inv by (simp add: map_ok_def pmm_ok_def apart_def empty_map_def)
qed

text \<open>C7. \<^verbatim>\<open>translate\<close> answers what the page walk of the hardware finds: from the root table down, the page
  an entry refers to at the index of the address, or nothing.  It never panics and never reaches its
  \<^verbatim>\<open>unreachable!\<close>.\<close>

theorem translate_is_page_walk:
  assumes "map_ok tys r s pmm"
  shows "translate s v = Inr (lookup (pg_mem s) r v)"
  using assms by (auto simp: map_ok_def intro: translate_lookup)

corollary translate_is_page_walk_witness:
  "translate empty_map (Addr 0xFFFF888000000000) = Inr (lookup (pg_mem empty_map) 0x1000 (Addr 0xFFFF888000000000))"
  by (rule translate_is_page_walk [OF empty_map_ok])



section \<open>A new map\<close>

lemma copy_kernel_half_at:
  "copy_kernel_half src dst m p =
    (if \<exists>i. 256 \<le> i \<and> i < 512 \<and> p = dst + 8 * i then m (src + 8 * ((p - dst) div 8)) else m p)"
proof -
  have "copy_kernel_half src dst m p =
      (if \<exists>i \<in> set [256..<TABLE_LEN]. p = dst + 8 * i then m (src + 8 * ((p - dst) div 8)) else m p)"
    unfolding copy_kernel_half_def by (rule fold_put) (rule distinct_upt)
  moreover have "(\<exists>i \<in> set [256..<TABLE_LEN]. P i) \<longleftrightarrow> (\<exists>i. 256 \<le> i \<and> i < 512 \<and> P i)" for P
    unfolding set_upt TABLE_LEN_def TABLE_SIZE_def KiB_def by auto
  ultimately show ?thesis by simp
qed

lemma copy_kernel_half_frame:
  assumes "i < 512"
  shows "copy_kernel_half src dst m (dst + 8 * i) = (if 256 \<le> i then m (src + 8 * i) else m (dst + 8 * i))"
  using assms by (simp add: copy_kernel_half_at)

lemma copy_kernel_half_outside: "p \<notin> frame_bytes dst \<Longrightarrow> copy_kernel_half src dst m p = m p"
  by (auto simp: copy_kernel_half_at frame_bytes_def)

lemma zero_fill_spare: "apart tys m S \<Longrightarrow> frame_bytes a \<subseteq> S \<Longrightarrow> zero_fill a 4096 m = m"
  by (rule ext) (auto simp: zero_fill_def apart_def frame_bytes_def)

lemma reinit_cr3:
  assumes "4096 dvd a" "a < 2 ^ 46"
  shows "reinit CR3 raw (Addr a) [] = Inr (True, entry_word (Addr a) [])"
    "entry_target CR3 (entry_word (Addr a) []) = Inr (Table PML4 (Addr a))"
  using assms reinit_ok [of CR3 "[]" "Addr a" raw] entry_word_target [of CR3 "[]" "Addr a"]
  by (simp_all add: flags_ok_def points_to_page_def entry_align_def made_target_def)

lemma map_table_rooted: "rooted s r \<Longrightarrow> r < 2 ^ 46 \<Longrightarrow> map_table s = Inr r"
  by (simp add: map_table_def rooted_def p2v_v2p)

lemma apart_same:
  assumes "apart tys m S" "S' \<subseteq> S" "\<And>p. p \<in> S' \<Longrightarrow> m' p = m p"
  shows "apart tys m' S'"
proof -
  have "m' p = 0" if "p \<in> S'" for p using assms that unfolding apart_def by auto
  moreover have "frame_bytes f \<inter> S' = {}" if "tys f = Some d" for f d
    using assms(1,2) that unfolding apart_def by blast
  ultimately show ?thesis by (simp add: apart_def)
qed

text \<open>What the new table makes of memory, for the map it was made from and for the new one.\<close>

lemma new_table:
  assumes inv: "pt_inv tys r m" and ap: "apart tys m S" and a: "frame_bytes a \<subseteq> S - S'" "4096 dvd a" "a < 2 ^ 46"
    and S: "S' \<subseteq> S"
  defines "m' \<equiv> copy_kernel_half r a m"
  shows "same_tables tys m m'" "pt_inv (tys(r := None, a \<mapsto> 0)) a m'"
    "apart tys m' S'" "apart (tys(r := None, a \<mapsto> 0)) m' S'"
    "lookup m' a v = (if 256 \<le> vidx 0 v then lookup m r v else None)"
proof -
  have fresh: "fresh_table tys m a" by (rule apart_fresh [OF ap _ a(2,3)]) (use a(1) in blast)
  then have ta: "tys a = None" and z: "\<And>i. i < 512 \<Longrightarrow> m (a + 8 * i) = 0" by (simp_all add: fresh_table_def)
  have out: "f + 8 * i \<notin> frame_bytes a" if "tys f = Some d" "i < 512" for f d i
    using apartD [OF ap that] a(1) by blast
  show same: "same_tables tys m m'"
    unfolding same_tables_def m'_def using out copy_kernel_half_outside by blast
  have ent: "m' (a + 8 * i) = (if 256 \<le> i then m (r + 8 * i) else 0)" if "i < 512" for i
    unfolding m'_def copy_kernel_half_frame [OF that] using z [OF that] by simp
  show "pt_inv (tys(r := None, a \<mapsto> 0)) a m'"
    by (rule pt_inv_reroot [OF inv ta a(2,3) same]) (use ent in auto)
  show ap': "apart tys m' S'"
  proof (rule apart_same [OF ap S])
    fix p assume "p \<in> S'"
    then show "m' p = m p" unfolding m'_def using a(1) by (intro copy_kernel_half_outside) blast
  qed
  then have "apart (tys(r := None)) m' S'" by (simp add: apart_def)
  then show "apart (tys(r := None, a \<mapsto> 0)) m' S'" using a(1) by (intro apart_new) blast+
  have r: "tys r = Some 0" by (rule pt_inv_root [OF inv])
  have t: "target_at m' 0 a v = (if 256 \<le> vidx 0 v then target_at m 0 r v else Inr NoTarget)"
    by (simp add: target_at_vidx ent del: lv.simps)
  have ty: "tys (usize b) = Some (Suc 0)" if "target_at m 0 r v = Inr (Table l b)" for l b
    using pt_invD(5) [OF inv r vidx_less [of 0 v], of "usize b"] that by (simp add: child_def target_at_vidx)
  have "walk m' (Suc n) 0 a v = (if 256 \<le> vidx 0 v then walk m (Suc n) 0 r v else None)" for n
    using ty walk_same [OF inv same] by (simp add: t split: sum.split entry_target.split)
  from this [of 3] show "lookup m' a v = (if 256 \<le> vidx 0 v then lookup m r v else None)"
    by (simp add: lookup_def)
qed



end
