(* ===== verification/Slab.thy ===== *)
theory Slab
  imports Page_Ptr
begin

text \<open>
  The slab allocator of \<^verbatim>\<open>src/src/mem/alloc/slab.rs\<close>.

  A slab is a page with a bitmap of free slots, a count of free slots and a buffer of slots of one
  size; a cache keeps the slabs of one slot size in three lists.  The slabs live in memory and are
  found again from the address of an object, so the model keeps them in a store from addresses to
  slabs.  The contents of the slots are not modelled.

  The lists are those of the crate \<^verbatim>\<open>intrusive_collections\<close>, which is a parameter: the operations
  that the allocator calls, and the sizes of the two library types that the layout of a slab depends
  on.  A cursor into a list is the element it points to, or nothing for the null object.
\<close>

section \<open>The library\<close>

record 'l slab_lib =
  link_size :: nat                                     \<comment> \<open>size of \<^verbatim>\<open>linked_list::Link\<close>\<close>
  mutex_size :: nat                                    \<comment> \<open>size of \<^verbatim>\<open>spin::Mutex<()>\<close>\<close>
  ll_new :: 'l
  ll_front_mut :: "'l \<Rightarrow> nat option"
  ll_insert_after :: "nat option \<Rightarrow> nat \<Rightarrow> 'l \<Rightarrow> 'l"
  ll_move_next :: "nat option \<Rightarrow> 'l \<Rightarrow> nat option"
  ll_remove :: "nat option \<Rightarrow> 'l \<Rightarrow> nat option \<times> 'l"
  ll_push_front :: "nat \<Rightarrow> 'l \<Rightarrow> 'l"

section \<open>Layout of a slab\<close>

definition MAX_ORDER :: nat where "MAX_ORDER = 10"
definition MAX_SIZE :: nat where "MAX_SIZE = 2 ^ MAX_ORDER"
definition MIN_ORDER :: nat where "MIN_ORDER = 3"
definition CACHES_CNT :: nat where "CACHES_CNT = MAX_ORDER - MIN_ORDER + 1"

definition SLAB_PAGE :: page_size where "SLAB_PAGE = Small"
definition SLAB_MAP_LEN :: nat where "SLAB_MAP_LEN = 8"

definition SLAB_BUF_SIZE :: "('l, 'm) slab_lib_scheme \<Rightarrow> nat" where
  "SLAB_BUF_SIZE L = page_usize SLAB_PAGE - mutex_size L - 2 - link_size L - SLAB_MAP_LEN * 8"

text \<open>\<^verbatim>\<open>UntypedSlab\<close> is \<^verbatim>\<open>repr(C)\<close>: the link, the bitmap, the count and the buffer in this order, each
  at the next multiple of its alignment.  The link and the bitmap are aligned to 8.\<close>

definition buf_start :: "('l, 'm) slab_lib_scheme \<Rightarrow> nat" where
  "buf_start L = ceil_to (link_size L) 8 + SLAB_MAP_LEN * 8 + 2"

definition slab_layout :: "('l, 'm) slab_lib_scheme \<Rightarrow> layout" where
  "slab_layout L = \<lparr>l_size = ceil_to (buf_start L + SLAB_BUF_SIZE L) 8, l_align = 8\<rparr>"

text \<open>The constants of \<^verbatim>\<open>Slab<[u8; N]>\<close>.\<close>

definition item_layout :: "nat \<Rightarrow> layout" where
  "item_layout N = \<lparr>l_size = N, l_align = N\<rparr>"

definition SLOT_ALIGN :: "nat \<Rightarrow> nat" where
  "SLOT_ALIGN N = l_align (item_layout N)"

definition SLOT_SIZE :: "nat \<Rightarrow> nat" where
  "SLOT_SIZE N = l_size (pad_to_align (item_layout N))"

definition SLOTS_START :: "('l, 'm) slab_lib_scheme \<Rightarrow> nat \<Rightarrow> nat" where
  "SLOTS_START L N = ceil_to (buf_start L) (SLOT_ALIGN N) - buf_start L"

definition SLOTS_LEN :: "('l, 'm) slab_lib_scheme \<Rightarrow> nat \<Rightarrow> nat" where
  "SLOTS_LEN L N = (SLAB_BUF_SIZE L - SLOTS_START L N) div SLOT_SIZE N"

section \<open>Slabs\<close>

record slab =
  sl_bitmap :: "64 word list"
  sl_free_cnt :: nat

definition untyped_slab_new :: "nat \<Rightarrow> slab" where
  "untyped_slab_new free_cnt = \<lparr>sl_bitmap = replicate SLAB_MAP_LEN (- 1), sl_free_cnt = free_cnt\<rparr>"

definition slab_new :: "('l, 'm) slab_lib_scheme \<Rightarrow> nat \<Rightarrow> slab" where
  "slab_new L N = untyped_slab_new (SLOTS_LEN L N mod 2 ^ 16)"

text \<open>The bits of the bitmap, lowest bit of the first word first, up to the number of slots.\<close>

definition slab_map :: "('l, 'm) slab_lib_scheme \<Rightarrow> nat \<Rightarrow> slab \<Rightarrow> bool list res" where
  "slab_map L N s =
     (if SLOTS_LEN L N \<le> 64 * length (sl_bitmap s)
      then Inr (map (view_bit (sl_bitmap s)) [0..<SLOTS_LEN L N]) else Inl IndexOutOfBounds)"

definition first_one :: "bool list \<Rightarrow> nat option" where
  "first_one bs = find (\<lambda>i. bs ! i) [0..<length bs]"

text \<open>The slice \<^verbatim>\<open>slots\<close> of the slab at an address: where it starts, and an element of it.  Its length
  is the size of a slot.\<close>

definition slots_base :: "('l, 'm) slab_lib_scheme \<Rightarrow> nat \<Rightarrow> nat \<Rightarrow> nat" where
  "slots_base L N a = a + buf_start L + SLOTS_START L N"

definition slots_index :: "('l, 'm) slab_lib_scheme \<Rightarrow> nat \<Rightarrow> nat \<Rightarrow> nat \<Rightarrow> nat res" where
  "slots_index L N a idx =
     (if idx < SLOT_SIZE N then Inr (slots_base L N a + idx * N) else Inl IndexOutOfBounds)"

text \<open>The second pattern of the match in the source is the bare name \<^verbatim>\<open>SLOTS_LEN\<close>.  The constant is
  \<^verbatim>\<open>Self::SLOTS_LEN\<close>, so the bare name is a new variable, which matches every count but 0: \<open>Partial\<close> is
  never the result.\<close>

datatype slab_fill_level = Empty | Partial | Full

definition fill_level :: "slab \<Rightarrow> slab_fill_level" where
  "fill_level s = (case sl_free_cnt s of 0 \<Rightarrow> Empty | Suc _ \<Rightarrow> Full)"

definition slab_is_empty :: "slab \<Rightarrow> bool" where
  "slab_is_empty s \<longleftrightarrow> fill_level s = Empty"

definition slab_is_full :: "slab \<Rightarrow> bool" where
  "slab_is_full s \<longleftrightarrow> fill_level s = Full"

definition slab_reserve ::
  "('l, 'm) slab_lib_scheme \<Rightarrow> nat \<Rightarrow> nat \<Rightarrow> slab \<Rightarrow> (nat option \<times> slab) res" where
  "slab_reserve L N a s =
     (if sl_free_cnt s = 0 then Inr (None, s)
      else
        rbind (slab_map L N s) (\<lambda>m.
        rbind (rexpect (first_one m)) (\<lambda>idx.
        rbind (rassert (idx < SLOTS_LEN L N)) (\<lambda>_.
        let s = s\<lparr>sl_bitmap := view_set (sl_bitmap s) idx False\<rparr> in
        rbind (usize_sub (sl_free_cnt s) 1) (\<lambda>n.
        let s = s\<lparr>sl_free_cnt := n\<rparr> in
        rbind (slots_index L N a idx) (\<lambda>p. Inr (if p = 0 then None else Some p, s)))))))"

text \<open>\<^verbatim>\<open>offset_from\<close> is a signed number of slots, which the cast to \<^verbatim>\<open>usize\<close> wraps.\<close>

definition slab_free ::
  "('l, 'm) slab_lib_scheme \<Rightarrow> nat \<Rightarrow> nat \<Rightarrow> nat \<Rightarrow> slab \<Rightarrow> slab res" where
  "slab_free L N a p s =
     rbind (rassert (0 < sl_free_cnt s)) (\<lambda>_.
     rbind (rassert (a + buf_start L \<le> p \<and> p < a + buf_start L + SLAB_BUF_SIZE L)) (\<lambda>_.
     let idx = usize_of ((int p - int (slots_base L N a)) div int N) in
     rbind (slab_map L N s) (\<lambda>m.
     rbind (if idx < length m then Inr (m ! idx) else Inl IndexOutOfBounds) (\<lambda>b.
     rbind (rassert (\<not> b)) (\<lambda>_.
     let s = s\<lparr>sl_bitmap := view_set (sl_bitmap s) idx True\<rparr> in
     rbind (u16_add (sl_free_cnt s) 1) (\<lambda>n. Inr (s\<lparr>sl_free_cnt := n\<rparr>)))))))"

definition from_elem_ptr :: "nat \<Rightarrow> nat" where
  "from_elem_ptr p = p - p mod page_align SLAB_PAGE"

section \<open>Caches\<close>

record 'l cache =
  empty_slabs :: 'l
  partial_slabs :: 'l
  full_slabs :: 'l

definition untyped_cache_new :: "('l, 'm) slab_lib_scheme \<Rightarrow> 'l cache" where
  "untyped_cache_new L = \<lparr>empty_slabs = ll_new L, partial_slabs = ll_new L, full_slabs = ll_new L\<rparr>"

text \<open>Which list of the cache a cursor or a reference is to.\<close>

datatype slab_list = EmptySlabs | PartialSlabs | FullSlabs

fun the_list :: "slab_list \<Rightarrow> 'l cache \<Rightarrow> 'l" where
  "the_list EmptySlabs c = empty_slabs c"
| "the_list PartialSlabs c = partial_slabs c"
| "the_list FullSlabs c = full_slabs c"

fun set_list :: "slab_list \<Rightarrow> 'l \<Rightarrow> 'l cache \<Rightarrow> 'l cache" where
  "set_list EmptySlabs x c = c\<lparr>empty_slabs := x\<rparr>"
| "set_list PartialSlabs x c = c\<lparr>partial_slabs := x\<rparr>"
| "set_list FullSlabs x c = c\<lparr>full_slabs := x\<rparr>"

text \<open>The slabs in memory and the page allocator.\<close>

record slab_mem =
  sm_slabs :: "nat \<Rightarrow> slab"
  sm_pmm :: "phy_record option"

definition put_slab :: "nat \<Rightarrow> slab \<Rightarrow> slab_mem \<Rightarrow> slab_mem" where
  "put_slab a s m = m\<lparr>sm_slabs := (sm_slabs m)(a := s)\<rparr>"

text \<open>The first part of \<^verbatim>\<open>Cache::reserve\<close>: a cursor to a slab that is not full, if need be a new one.
  The outer \<open>None\<close> is the early return.\<close>

definition slab_cursor ::
  "('l, 'm) slab_lib_scheme \<Rightarrow> nat \<Rightarrow> 'l cache \<Rightarrow> slab_mem \<Rightarrow>
     ((slab_list \<times> nat option) option \<times> 'l cache \<times> slab_mem) res" where
  "slab_cursor L N c m =
     (case ll_front_mut L (partial_slabs c) of
        Some a \<Rightarrow> Inr (Some (PartialSlabs, Some a), c, m)
      | None \<Rightarrow>
        (case ll_front_mut L (empty_slabs c) of
           Some a \<Rightarrow> Inr (Some (EmptySlabs, Some a), c, m)
         | None \<Rightarrow>
           rbind (page_allocate (slab_layout L) (sm_pmm m)) (\<lambda>(box_slab, pmm).
           let m = m\<lparr>sm_pmm := pmm\<rparr> in
           case box_slab of None \<Rightarrow> Inr (None, c, m)
           | Some (a, _) \<Rightarrow>
             let m = put_slab a (slab_new L N) m;
                 l = ll_insert_after L None a (empty_slabs c)
             in Inr (Some (EmptySlabs, ll_move_next L None l), c\<lparr>empty_slabs := l\<rparr>, m))))"

text \<open>Taking the slab at a cursor out of one list and putting it at the front of another.\<close>

definition move_slab ::
  "('l, 'm) slab_lib_scheme \<Rightarrow> slab_list \<Rightarrow> nat \<Rightarrow> slab_list \<Rightarrow> 'l cache \<Rightarrow> 'l cache res" where
  "move_slab L src a dst c =
     (case ll_remove L (Some a) (the_list src c) of
        (None, _) \<Rightarrow> Inl AssertFailed
      | (Some x, l) \<Rightarrow>
        let c = set_list src l c in Inr (set_list dst (ll_push_front L x (the_list dst c)) c))"

definition cache_reserve ::
  "('l, 'm) slab_lib_scheme \<Rightarrow> nat \<Rightarrow> 'l cache \<Rightarrow> slab_mem \<Rightarrow> (nat option \<times> 'l cache \<times> slab_mem) res" where
  "cache_reserve L N c m =
     rbind (slab_cursor L N c m) (\<lambda>(cur, c, m).
     case cur of None \<Rightarrow> Inr (None, c, m)
     | Some (src, None) \<Rightarrow> Inl AssertFailed
     | Some (src, Some a) \<Rightarrow>
       let was_empty = slab_is_empty (sm_slabs m a) in
       rbind (slab_reserve L N a (sm_slabs m a)) (\<lambda>(ret, s).
       let m = put_slab a s m; is_full = slab_is_full s in
       if \<not> was_empty \<and> \<not> is_full then Inr (ret, c, m)
       else
         rbind (move_slab L src a (if is_full then FullSlabs else PartialSlabs) c) (\<lambda>c.
         Inr (ret, c, m))))"

definition cache_free ::
  "('l, 'm) slab_lib_scheme \<Rightarrow> nat \<Rightarrow> nat \<Rightarrow> 'l cache \<Rightarrow> slab_mem \<Rightarrow> ('l cache \<times> slab_mem) res" where
  "cache_free L N p c m =
     (let a = from_elem_ptr p; was_full = slab_is_full (sm_slabs m a) in
     rbind (slab_free L N a p (sm_slabs m a)) (\<lambda>s.
     let m = put_slab a s m; is_empty = slab_is_empty s in
     if \<not> is_empty \<and> \<not> was_full then Inr (c, m)
     else
       rbind (move_slab L (if was_full then FullSlabs else PartialSlabs) a
                (if is_empty then EmptySlabs else PartialSlabs) c) (\<lambda>c.
       Inr (c, m))))"

definition cache_reserve_untyped ::
  "('l, 'm) slab_lib_scheme \<Rightarrow> nat \<Rightarrow> 'l cache \<Rightarrow> slab_mem \<Rightarrow> ((nat \<times> nat) option \<times> 'l cache \<times> slab_mem) res" where
  "cache_reserve_untyped L N c m =
     rbind (cache_reserve L N c m) (\<lambda>(ptr, c, m).
     Inr (map_option (\<lambda>p. (p, l_size (item_layout N))) ptr, c, m))"

section \<open>The allocator\<close>

record 'l heap =
  hp_caches :: "'l cache list"
  hp_mem :: slab_mem

definition slab_record_new :: "('l, 'm) slab_lib_scheme \<Rightarrow> slab_mem \<Rightarrow> 'l heap" where
  "slab_record_new L m = \<lparr>hp_caches = map (\<lambda>_. untyped_cache_new L) [0..<CACHES_CNT], hp_mem = m\<rparr>"

definition slot_order :: "layout \<Rightarrow> nat res" where
  "slot_order l =
     rbind (usize_shl 1 MIN_ORDER) (\<lambda>step.
     rbind (next_multiple_of (l_size (pad_to_align l)) step) (\<lambda>n.
     rbind (next_power_of_two n) (\<lambda>p.
     rbind (ilog2 p) (\<lambda>k. Inr (k mod 256)))))"

definition cache_index :: "nat \<Rightarrow> 'l heap \<Rightarrow> (nat \<times> 'l cache) res" where
  "cache_index order h =
     rbind (u8_sub order MIN_ORDER) (\<lambda>i.
     if i < length (hp_caches h) then Inr (i, hp_caches h ! i) else Inl IndexOutOfBounds)"

definition slab_allocate ::
  "('l, 'm) slab_lib_scheme \<Rightarrow> layout \<Rightarrow> 'l heap \<Rightarrow> ((nat \<times> nat) option \<times> 'l heap) res" where
  "slab_allocate L l h =
     (case allocate_if_zst l of Some ptr \<Rightarrow> Inr (Some ptr, h)
      | None \<Rightarrow>
        rbind (slot_order l) (\<lambda>order.
        rbind (cache_index order h) (\<lambda>(i, c).
        if order < MIN_ORDER then Inl UnreachableCode
        else if order \<le> MAX_ORDER then
          rbind (cache_reserve_untyped L (2 ^ order) c (hp_mem h)) (\<lambda>(ptr, c, m).
          Inr (ptr, h\<lparr>hp_caches := (hp_caches h)[i := c], hp_mem := m\<rparr>))
        else Inr (None, h))))"

definition slab_deallocate ::
  "('l, 'm) slab_lib_scheme \<Rightarrow> nat \<Rightarrow> layout \<Rightarrow> 'l heap \<Rightarrow> 'l heap res" where
  "slab_deallocate L p l h =
     (if deallocate_if_zst p l then Inr h
      else
        rbind (slot_order l) (\<lambda>order.
        rbind (cache_index order h) (\<lambda>(i, c).
        if order < MIN_ORDER then Inl UnreachableCode
        else if order \<le> MAX_ORDER then
          rbind (cache_free L (2 ^ order) p c (hp_mem h)) (\<lambda>(c, m).
          Inr (h\<lparr>hp_caches := (hp_caches h)[i := c], hp_mem := m\<rparr>))
        else Inl UnreachableCode)))"

section \<open>The contract of the library\<close>

text \<open>The documented behaviour of the list operations, on the elements of a list from front to back: a
  cursor at the null object inserts at the front and moves to the front.  The link is a multiple of 8
  bytes, and neither it nor the mutex is larger than 64 bytes.\<close>

locale slab_library =
  fixes L :: "'l slab_lib" and elems :: "'l \<Rightarrow> nat list"
  assumes link_ok: "8 dvd link_size L" "link_size L \<le> 64"
    and mutex_ok: "mutex_size L \<le> 64"
    and elems_new: "elems (ll_new L) = []"
    and front_mut_law: "ll_front_mut L l = (case elems l of [] \<Rightarrow> None | x # _ \<Rightarrow> Some x)"
    and insert_after_law: "elems (ll_insert_after L None x l) = x # elems l"
    and move_next_law: "ll_move_next L None l = (case elems l of [] \<Rightarrow> None | x # _ \<Rightarrow> Some x)"
    and remove_law: "x \<in> set (elems l) \<Longrightarrow>
      \<exists>l'. ll_remove L (Some x) l = (Some x, l') \<and> elems l' = remove1 x (elems l)"
    and push_front_law: "elems (ll_push_front L x l) = x # elems l"

text \<open>Lists of addresses are a model of the library; the sizes are those of the crates.\<close>

definition plain_lib :: "nat list slab_lib" where
  "plain_lib = \<lparr>link_size = 16, mutex_size = 1, ll_new = [],
     ll_front_mut = (\<lambda>l. case l of [] \<Rightarrow> None | x # _ \<Rightarrow> Some x),
     ll_insert_after = (\<lambda>c x l. case c of None \<Rightarrow> x # l
       | Some y \<Rightarrow> takeWhile (\<lambda>z. z \<noteq> y) l @ y # x # drop 1 (dropWhile (\<lambda>z. z \<noteq> y) l)),
     ll_move_next = (\<lambda>c l. case (case c of None \<Rightarrow> l | Some y \<Rightarrow> drop 1 (dropWhile (\<lambda>z. z \<noteq> y) l)) of
       [] \<Rightarrow> None | x # _ \<Rightarrow> Some x),
     ll_remove = (\<lambda>c l. case c of None \<Rightarrow> (None, l)
       | Some y \<Rightarrow> if y \<in> set l then (Some y, remove1 y l) else (None, l)),
     ll_push_front = (\<lambda>x l. x # l)\<rparr>"

interpretation plain: slab_library plain_lib "\<lambda>l. l"
  by unfold_locales (simp_all add: plain_lib_def)

section \<open>Slots\<close>

definition slot_size_ok :: "nat \<Rightarrow> bool" where
  "slot_size_ok N \<longleftrightarrow> (\<exists>k. 3 \<le> k \<and> k \<le> 10 \<and> N = 2 ^ k)"

text \<open>Where the slots start in a slab.\<close>

definition slots_offset :: "('l, 'm) slab_lib_scheme \<Rightarrow> nat \<Rightarrow> nat" where
  "slots_offset L N = ceil_to (buf_start L) N"

lemma slot_size_bounds:
  assumes "slot_size_ok N"
  shows "8 \<le> N" "N \<le> 1024" "0 < N"
proof -
  obtain k where k: "3 \<le> k" "k \<le> 10" "N = 2 ^ k" using assms by (auto simp: slot_size_ok_def)
  have "(2::nat) ^ 3 \<le> 2 ^ k" "(2::nat) ^ k \<le> 2 ^ 10" using k by (simp_all only: power_increasing one_le_numeral)
  then show "8 \<le> N" "N \<le> 1024" "0 < N" using k(3) by simp_all
qed

lemma slot_consts [simp]: "SLOT_ALIGN N = N" "SLOT_SIZE N = N"
  by (simp_all add: SLOT_ALIGN_def SLOT_SIZE_def item_layout_def pad_to_align_def ceil_to_def)

lemma slab_page_usize [simp]: "page_usize SLAB_PAGE = 4096"
  by (simp add: SLAB_PAGE_def)

context slab_library
begin

lemma buf_start_eq: "buf_start L = link_size L + 66"
proof -
  have "link_size L mod 8 = 0" using link_ok(1) by presburger
  then show ?thesis by (simp add: buf_start_def SLAB_MAP_LEN_def ceil_to_def)
qed

lemma slots_offset_bounds:
  assumes "slot_size_ok N"
  shows "buf_start L \<le> slots_offset L N" "slots_offset L N \<le> 1024" "N dvd slots_offset L N"
proof -
  note N = slot_size_bounds [OF assms]
  show "buf_start L \<le> slots_offset L N" by (simp add: slots_offset_def ceil_to_ge)
  show "N dvd slots_offset L N" using N by (simp add: slots_offset_def ceil_to_multiple)
  show "slots_offset L N \<le> 1024"
  proof (cases "N \<le> 128")
    case True
    then show ?thesis using ceil_to_less [OF N(3), of "buf_start L"] link_ok(2) by (simp add: slots_offset_def buf_start_eq)
  next
    case False
    then have "ceil_to (buf_start L) N \<le> N \<or> N < 130 \<and> 128 < N" using ceil_to_least [OF N(3) dvd_refl, of "buf_start L"] link_ok(2)
      by (cases "buf_start L \<le> N") (auto simp: buf_start_eq)
    moreover have "\<not> (N < 130 \<and> 128 < N)"
    proof
      assume "N < 130 \<and> 128 < N"
      then have "N = 129" by simp
      moreover have "even N" using assms by (auto simp: slot_size_ok_def)
      ultimately show False by simp
    qed
    ultimately show ?thesis using N(2) by (simp add: slots_offset_def)
  qed
qed

lemma slots_base_eq: "slot_size_ok N \<Longrightarrow> slots_base L N a = a + slots_offset L N"
  using slots_offset_bounds(1) [of N] by (simp add: slots_base_def SLOTS_START_def slots_offset_def)

lemma slots_len_eq: "slot_size_ok N \<Longrightarrow> SLOTS_LEN L N = (4096 - mutex_size L - slots_offset L N) div N"
  using slots_offset_bounds [of N] buf_start_eq
  by (simp add: SLOTS_LEN_def SLAB_BUF_SIZE_def SLOTS_START_def slots_offset_def SLAB_PAGE_def SLAB_MAP_LEN_def)

lemma slots_len_bounds:
  assumes "slot_size_ok N"
  shows "2 \<le> SLOTS_LEN L N" "SLOTS_LEN L N \<le> 512" "slots_offset L N + SLOTS_LEN L N * N \<le> 4096 - mutex_size L"
proof -
  note N = slot_size_bounds [OF assms] and off = slots_offset_bounds [OF assms]
  have "2 * N \<le> 4096 - mutex_size L - slots_offset L N" using N(2) off(2) mutex_ok by linarith
  then show "2 \<le> SLOTS_LEN L N" using N(3) by (simp add: slots_len_eq [OF assms] less_eq_div_iff_mult_less_eq)
  have "(4096 - mutex_size L - slots_offset L N) div N * N \<le> 4096 - mutex_size L - slots_offset L N" by (rule div_times_less_eq_dividend)
  then have "SLOTS_LEN L N * N \<le> 4096 - mutex_size L - slots_offset L N" by (simp only: slots_len_eq [OF assms])
  then show "slots_offset L N + SLOTS_LEN L N * N \<le> 4096 - mutex_size L"
    using off(2) mutex_ok by linarith
  then have "SLOTS_LEN L N * N \<le> 4096" by simp
  moreover have "SLOTS_LEN L N * 8 \<le> SLOTS_LEN L N * N" using N(1) by simp
  ultimately show "SLOTS_LEN L N \<le> 512" by linarith
qed

lemma buf_end: "buf_start L + SLAB_BUF_SIZE L = 4096 - mutex_size L"
  using link_ok mutex_ok by (simp add: SLAB_BUF_SIZE_def buf_start_eq SLAB_PAGE_def SLAB_MAP_LEN_def)

end

section \<open>Slab operations\<close>

lemma first_one_Some_iff: "first_one (map f [0..<n]) = Some i \<longleftrightarrow> i < n \<and> f i \<and> (\<forall>j<i. \<not> f j)"
  by (auto simp: first_one_def find_Some_iff intro!: exI [of _ i])

lemma first_one_None_iff: "first_one (map f [0..<n]) = None \<longleftrightarrow> (\<forall>i<n. \<not> f i)"
  by (auto simp: first_one_def find_None_iff)

text \<open>The free slots of a slab, and a slab whose count is their number.\<close>

definition free_slots :: "('l, 'm) slab_lib_scheme \<Rightarrow> nat \<Rightarrow> slab \<Rightarrow> nat set" where
  "free_slots L N s = {i. i < SLOTS_LEN L N \<and> view_bit (sl_bitmap s) i}"

definition slab_wf :: "('l, 'm) slab_lib_scheme \<Rightarrow> nat \<Rightarrow> slab \<Rightarrow> bool" where
  "slab_wf L N s \<longleftrightarrow> length (sl_bitmap s) = SLAB_MAP_LEN \<and> sl_free_cnt s = card (free_slots L N s)"

definition slot_ptr :: "('l, 'm) slab_lib_scheme \<Rightarrow> nat \<Rightarrow> nat \<Rightarrow> nat \<Rightarrow> nat" where
  "slot_ptr L N a i = a + slots_offset L N + i * N"

definition take_slot :: "slab \<Rightarrow> nat \<Rightarrow> slab" where
  "take_slot s i = s\<lparr>sl_bitmap := view_set (sl_bitmap s) i False, sl_free_cnt := sl_free_cnt s - 1\<rparr>"

lemma take_slot_sel [simp]:
  "sl_bitmap (take_slot s i) = view_set (sl_bitmap s) i False"
  "sl_free_cnt (take_slot s i) = sl_free_cnt s - 1"
  "take_slot s i\<lparr>sl_bitmap := sl_bitmap s, sl_free_cnt := sl_free_cnt s\<rparr> = s"
  by (simp_all add: take_slot_def)

lemma finite_free_slots [simp]: "finite (free_slots L N s)"
  by (simp add: free_slots_def)

context slab_library
begin

lemma slab_map_ok:
  assumes "slot_size_ok N" "length (sl_bitmap s) = SLAB_MAP_LEN"
  shows "slab_map L N s = Inr (map (view_bit (sl_bitmap s)) [0..<SLOTS_LEN L N])"
  using slots_len_bounds(2) [OF assms(1)] assms(2) by (simp add: slab_map_def SLAB_MAP_LEN_def)

lemma slot_in_page:
  assumes "slot_size_ok N" "i < SLOTS_LEN L N"
  shows "a + buf_start L \<le> slot_ptr L N a i" "slot_ptr L N a i + N \<le> a + (4096 - mutex_size L)"
proof -
  have "(i + 1) * N \<le> SLOTS_LEN L N * N" using assms(2) by (intro mult_le_mono1) simp
  then show "slot_ptr L N a i + N \<le> a + (4096 - mutex_size L)"
    using slots_len_bounds(3) [OF assms(1)] by (simp add: slot_ptr_def)
  show "a + buf_start L \<le> slot_ptr L N a i"
    using slots_offset_bounds(1) [OF assms(1)] by (simp add: slot_ptr_def)
qed

lemma slot_elem_ptr:
  assumes "slot_size_ok N" "i < SLOTS_LEN L N" "4096 dvd a"
  shows "from_elem_ptr (slot_ptr L N a i) = a"
proof -
  obtain d where d: "slot_ptr L N a i = a + d" "d < 4096"
    using slot_in_page [OF assms(1,2), of a] slot_size_bounds [OF assms(1)]
    by (intro that [of "slot_ptr L N a i - a"]) linarith+
  moreover have "(a + d) mod 4096 = d" using assms(3) d(2) by (simp add: mod_add_left_eq [symmetric])
  ultimately show ?thesis by (simp add: from_elem_ptr_def)
qed

lemma slab_reserve_slot:
  assumes "slot_size_ok N" "slab_wf L N s" "i \<in> free_slots L N s" "\<forall>j<i. j \<notin> free_slots L N s" "0 < a"
  shows "slab_reserve L N a s =
    (if i < N then Inr (Some (slot_ptr L N a i), take_slot s i) else Inl IndexOutOfBounds)"
proof -
  have i: "i < SLOTS_LEN L N" "view_bit (sl_bitmap s) i" using assms(3) by (simp_all add: free_slots_def)
  have "\<forall>j<i. \<not> view_bit (sl_bitmap s) j" using assms(4) i(1) by (auto simp: free_slots_def)
  with i have f: "first_one (map (view_bit (sl_bitmap s)) [0..<SLOTS_LEN L N]) = Some i"
    by (simp add: first_one_Some_iff)
  have c: "0 < sl_free_cnt s" using assms(2,3) by (auto simp: slab_wf_def card_gt_0_iff)
  have m: "slab_map L N s = Inr (map (view_bit (sl_bitmap s)) [0..<SLOTS_LEN L N])"
    using assms(1,2) by (intro slab_map_ok) (simp_all add: slab_wf_def)
  show ?thesis
    using c i(1) assms(5)
    by (simp add: slab_reserve_def m f slots_index_def slots_base_eq [OF assms(1)] take_slot_def slot_ptr_def Let_def)
qed

lemma slab_free_slot:
  assumes "slot_size_ok N" "slab_wf L N s" "i \<in> free_slots L N s" "2 \<le> sl_free_cnt s"
  shows "slab_free L N a (slot_ptr L N a i) (take_slot s i) = Inr s"
proof -
  have i: "i < SLOTS_LEN L N" "view_bit (sl_bitmap s) i" using assms(3) by (simp_all add: free_slots_def)
  have len: "length (sl_bitmap s) = SLAB_MAP_LEN" using assms(2) by (simp add: slab_wf_def)
  have i512: "i < 64 * length (sl_bitmap s)"
    using i(1) slots_len_bounds(2) [OF assms(1)] len by (simp add: SLAB_MAP_LEN_def)
  note N = slot_size_bounds [OF assms(1)]
  have "(int (slot_ptr L N a i) - int (slots_base L N a)) div int N = int i"
    using N(3) by (simp add: slots_base_eq [OF assms(1)] slot_ptr_def)
  moreover have "i < usize_limit" using i512 len by (simp add: SLAB_MAP_LEN_def usize_limit_def)
  ultimately have idx: "usize_of ((int (slot_ptr L N a i) - int (slots_base L N a)) div int N) = i" by simp
  have m: "slab_map L N (take_slot s i) =
      Inr (map (view_bit (view_set (sl_bitmap s) i False)) [0..<SLOTS_LEN L N])"
    using slab_map_ok [OF assms(1), of "take_slot s i"] len by (simp add: take_slot_def)
  have "card (free_slots L N s) \<le> card {..<SLOTS_LEN L N}"
    by (rule card_mono) (auto simp: free_slots_def)
  then have c: "sl_free_cnt s < 2 ^ 16" using slots_len_bounds(2) [OF assms(1)] assms(2) by (simp add: slab_wf_def)
  note page = slot_in_page [OF assms(1) i(1), of a]
  have "slot_ptr L N a i < a + (buf_start L + SLAB_BUF_SIZE L)" unfolding buf_end using page(2) N(3) by linarith
  moreover have "u16_add (sl_free_cnt s - 1) 1 = Inr (sl_free_cnt s)" using assms(4) c by (simp add: u16_add_def)
  ultimately show ?thesis
    using page(1) assms(4) i(1) view_bit_set [OF i512 i512, of False] view_set_back [OF i(2) i512]
    by (simp add: slab_free_def idx m Let_def)
qed

lemma take_slot_wf:
  assumes "slot_size_ok N" "slab_wf L N s" "i \<in> free_slots L N s"
  shows "slab_wf L N (take_slot s i)" "free_slots L N (take_slot s i) = free_slots L N s - {i}"
proof -
  have i: "i < SLOTS_LEN L N" using assms(3) by (simp add: free_slots_def)
  have len: "64 * length (sl_bitmap s) = 512" using assms(2) by (simp add: slab_wf_def SLAB_MAP_LEN_def)
  have "view_bit (view_set (sl_bitmap s) i False) j = (j \<noteq> i \<and> view_bit (sl_bitmap s) j)" if "j < SLOTS_LEN L N" for j
    using view_bit_set [of i "sl_bitmap s" j False] i that slots_len_bounds(2) [OF assms(1)] len by simp
  then show fr: "free_slots L N (take_slot s i) = free_slots L N s - {i}"
    by (auto simp: free_slots_def take_slot_def)
  show "slab_wf L N (take_slot s i)"
    using assms(2,3) unfolding slab_wf_def fr by (simp add: take_slot_def)
qed

end

section \<open>Cache operations\<close>

text \<open>The two states of the slabs in a cache: new, and with the first slot taken.\<close>

definition taken_slab :: "('l, 'm) slab_lib_scheme \<Rightarrow> nat \<Rightarrow> slab" where
  "taken_slab L N = take_slot (slab_new L N) 0"

definition cache_slabs :: "('l \<Rightarrow> nat list) \<Rightarrow> 'l cache \<Rightarrow> nat set" where
  "cache_slabs elems c = set (elems (partial_slabs c)) \<union> set (elems (full_slabs c))"

definition cache_ok :: "'l slab_lib \<Rightarrow> ('l \<Rightarrow> nat list) \<Rightarrow> nat \<Rightarrow> 'l cache \<Rightarrow> slab_mem \<Rightarrow> bool" where
  "cache_ok L elems N c m \<longleftrightarrow> elems (empty_slabs c) = [] \<and>
     distinct (elems (partial_slabs c) @ elems (full_slabs c)) \<and>
     (\<forall>a \<in> set (elems (partial_slabs c)). sm_slabs m a = slab_new L N) \<and>
     (\<forall>a \<in> set (elems (full_slabs c)). sm_slabs m a = taken_slab L N)"

lemma slab_is_simps: "slab_is_empty s \<longleftrightarrow> sl_free_cnt s = 0" "slab_is_full s \<longleftrightarrow> sl_free_cnt s \<noteq> 0"
  by (simp_all add: slab_is_empty_def slab_is_full_def fill_level_def split: nat.split)

lemma put_slab_sel [simp]:
  "sm_slabs (put_slab a s m) = (sm_slabs m)(a := s)" "sm_pmm (put_slab a s m) = sm_pmm m"
  by (simp_all add: put_slab_def)

lemma the_list_set_list [simp]: "the_list t (set_list u x c) = (if t = u then x else the_list t c)"
  by (cases t; cases u) simp_all

context slab_library
begin

lemma slab_new_wf:
  assumes "slot_size_ok N"
  shows "slab_wf L N (slab_new L N)" "free_slots L N (slab_new L N) = {..<SLOTS_LEN L N}"
    "sl_free_cnt (slab_new L N) = SLOTS_LEN L N"
proof -
  note len = slots_len_bounds(2) [OF assms]
  have "view_bit (replicate 8 (- 1)) i" if "i < 512" for i
    using that by (simp add: view_bit_def less_mult_imp_div_less)
  then show free: "free_slots L N (slab_new L N) = {..<SLOTS_LEN L N}"
    using len by (auto simp: free_slots_def slab_new_def untyped_slab_new_def SLAB_MAP_LEN_def)
  show cnt: "sl_free_cnt (slab_new L N) = SLOTS_LEN L N"
    using len by (simp add: slab_new_def untyped_slab_new_def)
  show "slab_wf L N (slab_new L N)"
    unfolding slab_wf_def free cnt by (simp add: slab_new_def untyped_slab_new_def)
qed

lemma new_slab_laws:
  assumes "slot_size_ok N"
  shows "0 < a \<Longrightarrow> slab_reserve L N a (slab_new L N) = Inr (Some (slot_ptr L N a 0), taken_slab L N)"
    "slab_free L N a (slot_ptr L N a 0) (taken_slab L N) = Inr (slab_new L N)"
    "sl_free_cnt (slab_new L N) \<noteq> 0" "sl_free_cnt (taken_slab L N) \<noteq> 0"
proof -
  note new = slab_new_wf [OF assms] and len = slots_len_bounds(1) [OF assms]
  have zero: "0 \<in> free_slots L N (slab_new L N)" using len by (simp add: new(2))
  show "0 < a \<Longrightarrow> slab_reserve L N a (slab_new L N) = Inr (Some (slot_ptr L N a 0), taken_slab L N)"
    using slab_reserve_slot [OF assms new(1) zero] slot_size_bounds(3) [OF assms] by (simp add: taken_slab_def)
  show "slab_free L N a (slot_ptr L N a 0) (taken_slab L N) = Inr (slab_new L N)"
    unfolding taken_slab_def using len by (intro slab_free_slot [OF assms new(1) zero]) (simp add: new(3))
  show "sl_free_cnt (slab_new L N) \<noteq> 0" "sl_free_cnt (taken_slab L N) \<noteq> 0"
    using len by (simp_all add: taken_slab_def new(3))
qed

lemma move_slab_law:
  assumes "a \<in> set (elems (the_list src c))" "src \<noteq> dst"
  shows "\<exists>c'. move_slab L src a dst c = Inr c' \<and> elems (the_list src c') = remove1 a (elems (the_list src c)) \<and>
    elems (the_list dst c') = a # elems (the_list dst c) \<and>
    (\<forall>t. t \<noteq> src \<and> t \<noteq> dst \<longrightarrow> the_list t c' = the_list t c)"
proof -
  obtain l where l: "ll_remove L (Some a) (the_list src c) = (Some a, l)" "elems l = remove1 a (elems (the_list src c))"
    using remove_law [OF assms(1)] by blast
  let ?c = "set_list dst (ll_push_front L a (the_list dst (set_list src l c))) (set_list src l c)"
  have "move_slab L src a dst c = Inr ?c" by (simp add: move_slab_def l(1))
  then show ?thesis using assms(2) l(2) by (intro exI [of _ ?c]) (simp add: push_front_law)
qed

text \<open>Taking a slot of a new slab that the cursor is at: the slab goes to the full list.\<close>

lemma cache_reserve_at:
  assumes N: "slot_size_ok N" and cur: "slab_cursor L N c m = Inr (Some (src, Some a), c1, m1)"
    and a: "src \<noteq> FullSlabs" "a \<in> set (elems (the_list src c1))" "sm_slabs m1 a = slab_new L N" "0 < a"
  shows "\<exists>c'. cache_reserve L N c m = Inr (Some (slot_ptr L N a 0), c', put_slab a (taken_slab L N) m1) \<and>
    elems (the_list src c') = remove1 a (elems (the_list src c1)) \<and> elems (full_slabs c') = a # elems (full_slabs c1) \<and>
    (\<forall>t. t \<noteq> src \<and> t \<noteq> FullSlabs \<longrightarrow> the_list t c' = the_list t c1)"
proof -
  obtain c' where c': "move_slab L src a FullSlabs c1 = Inr c'"
    "elems (the_list src c') = remove1 a (elems (the_list src c1))" "elems (full_slabs c') = a # elems (full_slabs c1)"
    "\<forall>t. t \<noteq> src \<and> t \<noteq> FullSlabs \<longrightarrow> the_list t c' = the_list t c1"
    using move_slab_law [OF a(2,1)] by auto
  have "cache_reserve L N c m = Inr (Some (slot_ptr L N a 0), c', put_slab a (taken_slab L N) m1)"
    using new_slab_laws [OF N] a(3,4) c'(1) by (simp add: cache_reserve_def cur slab_is_simps Let_def)
  with c' show ?thesis by blast
qed

text \<open>A reservation uses a slab of the partial list if there is one.\<close>

lemma cache_reserve_partial:
  assumes N: "slot_size_ok N" and ok: "cache_ok L elems N c m" and p: "elems (partial_slabs c) = a # rest" and a: "0 < a"
  shows "\<exists>c'. cache_reserve L N c m = Inr (Some (slot_ptr L N a 0), c', put_slab a (taken_slab L N) m) \<and>
    cache_ok L elems N c' (put_slab a (taken_slab L N) m) \<and>
    cache_slabs elems c' = cache_slabs elems c \<and>
    set (elems (full_slabs c')) = insert a (set (elems (full_slabs c)))"
proof -
  have "slab_cursor L N c m = Inr (Some (PartialSlabs, Some a), c, m)" by (simp add: slab_cursor_def front_mut_law p)
  moreover have "sm_slabs m a = slab_new L N" using ok p by (simp add: cache_ok_def)
  ultimately obtain c' where c': "cache_reserve L N c m = Inr (Some (slot_ptr L N a 0), c', put_slab a (taken_slab L N) m)"
    "elems (partial_slabs c') = rest" "elems (full_slabs c') = a # elems (full_slabs c)"
    "empty_slabs c' = empty_slabs c"
    using cache_reserve_at [OF N, of c m PartialSlabs a c m] a p
    by (auto simp: the_list.simps [symmetric] simp del: the_list.simps)
  have "cache_ok L elems N c' (put_slab a (taken_slab L N) m)"
    using ok p unfolding cache_ok_def c' by auto
  moreover have "cache_slabs elems c' = cache_slabs elems c" using p by (auto simp: cache_slabs_def c')
  ultimately show ?thesis using c' by auto
qed

lemma slab_layout_pages:
  assumes "phy_inv r"
  shows "pages_fit r (slab_layout L)" "pow2_exp (layout_pages (slab_layout L)) = 0"
proof -
  have "4032 \<le> 4096 - mutex_size L" "4096 - mutex_size L \<le> 4096" using mutex_ok by simp_all
  then have sz: "4032 \<le> l_size (slab_layout L)" "l_size (slab_layout L) \<le> 4096"
    using ceil_to_ge [of "4096 - mutex_size L" 8] ceil_to_least [of 8 4096 "4096 - mutex_size L"]
    by (simp_all add: slab_layout_def buf_end)
  then have "ceil_to (l_size (slab_layout L)) 4096 = 4096"
    using ceil_to_ge [of "l_size (slab_layout L)" 4096] ceil_to_least [of 4096 4096 "l_size (slab_layout L)"]
      ceil_to_multiple [of 4096 "l_size (slab_layout L)"] by (auto elim!: dvdE)
  then have "layout_pages (slab_layout L) = 1" by (simp add: layout_pages_def)
  then show k: "pow2_exp (layout_pages (slab_layout L)) = 0" using pow2_exp_two_power [of 0] by simp
  show "pages_fit r (slab_layout L)" using sz(1) by (simp add: pages_fit_def k) (simp add: slab_layout_def)
qed

end

text \<open>What an allocation may do to the physical memory record: free frames are taken, and blocks handed
  out stay handed out.\<close>

definition pmm_grows :: "phy_record \<Rightarrow> phy_record \<Rightarrow> bool" where
  "pmm_grows r r' \<longleftrightarrow> phy_inv r' \<and> ph_base r' = ph_base r \<and>
     bs_max_order (ph_buddy r') = bs_max_order (ph_buddy r) \<and> phy_free r' \<subseteq> phy_free r \<and>
     (\<forall>k i. phy_used r k i \<longrightarrow> phy_used r' k i)"

text \<open>A page handed out for a slab.\<close>

definition slab_page :: "phy_record \<Rightarrow> nat \<Rightarrow> bool" where
  "slab_page r a \<longleftrightarrow> (\<exists>x. phy_used r 0 x \<and> a = vptr r x)"

text \<open>An address in none of the blocks handed out.\<close>

definition untouched :: "phy_record \<Rightarrow> nat \<Rightarrow> bool" where
  "untouched r v \<longleftrightarrow> (\<forall>k i. phy_used r k i \<longrightarrow> v \<notin> in_frames r (block k i))"

lemma pmm_grows_refl: "phy_inv r \<Longrightarrow> pmm_grows r r"
  by (simp add: pmm_grows_def)

lemma slab_page_grows: "slab_page r a \<Longrightarrow> pmm_grows r r' \<Longrightarrow> slab_page r' a"
  using vptr_base [of r' r] by (auto simp: slab_page_def pmm_grows_def)

lemma slab_page_aligned: "slab_page r a \<Longrightarrow> phy_inv r \<Longrightarrow> 4096 dvd a \<and> 0 < a"
  using vptr_aligned vptr_pos by (auto simp: slab_page_def)

lemma block_0: "block 0 x = {x}"
  by (simp add: block_def)

lemma slab_page_frames: "slab_page r a \<Longrightarrow> \<exists>x. phy_used r 0 x \<and> in_frames r (block 0 x) = {a ..< a + 4096} \<and> a = vptr r x"
  using in_frames_block [of r 0] by (auto simp: slab_page_def)

lemma free_untouched:
  assumes "X \<subseteq> phy_free r" "v \<in> in_frames r X"
  shows "untouched r v"
proof -
  have "v \<notin> in_frames r (block k i)" if "phy_used r k i" for k i
  proof -
    have "block k i \<inter> phy_free r = {}" using that by (rule phy.used_not_free)
    then have "block k i \<inter> X = {}" using assms(1) by blast
    then show ?thesis using in_frames_disjoint [of "block k i" X r] assms(2) by blast
  qed
  then show ?thesis by (simp add: untouched_def)
qed

lemma slab_page_not_untouched: "slab_page r a \<Longrightarrow> \<not> untouched r a"
  using slab_page_frames by (fastforce simp: untouched_def)

text \<open>The outcome of a reservation that found a slot in the slab at \<open>a\<close>.\<close>

definition cache_reserved ::
  "'l slab_lib \<Rightarrow> ('l \<Rightarrow> nat list) \<Rightarrow> nat \<Rightarrow> nat \<Rightarrow> 'l cache \<Rightarrow> slab_mem \<Rightarrow> 'l cache \<Rightarrow> slab_mem \<Rightarrow> bool" where
  "cache_reserved L elems N a c m c' m' \<longleftrightarrow>
     a \<notin> set (elems (full_slabs c)) \<and> set (elems (full_slabs c')) = insert a (set (elems (full_slabs c))) \<and>
     cache_slabs elems c' = insert a (cache_slabs elems c) \<and>
     (\<forall>b. b \<noteq> a \<longrightarrow> sm_slabs m' b = sm_slabs m b) \<and>
     (\<exists>r r'. sm_pmm m = Some r \<and> sm_pmm m' = Some r' \<and> pmm_grows r r' \<and> slab_page r' a \<and>
       (a \<in> cache_slabs elems c \<or> untouched r a))"

context slab_library
begin

lemma cache_reserve_new:
  assumes N: "slot_size_ok N" and ok: "cache_ok L elems N c m" and p: "elems (partial_slabs c) = []"
    and r: "sm_pmm m = Some r" "phy_inv r" and pg: "\<forall>a \<in> cache_slabs elems c. slab_page r a"
  shows "cache_reserve L N c m = Inr (None, c, m) \<or>
    (\<exists>a c' m'. cache_reserve L N c m = Inr (Some (slot_ptr L N a 0), c', m') \<and> cache_ok L elems N c' m' \<and>
      cache_reserved L elems N a c m c' m')"
proof -
  note fit = slab_layout_pages [OF r(2)]
  have e: "elems (empty_slabs c) = []" using ok by (simp add: cache_ok_def)
  from page_allocate_ptr [OF r(2) fit(1), unfolded fit(2)] show ?thesis
  proof (elim disjE exE conjE)
    assume "page_allocate (slab_layout L) (Some r) = Inr (None, Some r)"
    then have "slab_cursor L N c m = Inr (None, c, m)" using r(1) by (simp add: slab_cursor_def front_mut_law p e)
    then show ?thesis by (simp add: cache_reserve_def)
  next
    fix x r'
    assume h: "page_allocate (slab_layout L) (Some r) = Inr (Some (vptr r (x * 2 ^ 0), 2 ^ 0 * 4096), Some r')"
      "phy_inv r'" "bs_max_order (ph_buddy r') = bs_max_order (ph_buddy r)" "ph_base r' = ph_base r"
      "block 0 x \<subseteq> phy_free r" "phy_free r' = phy_free r - block 0 x" "phy_used r' 0 x"
      "\<forall>k' j. phy_used r k' j \<longrightarrow> phy_used r' k' j"
    define a where "a = vptr r x"
    let ?l = "ll_insert_after L None a (empty_slabs c)"
    let ?m = "put_slab a (slab_new L N) (m\<lparr>sm_pmm := Some r'\<rparr>)"
    let ?c = "c\<lparr>empty_slabs := ?l\<rparr>"
    have "elems ?l = [a]" by (simp add: insert_after_law e)
    moreover from this have "slab_cursor L N c m = Inr (Some (EmptySlabs, Some a), ?c, ?m)"
      using h(1) r(1) by (simp add: slab_cursor_def front_mut_law move_next_law p e a_def)
    ultimately have "\<exists>c'. cache_reserve L N c m = Inr (Some (slot_ptr L N a 0), c', put_slab a (taken_slab L N) ?m) \<and>
      elems (the_list EmptySlabs c') = remove1 a (elems (the_list EmptySlabs ?c)) \<and>
      elems (full_slabs c') = a # elems (full_slabs ?c) \<and>
      (\<forall>t. t \<noteq> EmptySlabs \<and> t \<noteq> FullSlabs \<longrightarrow> the_list t c' = the_list t ?c)"
      using vptr_pos [of r x] by (intro cache_reserve_at [OF N]) (simp_all add: a_def)
    then obtain c' where c': "cache_reserve L N c m = Inr (Some (slot_ptr L N a 0), c', put_slab a (taken_slab L N) ?m)"
      "elems (empty_slabs c') = []" "elems (full_slabs c') = a # elems (full_slabs c)" "partial_slabs c' = partial_slabs c"
      using \<open>elems ?l = [a]\<close> by (auto dest: spec [of _ PartialSlabs])
    have grow: "pmm_grows r r'" using h by (auto simp: pmm_grows_def)
    have page: "slab_page r' a" using h(7) vptr_base [OF h(4)] by (auto simp: slab_page_def a_def)
    have "a \<in> in_frames r (block 0 x)" using in_frames_block [of r 0 x] by (simp add: a_def)
    then have new: "untouched r a" using free_untouched h(5) by blast
    then have a: "a \<notin> cache_slabs elems c" using pg slab_page_not_untouched by blast
    then have "cache_ok L elems N c' (put_slab a (taken_slab L N) ?m)"
      using ok unfolding cache_ok_def c' by (auto simp: cache_slabs_def)
    moreover have "cache_reserved L elems N a c m c' (put_slab a (taken_slab L N) ?m)"
      using a r(1) grow page new by (auto simp: cache_reserved_def c' cache_slabs_def)
    ultimately show ?thesis using c'(1) by blast
  qed
qed

lemma cache_reserve_law:
  assumes N: "slot_size_ok N" and ok: "cache_ok L elems N c m"
    and r: "sm_pmm m = Some r" "phy_inv r" and pg: "\<forall>a \<in> cache_slabs elems c. slab_page r a"
  shows "cache_reserve L N c m = Inr (None, c, m) \<or>
    (\<exists>a c' m'. cache_reserve L N c m = Inr (Some (slot_ptr L N a 0), c', m') \<and> cache_ok L elems N c' m' \<and>
      cache_reserved L elems N a c m c' m')"
proof (cases "elems (partial_slabs c)")
  case Nil
  then show ?thesis by (rule cache_reserve_new [OF N ok _ r pg])
next
  case (Cons a rest)
  have a: "a \<in> cache_slabs elems c" "a \<notin> set (elems (full_slabs c))"
    using ok by (auto simp: cache_slabs_def cache_ok_def Cons)
  then have page: "slab_page r a" using pg by blast
  from cache_reserve_partial [OF N ok Cons] slab_page_aligned [OF page r(2)] obtain c' where
    c': "cache_reserve L N c m = Inr (Some (slot_ptr L N a 0), c', put_slab a (taken_slab L N) m)"
    "cache_ok L elems N c' (put_slab a (taken_slab L N) m)" "cache_slabs elems c' = cache_slabs elems c"
    "set (elems (full_slabs c')) = insert a (set (elems (full_slabs c)))" by blast
  have "cache_reserved L elems N a c m c' (put_slab a (taken_slab L N) m)"
    using a r page pmm_grows_refl [OF r(2)] by (auto simp: cache_reserved_def c'(3,4))
  with c'(1,2) show ?thesis by blast
qed

lemma cache_free_law:
  assumes N: "slot_size_ok N" and ok: "cache_ok L elems N c m" and a: "a \<in> set (elems (full_slabs c))" "4096 dvd a"
  shows "\<exists>c'. cache_free L N (slot_ptr L N a 0) c m = Inr (c', put_slab a (slab_new L N) m) \<and>
    cache_ok L elems N c' (put_slab a (slab_new L N) m) \<and> cache_slabs elems c' = cache_slabs elems c \<and>
    set (elems (full_slabs c')) = set (elems (full_slabs c)) - {a}"
proof -
  obtain c' where c': "move_slab L FullSlabs a PartialSlabs c = Inr c'"
    "elems (full_slabs c') = remove1 a (elems (full_slabs c))" "elems (partial_slabs c') = a # elems (partial_slabs c)"
    "empty_slabs c' = empty_slabs c"
    using move_slab_law [of a FullSlabs c PartialSlabs] a(1) by (auto simp: the_list.simps [symmetric] simp del: the_list.simps)
  have s: "sm_slabs m a = taken_slab L N" using ok a(1) by (simp add: cache_ok_def)
  have "0 < SLOTS_LEN L N" using slots_len_bounds(1) [OF N] by simp
  then have "from_elem_ptr (slot_ptr L N a 0) = a" by (rule slot_elem_ptr [OF N _ a(2)])
  then have "cache_free L N (slot_ptr L N a 0) c m = Inr (c', put_slab a (slab_new L N) m)"
    using new_slab_laws [OF N] c'(1) by (simp add: cache_free_def s slab_is_simps Let_def)
  moreover have d: "distinct (elems (full_slabs c))" using ok by (simp add: cache_ok_def)
  moreover have "cache_ok L elems N c' (put_slab a (slab_new L N) m)"
    using ok a(1) d unfolding cache_ok_def c' by (auto simp: set_remove1_eq)
  moreover have "cache_slabs elems c' = cache_slabs elems c" using a(1) d by (auto simp: cache_slabs_def c' set_remove1_eq)
  ultimately show ?thesis by (simp add: c'(2) set_remove1_eq)
qed

end

section \<open>Properties\<close>

text \<open>C19. \<^verbatim>\<open>Slab::reserve\<close> on a slab whose count is the number of its free slots.  With no slot free it
  answers \<^verbatim>\<open>None\<close>.  Otherwise it takes the lowest free slot: a piece of the page of the slab, aligned to
  the slot size, from whose address the slab is found again, and \<^verbatim>\<open>Slab::free\<close> of it gives back the slab
  as it was.  Two branches panic: the slice of slots is as long as a slot is large, so a slot with an
  index of the slot size or more is out of bounds; and \<^verbatim>\<open>free\<close> asserts that some slot is free already,
  so a slot of a slab that has become full cannot be freed.\<close>

theorem slab_reserve_exact:
  assumes "slab_library L elems" "slot_size_ok N" "slab_wf L N s" "4096 dvd a" "0 < a"
  defines "i \<equiv> Min (free_slots L N s)"
  shows "if free_slots L N s = {} then slab_reserve L N a s = Inr (None, s)
    else if N \<le> i then slab_reserve L N a s = Inl IndexOutOfBounds
    else \<exists>p s'. slab_reserve L N a s = Inr (Some p, s') \<and>
      slab_wf L N s' \<and> free_slots L N s' = free_slots L N s - {i} \<and>
      a \<le> p \<and> p + N \<le> a + 4096 \<and> N dvd p \<and> from_elem_ptr p = a \<and>
      slab_free L N a p s' = (if sl_free_cnt s = 1 then Inl AssertFailed else Inr s)"
proof -
  note slot_lemmas = slab_library.slab_reserve_slot [OF assms(1-3)] slab_library.slab_free_slot [OF assms(1-3)]
    slab_library.take_slot_wf [OF assms(1-3)]
  have none: "slab_reserve L N a s = Inr (None, s)" if "free_slots L N s = {}"
    using assms(3) that by (simp add: slab_wf_def slab_reserve_def)
  show ?thesis
  proof (cases "free_slots L N s = {}")
    case False
    then have i: "i \<in> free_slots L N s" "\<forall>j<i. j \<notin> free_slots L N s"
      by (auto simp: i_def dest: Min_le)
    then have len: "i < SLOTS_LEN L N" by (simp add: free_slots_def)
    note page = slab_library.slot_in_page [OF assms(1,2) len, of a]
    note slot_lemmas = slot_lemmas [OF i(1)]
    have "slab_reserve L N a s =
        (if i < N then Inr (Some (slot_ptr L N a i), take_slot s i) else Inl IndexOutOfBounds)"
      by (rule slot_lemmas(1) [OF i(2) assms(5)])
    moreover have "a \<le> slot_ptr L N a i" "slot_ptr L N a i + N \<le> a + 4096" using page by (simp_all add: slot_ptr_def)
    moreover have "N dvd a" using assms(2,4) by (auto simp: slot_size_ok_def intro: dvd_trans [OF le_imp_power_dvd [of _ 12]])
    then have "N dvd slot_ptr L N a i"
      using slab_library.slots_offset_bounds(3) [OF assms(1,2)] by (simp add: slot_ptr_def)
    moreover have "0 < sl_free_cnt s" using assms(3) i(1) by (auto simp: slab_wf_def card_gt_0_iff)
    then have "slab_free L N a (slot_ptr L N a i) (take_slot s i) = (if sl_free_cnt s = 1 then Inl AssertFailed else Inr s)"
      using slot_lemmas(2) by (auto simp: slab_free_def)
    ultimately show ?thesis
      using False slot_lemmas(3,4) slab_library.slot_elem_ptr [OF assms(1,2) len assms(4)] by auto
  qed (simp add: none)
qed

theorem slab_reserve_exact_witness:
  "\<exists>s'. slab_reserve plain_lib 8 4096 (slab_new plain_lib 8) = Inr (Some 4184, s') \<and>
     slab_free plain_lib 8 4096 4184 s' = Inr (slab_new plain_lib 8)"
proof -
  have N: "slot_size_ok 8" unfolding slot_size_ok_def by (intro exI [of _ 3]) simp
  note new = plain.slab_new_wf [OF N]
  have len: "SLOTS_LEN plain_lib 8 = 500" by code_simp
  have "Min {..<500::nat} = 0" by (intro Min_eqI) auto
  then have free: "free_slots plain_lib 8 (slab_new plain_lib 8) \<noteq> {}" "Min (free_slots plain_lib 8 (slab_new plain_lib 8)) = 0"
    "sl_free_cnt (slab_new plain_lib 8) \<noteq> 1" by (simp_all add: new(2,3) len lessThan_empty_iff)
  have "slab_reserve plain_lib 8 4096 (slab_new plain_lib 8) = Inr (Some 4184, taken_slab plain_lib 8)"
    using plain.new_slab_laws(1) [OF N, of 4096] by (simp add: slot_ptr_def slots_offset_def buf_start_def plain_lib_def SLAB_MAP_LEN_def ceil_to_def)
  then show ?thesis
    using slab_reserve_exact [OF plain.slab_library_axioms N new(1), of 4096] free by auto
qed

end
