(* ===== verification/Object_Alloc.thy ===== *)
theory Object_Alloc
  imports Koe_Prelude
begin

text \<open>
  The contract of \<^verbatim>\<open>core::alloc::GlobalAlloc\<close>, and what a client may rely on: over any sequence of
  allocations and deallocations, the objects alive have the size and alignment asked for and overlap
  neither one another nor the memory that is still to be handed out.  A null pointer, here 0, is a
  refused allocation.
\<close>

section \<open>A client\<close>

datatype heap_request = Alloc layout | Dealloc nat

type_synonym object = "nat \<times> layout"

definition object_bytes :: "object \<Rightarrow> nat set" where
  "object_bytes ob = {fst ob ..< fst ob + l_size (snd ob)}"

text \<open>\<open>Alloc l\<close> asks for an object of layout \<open>l\<close>; \<open>Dealloc n\<close> gives back the \<open>n\<close>-th object alive.\<close>

fun heap_step ::
  "(layout \<Rightarrow> 's \<Rightarrow> (nat \<times> 's) res) \<Rightarrow> (nat \<Rightarrow> layout \<Rightarrow> 's \<Rightarrow> 's res) \<Rightarrow>
     heap_request \<Rightarrow> 's \<times> object list \<Rightarrow> ('s \<times> object list) res" where
  "heap_step alloc dealloc (Alloc l) (s, alive) =
     rbind (alloc l s) (\<lambda>(p, s'). Inr (s', if p = 0 then alive else (p, l) # alive))"
| "heap_step alloc dealloc (Dealloc n) (s, alive) =
     (if n < length alive
      then rbind (dealloc (fst (alive ! n)) (snd (alive ! n)) s) (\<lambda>s'.
           Inr (s', take n alive @ drop (Suc n) alive))
      else Inr (s, alive))"

definition heap_run ::
  "(layout \<Rightarrow> 's \<Rightarrow> (nat \<times> 's) res) \<Rightarrow> (nat \<Rightarrow> layout \<Rightarrow> 's \<Rightarrow> 's res) \<Rightarrow>
     heap_request list \<Rightarrow> 's \<times> object list \<Rightarrow> ('s \<times> object list) res" where
  "heap_run alloc dealloc = rfold (heap_step alloc dealloc)"

fun heap_request_ok :: "(layout \<Rightarrow> bool) \<Rightarrow> heap_request \<Rightarrow> bool" where
  "heap_request_ok serves (Alloc l) \<longleftrightarrow> serves l"
| "heap_request_ok serves (Dealloc n) \<longleftrightarrow> True"

section \<open>The contract\<close>

locale object_allocator =
  fixes inv :: "'s \<Rightarrow> bool"
    and serves :: "layout \<Rightarrow> bool"
    and spare :: "'s \<Rightarrow> nat set"
    and owned :: "'s \<Rightarrow> nat \<Rightarrow> layout \<Rightarrow> bool"
    and alloc :: "layout \<Rightarrow> 's \<Rightarrow> (nat \<times> 's) res"
    and dealloc :: "nat \<Rightarrow> layout \<Rightarrow> 's \<Rightarrow> 's res"
  assumes alloc_law: "inv s \<Longrightarrow> serves l \<Longrightarrow>
      \<exists>p s'. alloc l s = Inr (p, s') \<and> inv s' \<and> (\<forall>q l'. owned s q l' \<longrightarrow> owned s' q l') \<and>
        (p \<noteq> 0 \<longrightarrow> owned s' p l \<and> (\<forall>l'. \<not> owned s p l'))"
    and dealloc_law: "inv s \<Longrightarrow> owned s p l \<Longrightarrow>
      \<exists>s'. dealloc p l s = Inr s' \<and> inv s' \<and> (\<forall>q l'. owned s q l' \<and> q \<noteq> p \<longrightarrow> owned s' q l')"
    and owned_aligned: "inv s \<Longrightarrow> owned s p l \<Longrightarrow> l_align l dvd p \<and> object_bytes (p, l) \<inter> spare s = {}"
    and owned_disjoint: "inv s \<Longrightarrow> owned s p l \<Longrightarrow> owned s q l' \<Longrightarrow> p \<noteq> q \<Longrightarrow>
      object_bytes (p, l) \<inter> object_bytes (q, l') = {}"
begin

definition alive_ok :: "'s \<Rightarrow> object list \<Rightarrow> bool" where
  "alive_ok s alive \<longleftrightarrow> distinct (map fst alive) \<and> (\<forall>ob \<in> set alive. owned s (fst ob) (snd ob))"

lemma alloc_alive:
  assumes "inv s" "serves l" "alive_ok s alive"
  shows "\<exists>s' alive'. heap_step alloc dealloc (Alloc l) (s, alive) = Inr (s', alive') \<and> inv s' \<and> alive_ok s' alive'"
proof -
  obtain p s' where r: "alloc l s = Inr (p, s')" "inv s'" "\<forall>q l'. owned s q l' \<longrightarrow> owned s' q l'"
    "p \<noteq> 0 \<longrightarrow> owned s' p l \<and> (\<forall>l'. \<not> owned s p l')" using alloc_law [OF assms(1,2)] by blast
  have keep: "alive_ok s' alive" using assms(3) r(3) by (auto simp: alive_ok_def)
  moreover have "alive_ok s' ((p, l) # alive)" if "p \<noteq> 0"
  proof -
    have "p \<notin> fst ` set alive" using assms(3) r(4) that by (auto simp: alive_ok_def)
    with keep r(4) that show ?thesis by (simp add: alive_ok_def)
  qed
  ultimately show ?thesis using r by (cases "p = 0") simp_all
qed

lemma dealloc_alive:
  assumes "inv s" "alive_ok s alive"
  shows "\<exists>s' alive'. heap_step alloc dealloc (Dealloc n) (s, alive) = Inr (s', alive') \<and> inv s' \<and> alive_ok s' alive'"
proof (cases "n < length alive")
  case True
  define ys zs p l where "ys = take n alive" and "zs = drop (Suc n) alive"
    and "p = fst (alive ! n)" and "l = snd (alive ! n)"
  have alive: "alive = ys @ (p, l) # zs" using True by (simp add: ys_def zs_def p_def l_def id_take_nth_drop)
  then obtain s' where s': "dealloc p l s = Inr s'" "inv s'" "\<forall>q l'. owned s q l' \<and> q \<noteq> p \<longrightarrow> owned s' q l'"
    using dealloc_law [OF assms(1), of p l] assms(2) by (auto simp: alive_ok_def)
  have d: "distinct (map fst (ys @ zs))" and p: "p \<notin> fst ` set (ys @ zs)"
    and own: "\<forall>ob \<in> set (ys @ zs). owned s (fst ob) (snd ob)"
    using assms(2) unfolding alive by (auto simp: alive_ok_def)
  have "owned s' (fst ob) (snd ob)" if "ob \<in> set (ys @ zs)" for ob
    using s'(3) own p that by (metis imageI)
  with d have "alive_ok s' (ys @ zs)" by (simp add: alive_ok_def)
  moreover have "heap_step alloc dealloc (Dealloc n) (s, alive) = Inr (s', ys @ zs)"
    using True s'(1) by (simp add: p_def l_def ys_def zs_def)
  ultimately show ?thesis using s'(2) by blast
qed (use assms in simp)

lemma run_alive:
  assumes "inv s" "alive_ok s alive" "\<forall>q \<in> set reqs. heap_request_ok serves q"
  shows "\<exists>s' alive'. heap_run alloc dealloc reqs (s, alive) = Inr (s', alive') \<and> inv s' \<and> alive_ok s' alive'"
  using assms
proof (induction reqs arbitrary: s alive)
  case (Cons q reqs)
  have "\<exists>s' alive'. heap_step alloc dealloc q (s, alive) = Inr (s', alive') \<and> inv s' \<and> alive_ok s' alive'"
    using Cons.prems alloc_alive dealloc_alive by (cases q) simp_all
  with Cons show ?case by (fastforce simp: heap_run_def)
qed (simp add: heap_run_def)

text \<open>The guarantee to a client that starts with nothing.\<close>

lemma run_from_start:
  assumes "inv s" "\<forall>q \<in> set reqs. heap_request_ok serves q"
  shows "\<exists>s' alive. heap_run alloc dealloc reqs (s, []) = Inr (s', alive) \<and> inv s' \<and> distinct (map fst alive) \<and>
    (\<forall>ob \<in> set alive. l_align (snd ob) dvd fst ob \<and> object_bytes ob \<inter> spare s' = {} \<and>
      (\<forall>ob' \<in> set alive. ob \<noteq> ob' \<longrightarrow> object_bytes ob \<inter> object_bytes ob' = {}))"
proof -
  have "alive_ok s []" by (simp add: alive_ok_def)
  from run_alive [OF assms(1) this assms(2)] obtain s' alive where
    r: "heap_run alloc dealloc reqs (s, []) = Inr (s', alive)" "inv s'" "alive_ok s' alive" by blast
  have own: "owned s' (fst ob) (snd ob)" if "ob \<in> set alive" for ob
    using r(3) that by (auto simp: alive_ok_def)
  have "object_bytes ob \<inter> object_bytes ob' = {}" if "ob \<in> set alive" "ob' \<in> set alive" "ob \<noteq> ob'" for ob ob'
  proof -
    have "fst ob \<noteq> fst ob'" using r(3) that by (auto simp: alive_ok_def distinct_map inj_on_def)
    then show ?thesis using owned_disjoint [OF r(2) own [OF that(1)] own [OF that(2)]] by simp
  qed
  moreover have "l_align (snd ob) dvd fst ob \<and> object_bytes ob \<inter> spare s' = {}" if "ob \<in> set alive" for ob
    using owned_aligned [OF r(2) own [OF that]] by simp
  ultimately show ?thesis using r by (auto simp: alive_ok_def)
qed

end

end
