(* ===== verification/Global_Alloc.thy ===== *)
theory Global_Alloc
  imports Slab Object_Alloc
begin

text \<open>
  The global allocator of \<^verbatim>\<open>src/src/mem/alloc.rs\<close>: small layouts are served by the slab allocator and
  larger ones by the page allocator.  It is shown to keep the contract of an object allocator.
\<close>

section \<open>The model\<close>

definition with_pmm :: "phy_record option \<Rightarrow> 'l heap \<Rightarrow> 'l heap" where
  "with_pmm pmm h = h\<lparr>hp_mem := (hp_mem h)\<lparr>sm_pmm := pmm\<rparr>\<rparr>"

definition global_allocate ::
  "('l, 'm) slab_lib_scheme \<Rightarrow> layout \<Rightarrow> 'l heap \<Rightarrow> ((nat \<times> nat) option \<times> 'l heap) res" where
  "global_allocate L l h =
     (if l_size (pad_to_align l) \<le> MAX_SIZE then slab_allocate L l h
      else rbind (page_allocate l (sm_pmm (hp_mem h))) (\<lambda>(ptr, pmm). Inr (ptr, with_pmm pmm h)))"

definition global_deallocate ::
  "('l, 'm) slab_lib_scheme \<Rightarrow> nat \<Rightarrow> layout \<Rightarrow> 'l heap \<Rightarrow> 'l heap res" where
  "global_deallocate L p l h =
     (if l_size (pad_to_align l) \<le> MAX_SIZE then slab_deallocate L p l h
      else rbind (page_deallocate p l (sm_pmm (hp_mem h))) (\<lambda>pmm. Inr (with_pmm pmm h)))"

definition global_alloc :: "('l, 'm) slab_lib_scheme \<Rightarrow> layout \<Rightarrow> 'l heap \<Rightarrow> (nat \<times> 'l heap) res" where
  "global_alloc L l h =
     rbind (global_allocate L l h) (\<lambda>(ptr, h). Inr (case ptr of None \<Rightarrow> 0 | Some (p, _) \<Rightarrow> p, h))"

definition global_dealloc :: "('l, 'm) slab_lib_scheme \<Rightarrow> nat \<Rightarrow> layout \<Rightarrow> 'l heap \<Rightarrow> 'l heap res" where
  "global_dealloc L p l h = (if p = 0 then Inr h else global_deallocate L p l h)"

section \<open>Objects and the state of the heap\<close>

definition small :: "layout \<Rightarrow> bool" where
  "small l \<longleftrightarrow> l_size (pad_to_align l) \<le> MAX_SIZE"

text \<open>The layouts that can be asked for: not empty, and aligned to at most a page.\<close>

definition serves :: "layout \<Rightarrow> bool" where
  "serves l \<longleftrightarrow> layout_wf l \<and> 0 < l_size l \<and> l_align l dvd 4096"

definition slot_exp :: "layout \<Rightarrow> nat" where
  "slot_exp l = pow2_exp (ceil_to (l_size (pad_to_align l)) 8)"

definition page_exp :: "layout \<Rightarrow> nat" where
  "page_exp l = pow2_exp (layout_pages l)"

definition the_cache :: "layout \<Rightarrow> 'l heap \<Rightarrow> 'l cache" where
  "the_cache l h = hp_caches h ! (slot_exp l - 3)"

definition heap_slabs :: "('l \<Rightarrow> nat list) \<Rightarrow> 'l heap \<Rightarrow> nat \<Rightarrow> nat set" where
  "heap_slabs elems h i = cache_slabs elems (hp_caches h ! i)"

text \<open>The caches hold new slabs and slabs with one slot taken, no slab is in two caches, and every slab
  is a page of its own.\<close>

definition heap_inv :: "'l slab_lib \<Rightarrow> ('l \<Rightarrow> nat list) \<Rightarrow> 'l heap \<Rightarrow> bool" where
  "heap_inv L elems h \<longleftrightarrow> length (hp_caches h) = 8 \<and>
     (\<forall>i<8. cache_ok L elems (2 ^ (i + 3)) (hp_caches h ! i) (hp_mem h)) \<and>
     (\<forall>i<8. \<forall>j<8. i \<noteq> j \<longrightarrow> heap_slabs elems h i \<inter> heap_slabs elems h j = {}) \<and>
     (\<exists>r. sm_pmm (hp_mem h) = Some r \<and> phy_inv r \<and> (\<forall>i<8. \<forall>a \<in> heap_slabs elems h i. slab_page r a))"

definition small_owned :: "'l slab_lib \<Rightarrow> ('l \<Rightarrow> nat list) \<Rightarrow> 'l heap \<Rightarrow> nat \<Rightarrow> layout \<Rightarrow> bool" where
  "small_owned L elems h p l \<longleftrightarrow>
     (\<exists>a \<in> set (elems (full_slabs (the_cache l h))). p = slot_ptr L (2 ^ slot_exp l) a 0)"

definition large_owned :: "('l \<Rightarrow> nat list) \<Rightarrow> 'l heap \<Rightarrow> nat \<Rightarrow> layout \<Rightarrow> bool" where
  "large_owned elems h p l \<longleftrightarrow>
     (\<exists>r i. sm_pmm (hp_mem h) = Some r \<and> pages_fit r l \<and> phy_used r (page_exp l) i \<and>
       p = vptr r (i * 2 ^ page_exp l)) \<and> (\<forall>j<8. p \<notin> heap_slabs elems h j)"

definition owned :: "'l slab_lib \<Rightarrow> ('l \<Rightarrow> nat list) \<Rightarrow> 'l heap \<Rightarrow> nat \<Rightarrow> layout \<Rightarrow> bool" where
  "owned L elems h p l \<longleftrightarrow> serves l \<and> (if small l then small_owned L elems h p l else large_owned elems h p l)"

definition heap_spare :: "'l heap \<Rightarrow> nat set" where
  "heap_spare h = (case sm_pmm (hp_mem h) of None \<Rightarrow> {} | Some r \<Rightarrow> in_frames r (phy_free r))"

lemma pad_bounds:
  assumes "serves l"
  shows "l_size l \<le> l_size (pad_to_align l)" "l_align l dvd l_size (pad_to_align l)"
    "0 < l_size (pad_to_align l)" "0 < l_align l"
proof -
  show al: "0 < l_align l" using assms by (auto simp: serves_def intro: gr0I)
  show "l_size l \<le> l_size (pad_to_align l)" by (simp add: pad_to_align_def ceil_to_ge)
  then show "0 < l_size (pad_to_align l)" using assms by (simp add: serves_def)
  show "l_align l dvd l_size (pad_to_align l)" using al by (simp add: pad_to_align_def ceil_to_multiple)
qed

lemma slot_exp_bounds:
  assumes "serves l" "small l"
  shows "3 \<le> slot_exp l" "slot_exp l \<le> 10" "l_size l \<le> 2 ^ slot_exp l" "l_align l dvd 2 ^ slot_exp l"
    "slot_order l = Inr (slot_exp l)"
proof -
  let ?pad = "l_size (pad_to_align l)"
  define n where "n = ceil_to ?pad 8"
  note pad = pad_bounds [OF assms(1)]
  have le: "?pad \<le> 1024" using assms(2) by (simp add: small_def MAX_SIZE_def MAX_ORDER_def)
  have n: "?pad \<le> n" "n \<le> 1024" "8 dvd n"
    using le by (auto simp: n_def ceil_to_ge ceil_to_multiple intro!: ceil_to_least)
  then have "8 \<le> n" using pad(3) by (auto dest: dvd_imp_le)
  have e: "slot_exp l = pow2_exp n" by (simp add: slot_exp_def n_def)
  have "n \<le> 2 ^ 10" using n(2) by simp
  then show e10: "slot_exp l \<le> 10" by (simp only: e pow2_exp_le_iff)
  have "\<not> n \<le> 2 ^ 2" using \<open>8 \<le> n\<close> by simp
  then have "\<not> slot_exp l \<le> 2" by (simp only: e pow2_exp_le_iff not_False_eq_True)
  then show "3 \<le> slot_exp l" by simp
  have ge: "n \<le> 2 ^ slot_exp l" unfolding e by (rule pow2_exp_ge)
  then show "l_size l \<le> 2 ^ slot_exp l" using pad(1) n(1) by linarith
  obtain j where j: "l_align l = 2 ^ j" using assms(1) by (auto simp: serves_def layout_wf_def)
  have "l_align l \<le> ?pad" using pad(2,3) by (rule dvd_imp_le)
  then have "(2::nat) ^ j \<le> 2 ^ slot_exp l" using ge n(1) j by linarith
  then have "j \<le> slot_exp l" by simp
  then show "l_align l dvd 2 ^ slot_exp l" unfolding j by (rule le_imp_power_dvd)
  have "next_multiple_of ?pad 8 = Inr n" unfolding n_def
    using n(2) by (intro next_multiple_of_ok) (simp_all add: n_def usize_limit_def)
  moreover have "(2::nat) ^ slot_exp l \<le> 2 ^ 10" using e10 by (rule power_increasing) simp
  then have "next_power_of_two n = Inr (2 ^ slot_exp l)"
    unfolding e by (intro next_power_of_two_ok) (simp add: usize_limit_def)
  ultimately show "slot_order l = Inr (slot_exp l)"
    using e10 by (simp add: slot_order_def MIN_ORDER_def usize_shl_def usize_limit_def)
qed

lemma slot_exp_size: "serves l \<Longrightarrow> small l \<Longrightarrow> slot_size_ok (2 ^ slot_exp l)"
  using slot_exp_bounds(1,2) by (auto simp: slot_size_ok_def)

lemma cache_index_ok:
  assumes "serves l" "small l" "length (hp_caches h) = 8"
  shows "cache_index (slot_exp l) h = Inr (slot_exp l - 3, the_cache l h)"
  using slot_exp_bounds [OF assms(1,2)] assms(3) by (simp add: cache_index_def MIN_ORDER_def the_cache_def)

lemma slot_exp_index:
  assumes "serves l" "small l" "serves l'" "small l'" "slot_exp l - 3 = slot_exp l' - 3"
  shows "slot_exp l = slot_exp l'"
  using slot_exp_bounds(1) [OF assms(1,2)] slot_exp_bounds(1) [OF assms(3,4)] assms(5) by linarith

lemma heap_invD:
  assumes "heap_inv L elems h"
  shows "length (hp_caches h) = 8"
    "i < 8 \<Longrightarrow> cache_ok L elems (2 ^ (i + 3)) (hp_caches h ! i) (hp_mem h)"
    "i < 8 \<Longrightarrow> j < 8 \<Longrightarrow> a \<in> heap_slabs elems h i \<Longrightarrow> a \<in> heap_slabs elems h j \<Longrightarrow> i = j"
  using assms by (auto simp: heap_inv_def)

lemma heap_inv_pmm:
  assumes "heap_inv L elems h"
  obtains r where "sm_pmm (hp_mem h) = Some r" "phy_inv r"
  using assms by (auto simp: heap_inv_def)

lemma heap_inv_phy: "heap_inv L elems h \<Longrightarrow> sm_pmm (hp_mem h) = Some r \<Longrightarrow> phy_inv r"
  by (auto simp: heap_inv_def)

lemma heap_inv_page:
  "heap_inv L elems h \<Longrightarrow> sm_pmm (hp_mem h) = Some r \<Longrightarrow> i < 8 \<Longrightarrow> a \<in> heap_slabs elems h i \<Longrightarrow> slab_page r a"
  by (auto simp: heap_inv_def)

lemma the_cache_slabs:
  assumes "serves l" "small l"
  shows "slot_exp l - 3 < 8" "set (elems (full_slabs (the_cache l h))) \<subseteq> heap_slabs elems h (slot_exp l - 3)"
    "cache_slabs elems (the_cache l h) = heap_slabs elems h (slot_exp l - 3)"
  using slot_exp_bounds(2) [OF assms] by (auto simp: the_cache_def heap_slabs_def cache_slabs_def)

lemma the_cache_ok:
  assumes "heap_inv L elems h" "serves l" "small l"
  shows "cache_ok L elems (2 ^ slot_exp l) (the_cache l h) (hp_mem h)"
  using heap_invD(2) [OF assms(1) the_cache_slabs(1) [OF assms(2,3)]] slot_exp_bounds(1) [OF assms(2,3)]
  by (simp add: the_cache_def)

lemma cache_ok_cong:
  "cache_ok L elems N c m \<Longrightarrow> (\<And>a. a \<in> cache_slabs elems c \<Longrightarrow> sm_slabs m' a = sm_slabs m a) \<Longrightarrow> cache_ok L elems N c m'"
  by (auto simp: cache_ok_def cache_slabs_def)

context slab_library
begin

lemma full_in_heap:
  "serves l \<Longrightarrow> small l \<Longrightarrow> a \<in> set (elems (full_slabs (the_cache l h))) \<Longrightarrow> a \<in> heap_slabs elems h (slot_exp l - 3)"
  using the_cache_slabs(2) [of l elems h] by blast

text \<open>A slot never starts at a page boundary.\<close>

lemma slot_not_page:
  assumes "slot_size_ok N" "4096 dvd a"
  shows "\<not> 4096 dvd slot_ptr L N a 0" "a \<le> slot_ptr L N a 0" "slot_ptr L N a 0 + N \<le> a + 4096"
proof -
  note off = slots_offset_bounds [OF assms(1)]
  have "0 < slots_offset L N" "slots_offset L N < 4096" using off buf_start_eq by linarith+
  then have "\<not> 4096 dvd slots_offset L N" by (auto dest: dvd_imp_le)
  then show "\<not> 4096 dvd slot_ptr L N a 0" using assms(2) by (simp add: slot_ptr_def dvd_add_right_iff)
  show "a \<le> slot_ptr L N a 0" by (simp add: slot_ptr_def)
  show "slot_ptr L N a 0 + N \<le> a + 4096"
    using off(2) slot_size_bounds(2) [OF assms(1)] by (simp add: slot_ptr_def)
qed

lemma slot_same_page:
  assumes "slot_size_ok N" "slot_size_ok N'" "4096 dvd a" "4096 dvd b" "slot_ptr L N a 0 = slot_ptr L N' b 0"
  shows "a = b"
proof -
  have "0 < SLOTS_LEN L N" "0 < SLOTS_LEN L N'" using slots_len_bounds(1) assms(1,2) by (meson less_le_trans zero_less_numeral)+
  then show ?thesis using slot_elem_ptr [OF assms(1) _ assms(3)] slot_elem_ptr [OF assms(2) _ assms(4)] assms(5) by metis
qed

text \<open>The block of frames that an object is in.\<close>

definition in_extent :: "phy_record \<Rightarrow> 'l heap \<Rightarrow> nat \<Rightarrow> layout \<Rightarrow> nat \<Rightarrow> nat \<Rightarrow> bool" where
  "in_extent r h p l k i \<longleftrightarrow> phy_used r k i \<and> object_bytes (p, l) \<subseteq> in_frames r (block k i) \<and> l_align l dvd p \<and>
     (if small l then k = 0 \<and> vptr r i \<in> set (elems (full_slabs (the_cache l h))) \<and> p = slot_ptr L (2 ^ slot_exp l) (vptr r i) 0
      else p = vptr r (i * 2 ^ k) \<and> (\<forall>j<8. p \<notin> heap_slabs elems h j))"

lemma in_extentD:
  "in_extent r h p l k i \<Longrightarrow> phy_used r k i" "in_extent r h p l k i \<Longrightarrow> object_bytes (p, l) \<subseteq> in_frames r (block k i)"
  "in_extent r h p l k i \<Longrightarrow> l_align l dvd p"
  by (simp_all add: in_extent_def)

lemma owned_extent:
  assumes inv: "heap_inv L elems h" and own: "owned L elems h p l" and r: "sm_pmm (hp_mem h) = Some r"
  shows "\<exists>k i. in_extent r h p l k i"
proof (cases "small l")
  case True
  have s: "serves l" using own by (simp add: owned_def)
  note e = slot_exp_bounds [OF s True] and N = slot_exp_size [OF s True]
  obtain a where a: "a \<in> set (elems (full_slabs (the_cache l h)))" "p = slot_ptr L (2 ^ slot_exp l) a 0"
    using own True by (auto simp: owned_def small_owned_def)
  have "slab_page r a" by (rule heap_inv_page [OF inv r the_cache_slabs(1) [OF s True] full_in_heap [OF s True a(1)]])
  then obtain x where x: "phy_used r 0 x" "in_frames r (block 0 x) = {a ..< a + 4096}" "a = vptr r x"
    using slab_page_frames by blast
  have al: "4096 dvd a" using x(3) vptr_aligned [OF heap_inv_phy [OF inv r]] by simp
  note ptr = slot_not_page [OF N al]
  have "object_bytes (p, l) \<subseteq> in_frames r (block 0 x)"
    using ptr(2,3) e(3) by (auto simp: object_bytes_def a(2) x(2))
  moreover have "(2::nat) ^ slot_exp l dvd 2 ^ 12" using e(2) by (intro le_imp_power_dvd) simp
  then have "2 ^ slot_exp l dvd (4096::nat)" by simp
  then have "2 ^ slot_exp l dvd a" using al by (rule dvd_trans)
  then have "2 ^ slot_exp l dvd p" using slots_offset_bounds(3) [OF N] by (simp add: a(2) slot_ptr_def)
  then have "l_align l dvd p" using e(4) by (rule dvd_trans [rotated])
  ultimately have "in_extent r h p l 0 x" using True x a by (simp add: in_extent_def)
  then show ?thesis by blast
next
  case False
  have s: "serves l" using own by (simp add: owned_def)
  obtain i where i: "pages_fit r l" "phy_used r (page_exp l) i" "p = vptr r (i * 2 ^ page_exp l)"
    "\<forall>j<8. p \<notin> heap_slabs elems h j" using own False r by (auto simp: owned_def large_owned_def)
  have "phy_inv r" by (rule heap_inv_phy [OF inv r])
  then have "4096 dvd p" using vptr_aligned i(3) by simp
  then have "l_align l dvd p" using s by (auto simp: serves_def intro: dvd_trans)
  moreover have "l_size l \<le> 2 ^ page_exp l * 4096"
  proof -
    have "l_size l \<le> layout_pages l * 4096" unfolding layout_pages_mult by (rule ceil_to_ge)
    also have "\<dots> \<le> 2 ^ page_exp l * 4096" unfolding page_exp_def by (intro mult_le_mono1 pow2_exp_ge)
    finally show ?thesis .
  qed
  then have "object_bytes (p, l) \<subseteq> in_frames r (block (page_exp l) i)"
    by (auto simp: in_frames_block object_bytes_def i(3))
  ultimately have "in_extent r h p l (page_exp l) i" using False i by (simp add: in_extent_def)
  then show ?thesis by blast
qed

lemma owned_bytes_disjoint:
  assumes inv: "heap_inv L elems h" and own: "owned L elems h p l" "owned L elems h q l'" and ne: "p \<noteq> q"
  shows "object_bytes (p, l) \<inter> object_bytes (q, l') = {}"
proof -
  obtain r where r: "sm_pmm (hp_mem h) = Some r" using heap_inv_pmm [OF inv] by blast
  obtain k i where e: "in_extent r h p l k i" using owned_extent [OF inv own(1) r] by blast
  obtain k' j where e': "in_extent r h q l' k' j" using owned_extent [OF inv own(2) r] by blast
  have s: "serves l" "serves l'" using own by (simp_all add: owned_def)
  have "(k, i) \<noteq> (k', j)"
  proof
    assume eq: "(k, i) = (k', j)"
    consider "small l" "small l'" | "small l" "\<not> small l'" | "\<not> small l" "small l'" | "\<not> small l" "\<not> small l'" by blast
    then show False
    proof cases
      case 1
      then have "slot_exp l - 3 = slot_exp l' - 3"
        using e e' eq the_cache_slabs(1) [OF s(1) 1(1)] the_cache_slabs(1) [OF s(2) 1(2)] full_in_heap s
        by (intro heap_invD(3) [OF inv, of _ _ "vptr r i"]) (auto simp: in_extent_def)
      then have "slot_exp l = slot_exp l'" using slot_exp_index s 1 by blast
      then show False using e e' eq 1 ne by (simp add: in_extent_def)
    next
      case 2
      then show False
        using e e' eq the_cache_slabs(1) [OF s(1) 2(1)] full_in_heap [OF s(1) 2(1)] by (auto simp: in_extent_def)
    next
      case 3
      then show False
        using e e' eq the_cache_slabs(1) [OF s(2) 3(2)] full_in_heap [OF s(2) 3(2)] by (auto simp: in_extent_def)
    next
      case 4
      then show False using e e' eq ne by (simp add: in_extent_def)
    qed
  qed
  with in_extentD(1) [OF e] in_extentD(1) [OF e'] have "block k i \<inter> block k' j = {}" by (rule phy.used_disjoint)
  then have "in_frames r (block k i) \<inter> in_frames r (block k' j) = {}" by (rule in_frames_disjoint)
  then show ?thesis using in_extentD(2) [OF e] in_extentD(2) [OF e'] by blast
qed

lemma owned_aligned_spare:
  assumes inv: "heap_inv L elems h" and own: "owned L elems h p l"
  shows "l_align l dvd p \<and> object_bytes (p, l) \<inter> heap_spare h = {}"
proof -
  obtain r where r: "sm_pmm (hp_mem h) = Some r" using heap_inv_pmm [OF inv] by blast
  obtain k i where e: "in_extent r h p l k i" using owned_extent [OF inv own r] by blast
  have "block k i \<inter> phy_free r = {}" by (rule phy.used_not_free [OF in_extentD(1) [OF e]])
  then have "in_frames r (block k i) \<inter> heap_spare h = {}" by (simp add: heap_spare_def r in_frames_disjoint)
  then show ?thesis using in_extentD(2,3) [OF e] by blast
qed

end

section \<open>Operations on one cache\<close>

definition set_cache :: "nat \<Rightarrow> 'l cache \<Rightarrow> slab_mem \<Rightarrow> 'l heap \<Rightarrow> 'l heap" where
  "set_cache i c m h = h\<lparr>hp_caches := (hp_caches h)[i := c], hp_mem := m\<rparr>"

text \<open>A change of the cache \<open>i\<close> that touches only the slab at \<open>a\<close>, which is one of its slabs or a page
  just taken.\<close>

definition cache_change :: "'l slab_lib \<Rightarrow> ('l \<Rightarrow> nat list) \<Rightarrow> nat \<Rightarrow> nat \<Rightarrow> 'l cache \<Rightarrow> slab_mem \<Rightarrow> 'l heap \<Rightarrow> bool" where
  "cache_change L elems i a c m h \<longleftrightarrow> i < 8 \<and> cache_ok L elems (2 ^ (i + 3)) c m \<and>
     cache_slabs elems c = insert a (heap_slabs elems h i) \<and>
     (\<forall>b. b \<noteq> a \<longrightarrow> sm_slabs m b = sm_slabs (hp_mem h) b) \<and>
     (\<exists>r r'. sm_pmm (hp_mem h) = Some r \<and> sm_pmm m = Some r' \<and> pmm_grows r r' \<and> slab_page r' a \<and>
       (a \<in> heap_slabs elems h i \<or> untouched r a))"

lemma set_cache_sel [simp]:
  "hp_mem (set_cache i c m h) = m" "length (hp_caches (set_cache i c m h)) = length (hp_caches h)"
  by (simp_all add: set_cache_def)

lemma heap_slabs_set_cache:
  assumes "length (hp_caches h) = 8" "i < 8"
  shows "heap_slabs elems (set_cache i c m h) j = (if j = i then cache_slabs elems c else heap_slabs elems h j)"
    "the_cache l (set_cache i c m h) = (if slot_exp l - 3 = i then c else the_cache l h)"
  using assms by (auto simp: heap_slabs_def set_cache_def the_cache_def)

context slab_library
begin

lemma change_not_elsewhere:
  assumes inv: "heap_inv L elems h" and ch: "cache_change L elems i a c m h" and j: "j < 8" "j \<noteq> i"
  shows "a \<notin> heap_slabs elems h j"
proof
  assume a: "a \<in> heap_slabs elems h j"
  obtain r where r: "sm_pmm (hp_mem h) = Some r" using heap_inv_pmm [OF inv] by blast
  have page: "slab_page r a" by (rule heap_inv_page [OF inv r j(1) a])
  have "a \<in> heap_slabs elems h i \<or> untouched r a" "i < 8" using ch r by (auto simp: cache_change_def)
  then show False using heap_invD(3) [OF inv _ j(1) _ a] j(2) slab_page_not_untouched [OF page] by blast
qed

lemma change_inv:
  assumes inv: "heap_inv L elems h" and ch: "cache_change L elems i a c m h"
  shows "heap_inv L elems (set_cache i c m h)"
proof -
  let ?h = "set_cache i c m h"
  have i: "i < 8" using ch by (simp add: cache_change_def)
  note len = heap_invD(1) [OF inv] and else = change_not_elsewhere [OF inv ch]
  note slabs = heap_slabs_set_cache(1) [OF len i]
  have same: "sm_slabs m b = sm_slabs (hp_mem h) b" if "b \<noteq> a" for b using ch that by (simp add: cache_change_def)
  have ok: "cache_ok L elems (2 ^ (j + 3)) (hp_caches ?h ! j) m" if "j < 8" for j
  proof (cases "j = i")
    case True
    then show ?thesis using ch len i by (simp add: cache_change_def set_cache_def)
  next
    case False
    have "sm_slabs m b = sm_slabs (hp_mem h) b" if "b \<in> cache_slabs elems (hp_caches h ! j)" for b
      using else [OF \<open>j < 8\<close> False] that by (intro same) (auto simp: heap_slabs_def)
    then show ?thesis using cache_ok_cong [OF heap_invD(2) [OF inv that]] False by (simp add: set_cache_def)
  qed
  have cs: "cache_slabs elems c = insert a (heap_slabs elems h i)" using ch by (simp add: cache_change_def)
  have disj: "heap_slabs elems ?h j \<inter> heap_slabs elems ?h j' = {}" if "j < 8" "j' < 8" "j \<noteq> j'" for j j'
    using that else heap_invD(3) [OF inv] i unfolding slabs cs by (auto split: if_splits)
  obtain r r' where r: "sm_pmm (hp_mem h) = Some r" "sm_pmm m = Some r'" "pmm_grows r r'" "slab_page r' a"
    using ch by (auto simp: cache_change_def)
  note heap_inv_page [OF inv r(1)]
  then have "slab_page r' b" if "j < 8" "b \<in> heap_slabs elems ?h j" for j b
    using that r(3,4) i unfolding slabs cs by (auto intro: slab_page_grows split: if_splits)
  then show ?thesis using len ok disj r by (auto simp: heap_inv_def pmm_grows_def)
qed

text \<open>Objects stay owned through such a change, unless their slab leaves the full list.\<close>

lemma change_owned:
  assumes inv: "heap_inv L elems h" and ch: "cache_change L elems i a c m h" and own: "owned L elems h q l"
    and full: "\<And>b. b \<in> set (elems (full_slabs (hp_caches h ! i))) \<Longrightarrow> q = slot_ptr L (2 ^ (i + 3)) b 0 \<Longrightarrow>
      b \<in> set (elems (full_slabs c))"
  shows "owned L elems (set_cache i c m h) q l"
proof -
  have i: "i < 8" using ch by (simp add: cache_change_def)
  have s: "serves l" using own by (simp add: owned_def)
  note sel = heap_slabs_set_cache [OF heap_invD(1) [OF inv] i]
  obtain r r' where r: "sm_pmm (hp_mem h) = Some r" "sm_pmm m = Some r'" "pmm_grows r r'"
    "a \<in> heap_slabs elems h i \<or> untouched r a" using ch by (auto simp: cache_change_def)
  show ?thesis
  proof (cases "small l")
    case True
    then obtain b where b: "b \<in> set (elems (full_slabs (the_cache l h)))" "q = slot_ptr L (2 ^ slot_exp l) b 0"
      using own by (auto simp: owned_def small_owned_def)
    have e: "slot_exp l - 3 = i \<Longrightarrow> slot_exp l = i + 3" using slot_exp_bounds(1) [OF s True] by linarith
    have "b \<in> set (elems (full_slabs (the_cache l (set_cache i c m h))))"
    proof (cases "slot_exp l - 3 = i")
      case True
      then show ?thesis using full [of b] b e by (simp add: sel(2)) (simp add: the_cache_def)
    qed (use b in \<open>simp add: sel(2)\<close>)
    then show ?thesis using s True b(2) by (auto simp: owned_def small_owned_def)
  next
    case False
    then obtain x where x: "pages_fit r l" "phy_used r (page_exp l) x" "q = vptr r (x * 2 ^ page_exp l)"
      "\<forall>j<8. q \<notin> heap_slabs elems h j" using own r(1) by (auto simp: owned_def large_owned_def)
    have "q \<in> in_frames r (block (page_exp l) x)" by (simp add: in_frames_block x(3))
    then have "\<not> untouched r q" using x(2) by (auto simp: untouched_def)
    then have "q \<noteq> a" using r(4) x(4) i by blast
    then have "q \<notin> heap_slabs elems (set_cache i c m h) j" if "j < 8" for j
      using ch x(4) that unfolding sel(1) by (auto simp: cache_change_def)
    moreover have "pages_fit r' l" "phy_used r' (page_exp l) x" "vptr r' = vptr r"
      using x(1,2) r(3) by (auto simp: pmm_grows_def pages_fit_def intro!: vptr_base)
    ultimately show ?thesis using s False x(3) r(2) by (auto simp: owned_def large_owned_def)
  qed
qed

text \<open>The slab allocator on a small layout.\<close>

lemma slab_allocate_cases:
  assumes inv: "heap_inv L elems h" and l: "serves l" "small l"
  shows "slab_allocate L l h = Inr (None, h) \<or>
    (\<exists>a c m. slab_allocate L l h = Inr (Some (slot_ptr L (2 ^ slot_exp l) a 0, 2 ^ slot_exp l), set_cache (slot_exp l - 3) c m h) \<and>
      cache_change L elems (slot_exp l - 3) a c m h \<and> a \<notin> set (elems (full_slabs (the_cache l h))) \<and>
      set (elems (full_slabs c)) = insert a (set (elems (full_slabs (the_cache l h)))))"
proof -
  let ?c = "the_cache l h" and ?N = "2 ^ slot_exp l :: nat" and ?i = "slot_exp l - 3"
  note e = slot_exp_bounds [OF l] and i = the_cache_slabs(1) [OF l]
  have i3: "?i + 3 = slot_exp l" using e(1) by simp
  obtain r where r: "sm_pmm (hp_mem h) = Some r" "phy_inv r" by (rule heap_inv_pmm [OF inv])
  note pages = heap_inv_page [OF inv r(1)]
  have pg: "\<forall>a \<in> cache_slabs elems ?c. slab_page r a"
    using pages [OF i] by (simp add: heap_slabs_def the_cache_def)
  have run: "slab_allocate L l h = rbind (cache_reserve_untyped L ?N ?c (hp_mem h)) (\<lambda>(ptr, c, m). Inr (ptr, set_cache ?i c m h))"
    using l(1) e(1,2,5) cache_index_ok [OF l heap_invD(1) [OF inv]]
    by (simp add: slab_allocate_def allocate_if_zst_def serves_def MIN_ORDER_def MAX_ORDER_def set_cache_def)
  have same: "set_cache ?i ?c (hp_mem h) h = h" by (simp add: set_cache_def the_cache_def)
  from cache_reserve_law [OF slot_exp_size [OF l] the_cache_ok [OF inv l] r(1,2) pg] show ?thesis
  proof (elim disjE exE conjE)
    assume "cache_reserve L ?N ?c (hp_mem h) = Inr (None, ?c, hp_mem h)"
    then show ?thesis by (simp add: run cache_reserve_untyped_def same)
  next
    fix a c m assume h: "cache_reserve L ?N ?c (hp_mem h) = Inr (Some (slot_ptr L ?N a 0), c, m)"
      "cache_ok L elems ?N c m" "cache_reserved L elems ?N a ?c (hp_mem h) c m"
    have "cache_change L elems ?i a c m h"
      using h(2,3) i i3 by (auto simp: cache_change_def cache_reserved_def heap_slabs_def the_cache_def)
    moreover have "slab_allocate L l h = Inr (Some (slot_ptr L ?N a 0, ?N), set_cache ?i c m h)"
      by (simp add: run cache_reserve_untyped_def h(1) item_layout_def)
    ultimately show ?thesis using h(3) by (auto simp: cache_reserved_def)
  qed
qed

lemma slab_deallocate_law:
  assumes inv: "heap_inv L elems h" and own: "owned L elems h p l" and sm: "small l"
  shows "\<exists>h'. slab_deallocate L p l h = Inr h' \<and> heap_inv L elems h' \<and>
    (\<forall>q l'. owned L elems h q l' \<and> q \<noteq> p \<longrightarrow> owned L elems h' q l')"
proof -
  have l: "serves l" using own by (simp add: owned_def)
  let ?c = "the_cache l h" and ?N = "2 ^ slot_exp l :: nat" and ?i = "slot_exp l - 3"
  note e = slot_exp_bounds [OF l sm] and i = the_cache_slabs(1) [OF l sm]
  have i3: "?i + 3 = slot_exp l" using e(1) by simp
  obtain a where a: "a \<in> set (elems (full_slabs ?c))" "p = slot_ptr L ?N a 0"
    using own sm by (auto simp: owned_def small_owned_def)
  obtain r where r: "sm_pmm (hp_mem h) = Some r" "phy_inv r" by (rule heap_inv_pmm [OF inv])
  note pages = heap_inv_page [OF inv r(1)]
  have in_h: "a \<in> heap_slabs elems h ?i" by (rule full_in_heap [OF l sm a(1)])
  note page = pages [OF i in_h]
  have al: "4096 dvd a" using slab_page_aligned [OF page r(2)] by simp
  let ?m = "put_slab a (slab_new L ?N) (hp_mem h)"
  obtain c where c: "cache_free L ?N p ?c (hp_mem h) = Inr (c, ?m)" "cache_ok L elems ?N c ?m"
    "cache_slabs elems c = cache_slabs elems ?c" "set (elems (full_slabs c)) = set (elems (full_slabs ?c)) - {a}"
    using cache_free_law [OF slot_exp_size [OF l sm] the_cache_ok [OF inv l sm] a(1) al] a(2) by blast
  have ch: "cache_change L elems ?i a c ?m h"
    using c i i3 in_h page r(1) pmm_grows_refl [OF r(2)]
    by (auto simp: cache_change_def heap_slabs_def the_cache_def)
  have "p \<noteq> 0 \<and> p \<noteq> dangling"
    using slot_not_page(2) [OF slot_exp_size [OF l sm] al] slab_page_aligned [OF page r(2)] al
    by (auto simp: a(2) dangling_def dest!: dvd_imp_le)
  then have "slab_deallocate L p l h = Inr (set_cache ?i c ?m h)"
    using l e(1,2,5) cache_index_ok [OF l sm heap_invD(1) [OF inv]] c(1)
    by (simp add: slab_deallocate_def deallocate_if_zst_def serves_def MIN_ORDER_def MAX_ORDER_def set_cache_def)
  moreover have "owned L elems (set_cache ?i c ?m h) q l'" if "owned L elems h q l'" "q \<noteq> p" for q l'
    using that(2) c(4) i3 by (intro change_owned [OF inv ch that(1)]) (auto simp: a(2) the_cache_def)
  ultimately show ?thesis using change_inv [OF inv ch] by blast
qed

end

section \<open>The heap keeps the contract\<close>

lemma with_pmm_sel [simp]:
  "hp_caches (with_pmm pmm h) = hp_caches h" "sm_pmm (hp_mem (with_pmm pmm h)) = pmm"
  "sm_slabs (hp_mem (with_pmm pmm h)) = sm_slabs (hp_mem h)"
  "heap_slabs elems (with_pmm pmm h) = heap_slabs elems h" "the_cache l (with_pmm pmm h) = the_cache l h"
  by (simp_all add: with_pmm_def heap_slabs_def the_cache_def fun_eq_iff)

lemma with_pmm_same: "sm_pmm (hp_mem h) = pmm \<Longrightarrow> with_pmm pmm h = h"
  by (auto simp: with_pmm_def)

lemma with_pmm_inv:
  assumes "heap_inv L elems h" "phy_inv r'" "\<And>i a. i < 8 \<Longrightarrow> a \<in> heap_slabs elems h i \<Longrightarrow> slab_page r' a"
  shows "heap_inv L elems (with_pmm (Some r') h)"
proof -
  have "cache_ok L elems N c (hp_mem (with_pmm (Some r') h))" if "cache_ok L elems N c (hp_mem h)" for N c
    using that by (auto intro: cache_ok_cong)
  then show ?thesis using assms by (auto simp: heap_inv_def)
qed

lemma with_pmm_owned:
  assumes own: "owned L elems h q l" and r: "sm_pmm (hp_mem h) = Some r" and r': "ph_base r' = ph_base r"
    "bs_max_order (ph_buddy r') = bs_max_order (ph_buddy r)"
    and keep: "\<And>k x. phy_used r k x \<Longrightarrow> vptr r (x * 2 ^ k) = q \<Longrightarrow> phy_used r' k x"
  shows "owned L elems (with_pmm (Some r') h) q l"
proof (cases "small l")
  case True
  with own show ?thesis by (simp add: owned_def small_owned_def)
next
  case False
  with own r obtain x where x: "serves l" "pages_fit r l" "phy_used r (page_exp l) x" "q = vptr r (x * 2 ^ page_exp l)"
    "\<forall>j<8. q \<notin> heap_slabs elems h j" by (auto simp: owned_def large_owned_def)
  have "phy_used r' (page_exp l) x" using keep [OF x(3)] x(4) by simp
  moreover have "pages_fit r' l" using x(2) r'(2) by (simp add: pages_fit_def)
  moreover have "vptr r' = vptr r" by (rule vptr_base [OF r'(1)])
  ultimately show ?thesis using False x by (auto simp: owned_def large_owned_def)
qed

context slab_library
begin

lemma heap_alloc_small:
  assumes inv: "heap_inv L elems h" and l: "serves l" "small l"
  shows "\<exists>p h'. global_alloc L l h = Inr (p, h') \<and> heap_inv L elems h' \<and>
    (\<forall>q l'. owned L elems h q l' \<longrightarrow> owned L elems h' q l') \<and>
    (p \<noteq> 0 \<longrightarrow> owned L elems h' p l \<and> (\<forall>l'. \<not> owned L elems h p l'))"
  using slab_allocate_cases [OF inv l]
proof (elim disjE exE conjE)
  assume "slab_allocate L l h = Inr (None, h)"
  then have "global_alloc L l h = Inr (0, h)" using l(2) by (simp add: global_alloc_def global_allocate_def small_def)
  with inv show ?thesis by simp
next
  let ?N = "2 ^ slot_exp l :: nat" and ?i = "slot_exp l - 3"
  fix a c m assume h: "slab_allocate L l h = Inr (Some (slot_ptr L ?N a 0, ?N), set_cache ?i c m h)"
    "cache_change L elems ?i a c m h" "a \<notin> set (elems (full_slabs (the_cache l h)))"
    "set (elems (full_slabs c)) = insert a (set (elems (full_slabs (the_cache l h))))"
  let ?h = "set_cache ?i c m h" and ?p = "slot_ptr L ?N a 0"
  note i = the_cache_slabs(1) [OF l]
  have "global_alloc L l h = Inr (?p, ?h)" using h(1) l(2) by (simp add: global_alloc_def global_allocate_def small_def)
  moreover have "owned L elems ?h q l'" if "owned L elems h q l'" for q l'
    using h(4) by (intro change_owned [OF inv h(2) that]) (simp add: the_cache_def)
  moreover have "owned L elems ?h ?p l"
    using l h(4) heap_slabs_set_cache(2) [OF heap_invD(1) [OF inv] i] by (auto simp: owned_def small_owned_def)
  moreover have "\<not> owned L elems h ?p l'" for l'
  proof
    assume own: "owned L elems h ?p l'"
    obtain r r' where r: "sm_pmm (hp_mem h) = Some r" "pmm_grows r r'" "slab_page r' a"
      "a \<in> heap_slabs elems h ?i \<or> untouched r a" using h(2) by (auto simp: cache_change_def)
    have al: "4096 dvd a" using r(2,3) slab_page_aligned by (auto simp: pmm_grows_def)
    obtain k x where e: "in_extent r h ?p l' k x" using owned_extent [OF inv own r(1)] by blast
    have s: "serves l'" using own by (simp add: owned_def)
    have inv_r: "phy_inv r" by (rule heap_inv_phy [OF inv r(1)])
    show False
    proof (cases "small l'")
      case True
      then have b: "vptr r x \<in> set (elems (full_slabs (the_cache l' h)))" "?p = slot_ptr L (2 ^ slot_exp l') (vptr r x) 0"
        using e by (simp_all add: in_extent_def)
      have a: "a = vptr r x"
        by (rule slot_same_page [OF slot_exp_size [OF l] slot_exp_size [OF s True] al vptr_aligned [OF inv_r] b(2)])
      then have in_h: "a \<in> heap_slabs elems h (slot_exp l' - 3)" using full_in_heap [OF s True b(1)] by simp
      then have "slab_page r a" by (rule heap_inv_page [OF inv r(1) the_cache_slabs(1) [OF s True]])
      then have "a \<in> heap_slabs elems h ?i" using r(4) slab_page_not_untouched by blast
      then have "?i = slot_exp l' - 3" using heap_invD(3) [OF inv i the_cache_slabs(1) [OF s True] _ in_h] by blast
      then show False using h(3) b(1) a by (simp add: the_cache_def)
    next
      case False
      then have "4096 dvd ?p" using e vptr_aligned [OF inv_r] by (simp add: in_extent_def)
      then show False using slot_not_page(1) [OF slot_exp_size [OF l] al] by blast
    qed
  qed
  ultimately show ?thesis using change_inv [OF inv h(2)] by blast
qed

lemma heap_alloc_large:
  assumes inv: "heap_inv L elems h" and l: "serves l" "\<not> small l"
  shows "\<exists>p h'. global_alloc L l h = Inr (p, h') \<and> heap_inv L elems h' \<and>
    (\<forall>q l'. owned L elems h q l' \<longrightarrow> owned L elems h' q l') \<and>
    (p \<noteq> 0 \<longrightarrow> owned L elems h' p l \<and> (\<forall>l'. \<not> owned L elems h p l'))"
proof -
  obtain r where r: "sm_pmm (hp_mem h) = Some r" "phy_inv r" by (rule heap_inv_pmm [OF inv])
  note pages = heap_inv_page [OF inv r(1)]
  let ?k = "page_exp l"
  have run: "global_alloc L l h = rbind (page_allocate l (Some r)) (\<lambda>(ptr, pmm).
      Inr (case ptr of None \<Rightarrow> 0 | Some (p, _) \<Rightarrow> p, with_pmm pmm h))"
    using l(2) r(1) by (cases "page_allocate l (Some r)") (auto simp: global_alloc_def global_allocate_def small_def)
  have "page_allocate l (Some r) = Inr (None, Some r) \<or>
    (\<exists>i r'. pages_fit r l \<and> page_allocate l (Some r) = Inr (Some (vptr r (i * 2 ^ ?k), 2 ^ ?k * 4096), Some r') \<and>
      phy_inv r' \<and> bs_max_order (ph_buddy r') = bs_max_order (ph_buddy r) \<and> ph_base r' = ph_base r \<and>
      block ?k i \<subseteq> phy_free r \<and> phy_free r' = phy_free r - block ?k i \<and>
      phy_used r' ?k i \<and> (\<forall>k' j. phy_used r k' j \<longrightarrow> phy_used r' k' j))"
  proof (cases "pages_fit r l")
    case True
    then show ?thesis using page_allocate_ptr [OF r(2) True, folded page_exp_def] by blast
  next
    case False
    then show ?thesis using page_allocate_too_large [OF r(2)] l(1) by (simp add: serves_def)
  qed
  then show ?thesis
  proof (elim disjE exE conjE)
    assume "page_allocate l (Some r) = Inr (None, Some r)"
    then have "global_alloc L l h = Inr (0, h)" using r(1) by (simp add: run with_pmm_same)
    with inv show ?thesis by simp
  next
    fix i r'
    assume g: "pages_fit r l" "page_allocate l (Some r) = Inr (Some (vptr r (i * 2 ^ ?k), 2 ^ ?k * 4096), Some r')"
      "phy_inv r'" "bs_max_order (ph_buddy r') = bs_max_order (ph_buddy r)" "ph_base r' = ph_base r"
      "block ?k i \<subseteq> phy_free r" "phy_free r' = phy_free r - block ?k i" "phy_used r' ?k i"
      "\<forall>k' j. phy_used r k' j \<longrightarrow> phy_used r' k' j"
    let ?p = "vptr r (i * 2 ^ ?k)" and ?h = "with_pmm (Some r') h"
    have vp: "vptr r' = vptr r" by (rule vptr_base [OF g(5)])
    have new: "untouched r ?p" using free_untouched [OF g(6)] by (simp add: in_frames_block)
    have run': "global_alloc L l h = Inr (?p, ?h)" by (simp add: run g(2))
    have grow: "pmm_grows r r'" using g by (auto simp: pmm_grows_def)
    have inv': "heap_inv L elems ?h" using pages slab_page_grows grow by (intro with_pmm_inv [OF inv g(3)]) blast
    have fresh: "?p \<notin> heap_slabs elems h j" if "j < 8" for j
      using pages [OF that] new slab_page_not_untouched by blast
    have own: "owned L elems ?h ?p l"
      using l g(1,4,8) fresh by (auto simp: owned_def large_owned_def vp pages_fit_def)
    have keep: "owned L elems ?h q l'" if "owned L elems h q l'" for q l'
      using g(9) by (intro with_pmm_owned [OF that r(1) g(5,4)]) blast
    have "\<not> owned L elems h ?p l'" for l'
    proof
      assume o: "owned L elems h ?p l'"
      then obtain k x where e: "in_extent r h ?p l' k x" using owned_extent [OF inv _ r(1)] by blast
      have "?p \<in> object_bytes (?p, l')" using o by (simp add: object_bytes_def owned_def serves_def)
      then show False using in_extentD(1,2) [OF e] new by (auto simp: untouched_def)
    qed
    with run' inv' own keep show ?thesis by blast
  qed
qed

lemma heap_dealloc_large:
  assumes inv: "heap_inv L elems h" and own: "owned L elems h p l" "\<not> small l"
  shows "\<exists>h'. global_deallocate L p l h = Inr h' \<and> heap_inv L elems h' \<and>
    (\<forall>q l'. owned L elems h q l' \<and> q \<noteq> p \<longrightarrow> owned L elems h' q l')"
proof -
  obtain r where r: "sm_pmm (hp_mem h) = Some r" "phy_inv r" by (rule heap_inv_pmm [OF inv])
  note pages = heap_inv_page [OF inv r(1)]
  obtain i where i: "pages_fit r l" "phy_used r (page_exp l) i" "p = vptr r (i * 2 ^ page_exp l)"
    "\<forall>j<8. p \<notin> heap_slabs elems h j" using own r(1) by (auto simp: owned_def large_owned_def)
  obtain r' where r': "page_deallocate p l (Some r) = Inr (Some r')" "phy_inv r'"
    "bs_max_order (ph_buddy r') = bs_max_order (ph_buddy r)" "ph_base r' = ph_base r"
    "\<forall>k' j. phy_used r k' j \<and> (k', j) \<noteq> (page_exp l, i) \<longrightarrow> phy_used r' k' j"
    using page_deallocate_ptr [OF r(2) i(1,2)] page_exp_def [of l] unfolding i(3) by blast
  have vp: "vptr r' = vptr r" by (rule vptr_base [OF r'(4)])
  have keep: "phy_used r' k x" if "phy_used r k x" "vptr r (x * 2 ^ k) \<noteq> p" for k x
    using r'(5) that i(3) by blast
  have "slab_page r' a" if a: "j < 8" "a \<in> heap_slabs elems h j" for j a
  proof -
    obtain x where x: "phy_used r 0 x" "a = vptr r x" using pages [OF a] by (auto simp: slab_page_def)
    then have "vptr r (x * 2 ^ 0) \<noteq> p" using i(4) a by auto
    then show ?thesis using keep [OF x(1)] x(2) by (auto simp: slab_page_def vp)
  qed
  then have "heap_inv L elems (with_pmm (Some r') h)" by (rule with_pmm_inv [OF inv r'(2)])
  moreover have "owned L elems (with_pmm (Some r') h) q l'" if o: "owned L elems h q l'" "q \<noteq> p" for q l'
    using o(2) by (intro with_pmm_owned [OF o(1) r(1) r'(4,3)]) (blast intro: keep)
  moreover have "global_deallocate L p l h = Inr (with_pmm (Some r') h)"
    using own(2) r(1) r'(1) by (simp add: global_deallocate_def small_def)
  ultimately show ?thesis by blast
qed

lemma heap_dealloc_law:
  assumes inv: "heap_inv L elems h" and own: "owned L elems h p l"
  shows "\<exists>h'. global_dealloc L p l h = Inr h' \<and> heap_inv L elems h' \<and>
    (\<forall>q l'. owned L elems h q l' \<and> q \<noteq> p \<longrightarrow> owned L elems h' q l')"
proof (cases "p = 0")
  case True
  then show ?thesis using inv by (auto simp: global_dealloc_def)
next
  case False
  then show ?thesis
    using heap_dealloc_large [OF inv own] slab_deallocate_law [OF inv own]
    by (cases "small l") (auto simp: global_dealloc_def global_deallocate_def small_def)
qed

end

sublocale slab_library \<subseteq> heap: object_allocator "heap_inv L elems" serves heap_spare "owned L elems" "global_alloc L" "global_dealloc L"
proof
  fix h l assume "heap_inv L elems h" "serves l"
  then show "\<exists>p h'. global_alloc L l h = Inr (p, h') \<and> heap_inv L elems h' \<and>
      (\<forall>q l'. owned L elems h q l' \<longrightarrow> owned L elems h' q l') \<and>
      (p \<noteq> 0 \<longrightarrow> owned L elems h' p l \<and> (\<forall>l'. \<not> owned L elems h p l'))"
    using heap_alloc_small heap_alloc_large by (cases "small l") simp_all
next
  fix h p l assume "heap_inv L elems h" "owned L elems h p l"
  then show "\<exists>h'. global_dealloc L p l h = Inr h' \<and> heap_inv L elems h' \<and>
      (\<forall>q l'. owned L elems h q l' \<and> q \<noteq> p \<longrightarrow> owned L elems h' q l')" by (rule heap_dealloc_law)
next
  fix h p l assume "heap_inv L elems h" "owned L elems h p l"
  then show "l_align l dvd p \<and> object_bytes (p, l) \<inter> heap_spare h = {}" by (rule owned_aligned_spare)
next
  fix h p l q l' assume "heap_inv L elems h" "owned L elems h p l" "owned L elems h q l'" "p \<noteq> q"
  then show "object_bytes (p, l) \<inter> object_bytes (q, l') = {}" by (rule owned_bytes_disjoint)
qed

section \<open>Properties\<close>

context slab_library
begin

text \<open>The allocator starts with no slab.\<close>

lemma heap_inv_start:
  assumes "phy_inv r"
  shows "heap_inv L elems (slab_record_new L \<lparr>sm_slabs = slabs, sm_pmm = Some r\<rparr>)"
proof -
  let ?h = "slab_record_new L \<lparr>sm_slabs = slabs, sm_pmm = Some r\<rparr>"
  have c: "hp_caches ?h ! i = untyped_cache_new L" if "i < 8" for i
    using that by (simp add: slab_record_new_def CACHES_CNT_def MAX_ORDER_def MIN_ORDER_def)
  then have "heap_slabs elems ?h i = {}" if "i < 8" for i
    using that by (simp add: heap_slabs_def cache_slabs_def untyped_cache_new_def elems_new)
  moreover have "cache_ok L elems N (untyped_cache_new L) m" for N m
    by (simp add: cache_ok_def untyped_cache_new_def elems_new)
  moreover have "length (hp_caches ?h) = 8" "sm_pmm (hp_mem ?h) = Some r"
    by (simp_all add: slab_record_new_def CACHES_CNT_def MAX_ORDER_def MIN_ORDER_def)
  ultimately show ?thesis using c assms by (simp add: heap_inv_def)
qed

lemma heap_run_start:
  assumes "phy_inv r" "\<forall>q \<in> set reqs. heap_request_ok serves q"
  shows "\<exists>h alive. heap_run (global_alloc L) (global_dealloc L) reqs
      (slab_record_new L \<lparr>sm_slabs = slabs, sm_pmm = Some r\<rparr>, []) = Inr (h, alive) \<and> heap_inv L elems h \<and>
    heap.alive_ok h alive"
  by (rule heap.run_alive [OF heap_inv_start [OF assms(1)] _ assms(2)]) (simp add: heap.alive_ok_def)

lemma heap_run_safe:
  assumes "phy_inv r" "\<forall>q \<in> set reqs. heap_request_ok serves q"
  shows "\<exists>h alive. heap_run (global_alloc L) (global_dealloc L) reqs
      (slab_record_new L \<lparr>sm_slabs = slabs, sm_pmm = Some r\<rparr>, []) = Inr (h, alive) \<and> distinct (map fst alive) \<and>
    (\<forall>ob \<in> set alive. l_align (snd ob) dvd fst ob \<and> object_bytes ob \<inter> heap_spare h = {} \<and>
      (\<forall>ob' \<in> set alive. ob \<noteq> ob' \<longrightarrow> object_bytes ob \<inter> object_bytes ob' = {}))"
  using heap.run_from_start [OF heap_inv_start [OF assms(1)] assms(2)] by blast

text \<open>Two small objects are never in the same page.\<close>

lemma small_pages_differ:
  assumes inv: "heap_inv L elems h" and own: "owned L elems h p l" "owned L elems h q l'" and sm: "small l" "small l'"
    and ne: "p \<noteq> q"
  shows "p div 4096 \<noteq> q div 4096"
proof
  assume eq: "p div 4096 = q div 4096"
  obtain r where r: "sm_pmm (hp_mem h) = Some r" "phy_inv r" by (rule heap_inv_pmm [OF inv])
  have s: "serves l" "serves l'" using own by (simp_all add: owned_def)
  obtain i where i: "vptr r i \<in> set (elems (full_slabs (the_cache l h)))" "p = slot_ptr L (2 ^ slot_exp l) (vptr r i) 0"
    using owned_extent [OF inv own(1) r(1)] sm by (auto simp: in_extent_def)
  obtain j where j: "vptr r j \<in> set (elems (full_slabs (the_cache l' h)))" "q = slot_ptr L (2 ^ slot_exp l') (vptr r j) 0"
    using owned_extent [OF inv own(2) r(1)] sm by (auto simp: in_extent_def)
  have page: "slot_ptr L N a 0 div 4096 * 4096 = a" if "slot_size_ok N" "4096 dvd a" for N a
  proof -
    have "0 < SLOTS_LEN L N" using slots_len_bounds(1) [OF that(1)] by simp
    from slot_elem_ptr [OF that(1) this that(2)] show ?thesis by (simp add: from_elem_ptr_def minus_mod_eq_div_mult)
  qed
  have "vptr r i = vptr r j"
    using page [OF slot_exp_size [OF s(1) sm(1)] vptr_aligned [OF r(2), of i]]
      page [OF slot_exp_size [OF s(2) sm(2)] vptr_aligned [OF r(2), of j]] eq i(2) j(2) by simp
  moreover from this have "slot_exp l - 3 = slot_exp l' - 3"
    using heap_invD(3) [OF inv the_cache_slabs(1) [OF s(1) sm(1)] the_cache_slabs(1) [OF s(2) sm(2)]]
      full_in_heap [OF s(1) sm(1) i(1)] full_in_heap [OF s(2) sm(2) j(1)] by simp
  then have "slot_exp l = slot_exp l'" by (rule slot_exp_index [OF s(1) sm(1) s(2) sm(2)])
  ultimately show False using i(2) j(2) ne by simp
qed

lemma heap_run_pages:
  assumes "phy_inv r" "\<forall>q \<in> set reqs. heap_request_ok serves q"
  shows "\<exists>h alive. heap_run (global_alloc L) (global_dealloc L) reqs
      (slab_record_new L \<lparr>sm_slabs = slabs, sm_pmm = Some r\<rparr>, []) = Inr (h, alive) \<and>
    (\<forall>ob \<in> set alive. \<forall>ob' \<in> set alive. ob \<noteq> ob' \<and> small (snd ob) \<and> small (snd ob') \<longrightarrow>
      fst ob div 4096 \<noteq> fst ob' div 4096)"
proof -
  obtain h alive where run: "heap_run (global_alloc L) (global_dealloc L) reqs
      (slab_record_new L \<lparr>sm_slabs = slabs, sm_pmm = Some r\<rparr>, []) = Inr (h, alive)"
    and inv: "heap_inv L elems h" and alive: "heap.alive_ok h alive"
    using heap_run_start [OF assms, of slabs] by blast
  have "fst ob div 4096 \<noteq> fst ob' div 4096"
    if "ob \<in> set alive" "ob' \<in> set alive" "ob \<noteq> ob'" "small (snd ob)" "small (snd ob')" for ob ob'
  proof -
    have "owned L elems h (fst ob) (snd ob)" "owned L elems h (fst ob') (snd ob')" "fst ob \<noteq> fst ob'"
      using alive that by (auto simp: heap.alive_ok_def distinct_map inj_on_def)
    then show ?thesis using small_pages_differ [OF inv] that(4,5) by blast
  qed
  with run show ?thesis by blast
qed

end

text \<open>C3. The kernel heap is safe to use.  Over any sequence of allocations with layouts that are not empty
  and aligned to at most a page, and of deallocations of objects still alive, starting from a new slab
  allocator on a well-formed physical memory record, neither \<^verbatim>\<open>GlobalAlloc::alloc\<close> nor
  \<^verbatim>\<open>GlobalAlloc::dealloc\<close> panics; every object alive has the alignment asked for; no two of them overlap,
  whether they are served by slabs or by whole pages; and none overlaps a frame that is still free.\<close>

theorem heap_client_run:
  assumes "slab_library L elems" "phy_inv r" "\<forall>q \<in> set reqs. heap_request_ok serves q"
  shows "\<exists>h alive. heap_run (global_alloc L) (global_dealloc L) reqs
      (slab_record_new L \<lparr>sm_slabs = slabs, sm_pmm = Some r\<rparr>, []) = Inr (h, alive) \<and> distinct (map fst alive) \<and>
    (\<forall>ob \<in> set alive. l_align (snd ob) dvd fst ob \<and> object_bytes ob \<inter> heap_spare h = {} \<and>
      (\<forall>ob' \<in> set alive. ob \<noteq> ob' \<longrightarrow> object_bytes ob \<inter> object_bytes ob' = {}))"
  using assms by (rule slab_library.heap_run_safe)

text \<open>An object of two pages and a small one; the first is freed again and another small one allocated.\<close>

definition some_requests :: "heap_request list" where
  "some_requests = [Alloc \<lparr>l_size = 5000, l_align = 16\<rparr>, Alloc \<lparr>l_size = 24, l_align = 8\<rparr>,
     Dealloc 1, Alloc \<lparr>l_size = 3, l_align = 1\<rparr>]"

lemma some_requests_ok: "\<forall>q \<in> set some_requests. heap_request_ok serves q"
proof -
  have "layout_wf \<lparr>l_size = n, l_align = 2 ^ k\<rparr>" if "k < 5" "n \<le> 5000" for n k
  proof -
    have "(2::nat) ^ k \<le> 2 ^ 5" using that(1) by (intro power_increasing) simp_all
    then have "ceil_to n (2 ^ k) < 6000" using ceil_to_less [of "2 ^ k" n] that(2) by simp
    then show ?thesis using that(1) by (auto simp: layout_wf_def isize_limit_def)
  qed
  from this [of 3 24] this [of 0 3] this [of 4 5000] show ?thesis by (simp add: some_requests_def serves_def)
qed

theorem heap_client_run_witness:
  "\<exists>h alive. heap_run (global_alloc plain_lib) (global_dealloc plain_lib) some_requests
      (slab_record_new plain_lib \<lparr>sm_slabs = (\<lambda>_. slab_new plain_lib 8), sm_pmm = Some four_pages\<rparr>, []) = Inr (h, alive) \<and>
    distinct (map fst alive) \<and>
    (\<forall>ob \<in> set alive. l_align (snd ob) dvd fst ob \<and> object_bytes ob \<inter> heap_spare h = {} \<and>
      (\<forall>ob' \<in> set alive. ob \<noteq> ob' \<longrightarrow> object_bytes ob \<inter> object_bytes ob' = {}))"
  by (rule heap_client_run [OF plain.slab_library_axioms four_pages_inv some_requests_ok])

text \<open>C38. Every small object takes a page of its own.  In every state the heap can reach, two different
  objects that are served by slabs lie in different pages, although a slab has at least two slots: a slab
  with one slot taken already counts as full.\<close>

theorem small_objects_own_pages:
  assumes "slab_library L elems" "phy_inv r" "\<forall>q \<in> set reqs. heap_request_ok serves q"
  shows "\<exists>h alive. heap_run (global_alloc L) (global_dealloc L) reqs
      (slab_record_new L \<lparr>sm_slabs = slabs, sm_pmm = Some r\<rparr>, []) = Inr (h, alive) \<and>
    (\<forall>ob \<in> set alive. \<forall>ob' \<in> set alive. ob \<noteq> ob' \<and> small (snd ob) \<and> small (snd ob') \<longrightarrow>
      fst ob div 4096 \<noteq> fst ob' div 4096)"
  using assms by (rule slab_library.heap_run_pages)

theorem small_objects_own_pages_witness:
  "\<exists>h alive. heap_run (global_alloc plain_lib) (global_dealloc plain_lib) some_requests
      (slab_record_new plain_lib \<lparr>sm_slabs = (\<lambda>_. slab_new plain_lib 8), sm_pmm = Some four_pages\<rparr>, []) = Inr (h, alive) \<and>
    (\<forall>ob \<in> set alive. \<forall>ob' \<in> set alive. ob \<noteq> ob' \<and> small (snd ob) \<and> small (snd ob') \<longrightarrow>
      fst ob div 4096 \<noteq> fst ob' div 4096)"
  by (rule small_objects_own_pages [OF plain.slab_library_axioms four_pages_inv some_requests_ok])

end
