(* ===== verification/Interrupt_Guard.thy ===== *)
theory Interrupt_Guard
  imports Koe_Prelude
begin

text \<open>
  The reentrant interrupt lock \<^verbatim>\<open>InterruptGuard\<close> of \<^verbatim>\<open>src/src/interrupt.rs\<close>.

  Making and dropping a guard are two instructions each, and an interrupt can come between any two
  instructions while interrupts are on.  The model is therefore a step relation on the interrupt flag,
  the counter of guards and the contexts running on the processor, the innermost one first.
\<close>

section \<open>The operations\<close>

record irq_state =
  interrupts_on :: bool
  guard_cnt :: "64 word"

definition enable_interrupt :: "irq_state \<Rightarrow> irq_state" where
  "enable_interrupt s = s\<lparr>interrupts_on := True\<rparr>"

definition disable_interrupt :: "irq_state \<Rightarrow> irq_state" where
  "disable_interrupt s = s\<lparr>interrupts_on := False\<rparr>"

text \<open>\<^verbatim>\<open>fetch_add\<close> and \<^verbatim>\<open>fetch_sub\<close> wrap around and answer the value before.\<close>

definition guard_fetch_add :: "irq_state \<Rightarrow> irq_state" where
  "guard_fetch_add s = s\<lparr>guard_cnt := guard_cnt s + 1\<rparr>"

definition guard_fetch_sub :: "irq_state \<Rightarrow> 64 word \<times> irq_state" where
  "guard_fetch_sub s = (guard_cnt s, s\<lparr>guard_cnt := guard_cnt s - 1\<rparr>)"

definition guard_drop_end :: "64 word \<Rightarrow> irq_state \<Rightarrow> irq_state" where
  "guard_drop_end prev_cnt s = (if prev_cnt = 1 then enable_interrupt s else s)"

definition guard_new :: "irq_state \<Rightarrow> irq_state" where
  "guard_new s = guard_fetch_add (disable_interrupt s)"

definition guard_drop :: "irq_state \<Rightarrow> irq_state" where
  "guard_drop s = (let (prev_cnt, s) = guard_fetch_sub s in guard_drop_end prev_cnt s)"

lemmas guard_defs = enable_interrupt_def disable_interrupt_def guard_fetch_add_def guard_fetch_sub_def guard_drop_end_def

section \<open>Interleaving\<close>

text \<open>A context has a number of guards alive and is between two instructions of \<^verbatim>\<open>new\<close>, of \<^verbatim>\<open>drop\<close> (with
  the value \<^verbatim>\<open>fetch_sub\<close> answered) or of neither.  An interrupt starts a context of its own; the gates
  are trap gates, which leave the flag on, and the return from the interrupt restores the flag.\<close>

datatype progress = Running | Entering | Leaving "64 word"

type_synonym context_state = "nat \<times> progress"

inductive guard_step :: "irq_state \<times> context_state list \<Rightarrow> irq_state \<times> context_state list \<Rightarrow> bool" where
  cli: "guard_step (s, (n, Running) # cs) (disable_interrupt s, (n, Entering) # cs)"
| add: "n + 1 < 2 ^ 64 \<Longrightarrow> guard_step (s, (n, Entering) # cs) (guard_fetch_add s, (n + 1, Running) # cs)"
| sub: "guard_step (s, (Suc n, Running) # cs) (snd (guard_fetch_sub s), (n, Leaving (fst (guard_fetch_sub s))) # cs)"
| sti: "guard_step (s, (n, Leaving prev) # cs) (guard_drop_end prev s, (n, Running) # cs)"
| irq: "interrupts_on s \<Longrightarrow> guard_step (s, c # cs) (s, (0, Running) # c # cs)"
| iret: "guard_step (s, (0, Running) # c # cs) (enable_interrupt s, c # cs)"

inductive_cases guard_stepE: "guard_step (s, cs) st"

text \<open>The instructions make up the two operations.\<close>

lemma guard_new_steps:
  "n + 1 < 2 ^ 64 \<Longrightarrow> guard_step\<^sup>*\<^sup>* (s, (n, Running) # cs) (guard_new s, (n + 1, Running) # cs)"
  using cli [of s n cs] add [of n "disable_interrupt s" cs] by (simp add: guard_new_def)

lemma guard_drop_steps:
  "guard_step\<^sup>*\<^sup>* (s, (Suc n, Running) # cs) (guard_drop s, (n, Running) # cs)"
  using sub [of s n cs] sti [of "snd (guard_fetch_sub s)" n "fst (guard_fetch_sub s)" cs]
  by (simp add: guard_drop_def guard_fetch_sub_def)

section \<open>The invariant\<close>

text \<open>Only the innermost context can hold guards, and the counter is their number.\<close>

fun guard_inv :: "irq_state \<times> context_state list \<Rightarrow> bool" where
  "guard_inv (s, []) \<longleftrightarrow> False"
| "guard_inv (s, (n, pc) # cs) \<longleftrightarrow> (\<forall>c \<in> set cs. c = (0, Running)) \<and> n < 2 ^ 64 \<and> guard_cnt s = word_of_nat n \<and>
     (case pc of Running \<Rightarrow> interrupts_on s \<longleftrightarrow> n = 0
      | Entering \<Rightarrow> \<not> interrupts_on s
      | Leaving prev \<Rightarrow> \<not> interrupts_on s \<and> Suc n < 2 ^ 64 \<and> prev = word_of_nat (Suc n))"

lemma unat_guards: "n < 2 ^ 64 \<Longrightarrow> unat (word_of_nat n :: 64 word) = n"
  by (simp add: unsigned_of_nat take_bit_nat_eq_self)

lemma prev_is_one: "Suc n < 2 ^ 64 \<Longrightarrow> word_of_nat (Suc n) = (1 :: 64 word) \<longleftrightarrow> n = 0"
  using unat_guards [of "Suc n"] by (metis One_nat_def Suc_inject unat_1 word_unat_eq_iff)

lemma guard_inv_step: "guard_step st st' \<Longrightarrow> guard_inv st \<Longrightarrow> guard_inv st'"
proof (induction rule: guard_step.induct)
  case (sti s n prev cs)
  then show ?case using prev_is_one [of n] by (auto simp: guard_defs)
qed (auto simp: guard_defs split: progress.splits)

lemma guard_inv_reachable:
  assumes "guard_step\<^sup>*\<^sup>* (\<lparr>interrupts_on = True, guard_cnt = 0\<rparr>, [(0, Running)]) st"
  shows "guard_inv st"
  using assms by (induction rule: rtranclp_induct) (auto intro: guard_inv_step)

section \<open>Properties\<close>

text \<open>C8. A guard guarantees that interrupts are off.  Take any interleaving of making and dropping guards,
  of interrupts between any two instructions, of handlers that use guards themselves, and of returns
  from them, starting with interrupts on and no guard.  While any context holds a guard, interrupts
  are off and no handler can start; the counter is the number of guards alive; and as soon as all
  guards are dropped interrupts are on again.\<close>

theorem guard_keeps_interrupts_off:
  assumes "guard_step\<^sup>*\<^sup>* (\<lparr>interrupts_on = True, guard_cnt = 0\<rparr>, [(0, Running)]) (s, cs)"
  shows "((\<exists>c \<in> set cs. 0 < fst c) \<longrightarrow> \<not> interrupts_on s \<and> (\<forall>s'. \<not> guard_step (s, cs) (s', (0, Running) # cs))) \<and>
    unat (guard_cnt s) = sum_list (map fst cs) \<and> ((\<forall>c \<in> set cs. c = (0, Running)) \<longrightarrow> interrupts_on s)"
proof -
  obtain n pc rest where cs: "cs = (n, pc) # rest" and inv: "guard_inv (s, (n, pc) # rest)"
    using guard_inv_reachable [OF assms] by (cases "(s, cs)" rule: guard_inv.cases) auto
  have rest: "sum_list (map fst rest) = 0" using inv by (auto simp: sum_list_eq_0_iff)
  have "0 < n \<longrightarrow> \<not> interrupts_on s" using inv by (auto split: progress.splits)
  moreover have "(\<exists>c \<in> set cs. 0 < fst c) \<longleftrightarrow> 0 < n" using inv cs by auto
  moreover have "interrupts_on s" if "guard_step (s, cs) (s', (0, Running) # cs)" for s'
    using that by (rule guard_stepE) (auto dest: arg_cong [of _ _ length])
  moreover have "unat (guard_cnt s) = sum_list (map fst cs)"
    using inv cs rest unat_guards [of n] by simp
  moreover have "(\<forall>c \<in> set cs. c = (0, Running)) \<longrightarrow> interrupts_on s" using inv cs by auto
  ultimately show ?thesis by blast
qed

text \<open>A handler that makes two guards and drops one.\<close>

definition two_guards :: irq_state where
  "two_guards = guard_drop (guard_new (guard_new \<lparr>interrupts_on = True, guard_cnt = 0\<rparr>))"

lemma two_guards_reachable:
  "guard_step\<^sup>*\<^sup>* (\<lparr>interrupts_on = True, guard_cnt = 0\<rparr>, [(0, Running)]) (two_guards, [(1, Running), (0, Running)])"
proof -
  let ?s = "\<lparr>interrupts_on = True, guard_cnt = 0\<rparr> :: irq_state"
  have "guard_step\<^sup>*\<^sup>* (?s, [(0, Running)]) (?s, [(0, Running), (0, Running)])" by (intro r_into_rtranclp irq) simp
  also have "guard_step\<^sup>*\<^sup>* (?s, [(0, Running), (0, Running)]) (guard_new ?s, [(1, Running), (0, Running)])"
    using guard_new_steps [of 0 ?s] by simp
  also have "guard_step\<^sup>*\<^sup>* (guard_new ?s, [(1, Running), (0, Running)]) (guard_new (guard_new ?s), [(Suc 1, Running), (0, Running)])"
    using guard_new_steps [of 1 "guard_new ?s"] by simp
  also have "guard_step\<^sup>*\<^sup>* (guard_new (guard_new ?s), [(Suc 1, Running), (0, Running)]) (two_guards, [(1, Running), (0, Running)])"
    using guard_drop_steps [of "guard_new (guard_new ?s)" 1] by (simp add: two_guards_def)
  finally show ?thesis .
qed

theorem guard_keeps_interrupts_off_witness:
  "\<not> interrupts_on two_guards \<and> unat (guard_cnt two_guards) = 1 \<and> interrupts_on (guard_drop two_guards)"
proof -
  have "guard_step\<^sup>*\<^sup>* (\<lparr>interrupts_on = True, guard_cnt = 0\<rparr>, [(0, Running)]) (guard_drop two_guards, [(0, Running), (0, Running)])"
    by (rule rtranclp_trans [OF two_guards_reachable]) (use guard_drop_steps [of two_guards 0 "[(0, Running)]"] in simp)
  from guard_keeps_interrupts_off [OF this] guard_keeps_interrupts_off [OF two_guards_reachable]
  show ?thesis by simp
qed

end
