(* ===== verification/Keyboard.thy ===== *)
theory Keyboard
  imports Koe_Prelude
begin

text \<open>
  Key codes, the virtual keyboard and the scan code parser: \<^verbatim>\<open>src/src/io/keyboard.rs\<close>, the parser of
  \<^verbatim>\<open>src/src/drivers/ps2.rs\<close> and the translation to characters of \<^verbatim>\<open>src/src/io/monitor.rs\<close>.

  A packet is a key code, a \<^verbatim>\<open>u16\<close>, with whether the key was pressed or released.
\<close>

section \<open>Key codes\<close>

definition KEY_RESERVED :: nat where "KEY_RESERVED = 0"
definition KEY_ESC :: nat where "KEY_ESC = 1"
definition KEY_1 :: nat where "KEY_1 = 2"
definition KEY_2 :: nat where "KEY_2 = 3"
definition KEY_3 :: nat where "KEY_3 = 4"
definition KEY_4 :: nat where "KEY_4 = 5"
definition KEY_5 :: nat where "KEY_5 = 6"
definition KEY_6 :: nat where "KEY_6 = 7"
definition KEY_7 :: nat where "KEY_7 = 8"
definition KEY_8 :: nat where "KEY_8 = 9"
definition KEY_9 :: nat where "KEY_9 = 10"
definition KEY_0 :: nat where "KEY_0 = 11"
definition KEY_MINUS :: nat where "KEY_MINUS = 12"
definition KEY_EQUAL :: nat where "KEY_EQUAL = 13"
definition KEY_BACKSPACE :: nat where "KEY_BACKSPACE = 14"
definition KEY_TAB :: nat where "KEY_TAB = 15"
definition KEY_Q :: nat where "KEY_Q = 16"
definition KEY_W :: nat where "KEY_W = 17"
definition KEY_E :: nat where "KEY_E = 18"
definition KEY_R :: nat where "KEY_R = 19"
definition KEY_T :: nat where "KEY_T = 20"
definition KEY_Y :: nat where "KEY_Y = 21"
definition KEY_U :: nat where "KEY_U = 22"
definition KEY_I :: nat where "KEY_I = 23"
definition KEY_O :: nat where "KEY_O = 24"
definition KEY_P :: nat where "KEY_P = 25"
definition KEY_LEFTBRACE :: nat where "KEY_LEFTBRACE = 26"
definition KEY_RIGHTBRACE :: nat where "KEY_RIGHTBRACE = 27"
definition KEY_ENTER :: nat where "KEY_ENTER = 28"
definition KEY_LEFTCTRL :: nat where "KEY_LEFTCTRL = 29"
definition KEY_A :: nat where "KEY_A = 30"
definition KEY_S :: nat where "KEY_S = 31"
definition KEY_D :: nat where "KEY_D = 32"
definition KEY_F :: nat where "KEY_F = 33"
definition KEY_G :: nat where "KEY_G = 34"
definition KEY_H :: nat where "KEY_H = 35"
definition KEY_J :: nat where "KEY_J = 36"
definition KEY_K :: nat where "KEY_K = 37"
definition KEY_L :: nat where "KEY_L = 38"
definition KEY_SEMICOLON :: nat where "KEY_SEMICOLON = 39"
definition KEY_APOSTROPHE :: nat where "KEY_APOSTROPHE = 40"
definition KEY_GRAVE :: nat where "KEY_GRAVE = 41"
definition KEY_LEFTSHIFT :: nat where "KEY_LEFTSHIFT = 42"
definition KEY_BACKSLASH :: nat where "KEY_BACKSLASH = 43"
definition KEY_Z :: nat where "KEY_Z = 44"
definition KEY_X :: nat where "KEY_X = 45"
definition KEY_C :: nat where "KEY_C = 46"
definition KEY_V :: nat where "KEY_V = 47"
definition KEY_B :: nat where "KEY_B = 48"
definition KEY_N :: nat where "KEY_N = 49"
definition KEY_M :: nat where "KEY_M = 50"
definition KEY_COMMA :: nat where "KEY_COMMA = 51"
definition KEY_DOT :: nat where "KEY_DOT = 52"
definition KEY_SLASH :: nat where "KEY_SLASH = 53"
definition KEY_RIGHTSHIFT :: nat where "KEY_RIGHTSHIFT = 54"
definition KEY_KPASTERISK :: nat where "KEY_KPASTERISK = 55"
definition KEY_LEFTALT :: nat where "KEY_LEFTALT = 56"
definition KEY_SPACE :: nat where "KEY_SPACE = 57"
definition KEY_CAPSLOCK :: nat where "KEY_CAPSLOCK = 58"
definition KEY_F1 :: nat where "KEY_F1 = 59"
definition KEY_F2 :: nat where "KEY_F2 = 60"
definition KEY_F3 :: nat where "KEY_F3 = 61"
definition KEY_F4 :: nat where "KEY_F4 = 62"
definition KEY_F5 :: nat where "KEY_F5 = 63"
definition KEY_F6 :: nat where "KEY_F6 = 64"
definition KEY_F7 :: nat where "KEY_F7 = 65"
definition KEY_F8 :: nat where "KEY_F8 = 66"
definition KEY_F9 :: nat where "KEY_F9 = 67"
definition KEY_F10 :: nat where "KEY_F10 = 68"
definition KEY_NUMLOCK :: nat where "KEY_NUMLOCK = 69"
definition KEY_SCROLLLOCK :: nat where "KEY_SCROLLLOCK = 70"
definition KEY_KP7 :: nat where "KEY_KP7 = 71"
definition KEY_KP8 :: nat where "KEY_KP8 = 72"
definition KEY_KP9 :: nat where "KEY_KP9 = 73"
definition KEY_KPMINUS :: nat where "KEY_KPMINUS = 74"
definition KEY_KP4 :: nat where "KEY_KP4 = 75"
definition KEY_KP5 :: nat where "KEY_KP5 = 76"
definition KEY_KP6 :: nat where "KEY_KP6 = 77"
definition KEY_KPPLUS :: nat where "KEY_KPPLUS = 78"
definition KEY_KP1 :: nat where "KEY_KP1 = 79"
definition KEY_KP2 :: nat where "KEY_KP2 = 80"
definition KEY_KP3 :: nat where "KEY_KP3 = 81"
definition KEY_KP0 :: nat where "KEY_KP0 = 82"
definition KEY_KPDOT :: nat where "KEY_KPDOT = 83"
definition KEY_F11 :: nat where "KEY_F11 = 87"
definition KEY_F12 :: nat where "KEY_F12 = 88"
definition KEYCODE_MAX :: nat where "KEYCODE_MAX = 88"

lemmas key_defs = KEY_RESERVED_def KEY_ESC_def KEY_1_def KEY_2_def KEY_3_def KEY_4_def KEY_5_def KEY_6_def KEY_7_def KEY_8_def KEY_9_def KEY_0_def KEY_MINUS_def KEY_EQUAL_def KEY_BACKSPACE_def KEY_TAB_def KEY_Q_def KEY_W_def KEY_E_def KEY_R_def KEY_T_def KEY_Y_def KEY_U_def KEY_I_def KEY_O_def KEY_P_def KEY_LEFTBRACE_def KEY_RIGHTBRACE_def KEY_ENTER_def KEY_LEFTCTRL_def KEY_A_def KEY_S_def KEY_D_def KEY_F_def KEY_G_def KEY_H_def KEY_J_def KEY_K_def KEY_L_def KEY_SEMICOLON_def KEY_APOSTROPHE_def KEY_GRAVE_def KEY_LEFTSHIFT_def KEY_BACKSLASH_def KEY_Z_def KEY_X_def KEY_C_def KEY_V_def KEY_B_def KEY_N_def KEY_M_def KEY_COMMA_def KEY_DOT_def KEY_SLASH_def KEY_RIGHTSHIFT_def KEY_KPASTERISK_def KEY_LEFTALT_def KEY_SPACE_def KEY_CAPSLOCK_def KEY_F1_def KEY_F2_def KEY_F3_def KEY_F4_def KEY_F5_def KEY_F6_def KEY_F7_def KEY_F8_def KEY_F9_def KEY_F10_def KEY_NUMLOCK_def KEY_SCROLLLOCK_def KEY_KP7_def KEY_KP8_def KEY_KP9_def KEY_KPMINUS_def KEY_KP4_def KEY_KP5_def KEY_KP6_def KEY_KPPLUS_def KEY_KP1_def KEY_KP2_def KEY_KP3_def KEY_KP0_def KEY_KPDOT_def KEY_F11_def KEY_F12_def KEYCODE_MAX_def

type_synonym packet = "nat \<times> bool"

section \<open>Scan codes\<close>

datatype sc1 = Normal | Extra nat | Pause nat | Command

text \<open>The arms of the match in the order of the source; the arms for the bytes \<open>0x0F\<close>, \<open>0x8F\<close>, \<open>0x39\<close> and
  \<open>0xB9\<close> come after ranges that contain them.\<close>

definition parse_normal :: "nat \<Rightarrow> packet option" where
  "parse_normal byte =
     (if KEY_RESERVED \<le> byte \<and> byte \<le> KEY_KPDOT \<or> KEY_F11 \<le> byte \<and> byte \<le> KEY_F12 then Some (byte, True)
      else if KEY_RESERVED + 0x80 \<le> byte \<and> byte \<le> KEY_KPDOT + 0x80 \<or> KEY_F11 + 0x80 \<le> byte \<and> byte \<le> KEY_F12 + 0x80
        then Some (byte - 0x80, False)
      else if byte = 0x0F then Some (KEY_BACKSPACE, True)
      else if byte = 0x8F then Some (KEY_BACKSPACE, False)
      else if byte = 0x39 then Some (KEY_SPACE, True)
      else if byte = 0xB9 then Some (KEY_SPACE, False)
      else None)"

definition sc1_parse :: "sc1 \<Rightarrow> nat \<Rightarrow> (packet option \<times> sc1) res" where
  "sc1_parse sc byte =
     (case sc of Normal \<Rightarrow> Inr (parse_normal byte, sc)
      | Extra _ \<Rightarrow> Inl NotImplemented | Pause _ \<Rightarrow> Inl NotImplemented | Command \<Rightarrow> Inl NotImplemented)"

section \<open>The virtual keyboard\<close>

type_synonym modifier = "8 word"

definition ALT :: modifier where "ALT = 0b1"
definition SHIFT :: modifier where "SHIFT = 0b10"
definition CTRL :: modifier where "CTRL = 0b100"
definition CAPSLOCK :: modifier where "CAPSLOCK = 0b1000"
definition SCROLLLOCK :: modifier where "SCROLLLOCK = 0b10000"
definition NUMLOCK :: modifier where "NUMLOCK = 0b100000"

lemmas modifier_defs = ALT_def SHIFT_def CTRL_def CAPSLOCK_def SCROLLLOCK_def NUMLOCK_def

text \<open>\<^verbatim>\<open>contains\<close>, \<^verbatim>\<open>set\<close> and \<^verbatim>\<open>toggle\<close> of a type made by \<^verbatim>\<open>bitflags!\<close>.\<close>

definition has_modifier :: "modifier \<Rightarrow> modifier \<Rightarrow> bool" where
  "has_modifier m f \<longleftrightarrow> m AND f = f"

definition set_modifier :: "modifier \<Rightarrow> bool \<Rightarrow> modifier \<Rightarrow> modifier" where
  "set_modifier f b m = (if b then m OR f else m AND NOT f)"

definition toggle_modifier :: "modifier \<Rightarrow> modifier \<Rightarrow> modifier" where
  "toggle_modifier f m = m XOR f"

definition STATES_LEN :: nat where
  "STATES_LEN = (KEYCODE_MAX + 1 + 63) div 64"

record virt_keyboard =
  states :: "64 word list"
  modifier :: modifier

record key_event =
  key :: nat
  is_press :: bool
  key_modifier :: modifier

definition virt_keyboard_new :: virt_keyboard where
  "virt_keyboard_new = \<lparr>states = replicate STATES_LEN 0, modifier = 0\<rparr>"

definition update_modifier :: "packet \<Rightarrow> modifier \<Rightarrow> modifier" where
  "update_modifier p m =
     (if fst p = KEY_LEFTALT then set_modifier ALT (snd p) m
      else if fst p = KEY_LEFTCTRL then set_modifier CTRL (snd p) m
      else if fst p = KEY_LEFTSHIFT \<or> fst p = KEY_RIGHTSHIFT then set_modifier SHIFT (snd p) m
      else if fst p = KEY_CAPSLOCK \<and> snd p then toggle_modifier CAPSLOCK m
      else if fst p = KEY_SCROLLLOCK \<and> snd p then toggle_modifier SCROLLLOCK m
      else if fst p = KEY_NUMLOCK \<and> snd p then toggle_modifier NUMLOCK m
      else m)"

definition virt_update :: "packet \<Rightarrow> virt_keyboard \<Rightarrow> virt_keyboard res" where
  "virt_update p vk =
     (if fst p < 64 * length (states vk)
      then Inr (vk\<lparr>states := view_set (states vk) (fst p) (snd p), modifier := update_modifier p (modifier vk)\<rparr>)
      else Inl IndexOutOfBounds)"

definition virt_event :: "packet \<Rightarrow> virt_keyboard \<Rightarrow> key_event" where
  "virt_event p vk = \<lparr>key = fst p, is_press = snd p, key_modifier = modifier vk\<rparr>"

definition virt_parse :: "packet \<Rightarrow> virt_keyboard \<Rightarrow> (key_event option \<times> virt_keyboard) res" where
  "virt_parse p vk = rbind (virt_update p vk) (\<lambda>vk. Inr (Some (virt_event p vk), vk))"

section \<open>Characters\<close>

text \<open>The match of \<^verbatim>\<open>ketoa\<close>, for a pressed key.\<close>

definition key_ascii :: "nat \<Rightarrow> nat \<Rightarrow> nat option res" where
  "key_ascii cap_offset k =
     (if k = KEY_0 then Inr (Some 48)
      else if KEY_1 \<le> k \<and> k \<le> KEY_9 then rbind (u8_add 49 ((k - KEY_1) mod 256)) (\<lambda>c. Inr (Some c))
      else if k = KEY_A then rbind (u8_sub 97 cap_offset) (\<lambda>c. Inr (Some c))
      else if k = KEY_B then rbind (u8_sub 98 cap_offset) (\<lambda>c. Inr (Some c))
      else if k = KEY_C then rbind (u8_sub 99 cap_offset) (\<lambda>c. Inr (Some c))
      else if k = KEY_D then rbind (u8_sub 100 cap_offset) (\<lambda>c. Inr (Some c))
      else if k = KEY_E then rbind (u8_sub 101 cap_offset) (\<lambda>c. Inr (Some c))
      else if k = KEY_F then rbind (u8_sub 102 cap_offset) (\<lambda>c. Inr (Some c))
      else if k = KEY_G then rbind (u8_sub 103 cap_offset) (\<lambda>c. Inr (Some c))
      else if k = KEY_H then rbind (u8_sub 104 cap_offset) (\<lambda>c. Inr (Some c))
      else if k = KEY_I then rbind (u8_sub 105 cap_offset) (\<lambda>c. Inr (Some c))
      else if k = KEY_J then rbind (u8_sub 106 cap_offset) (\<lambda>c. Inr (Some c))
      else if k = KEY_K then rbind (u8_sub 107 cap_offset) (\<lambda>c. Inr (Some c))
      else if k = KEY_L then rbind (u8_sub 108 cap_offset) (\<lambda>c. Inr (Some c))
      else if k = KEY_M then rbind (u8_sub 109 cap_offset) (\<lambda>c. Inr (Some c))
      else if k = KEY_N then rbind (u8_sub 110 cap_offset) (\<lambda>c. Inr (Some c))
      else if k = KEY_O then rbind (u8_sub 111 cap_offset) (\<lambda>c. Inr (Some c))
      else if k = KEY_P then rbind (u8_sub 112 cap_offset) (\<lambda>c. Inr (Some c))
      else if k = KEY_Q then rbind (u8_sub 113 cap_offset) (\<lambda>c. Inr (Some c))
      else if k = KEY_R then rbind (u8_sub 114 cap_offset) (\<lambda>c. Inr (Some c))
      else if k = KEY_S then rbind (u8_sub 115 cap_offset) (\<lambda>c. Inr (Some c))
      else if k = KEY_T then rbind (u8_sub 116 cap_offset) (\<lambda>c. Inr (Some c))
      else if k = KEY_U then rbind (u8_sub 117 cap_offset) (\<lambda>c. Inr (Some c))
      else if k = KEY_V then rbind (u8_sub 118 cap_offset) (\<lambda>c. Inr (Some c))
      else if k = KEY_W then rbind (u8_sub 119 cap_offset) (\<lambda>c. Inr (Some c))
      else if k = KEY_X then rbind (u8_sub 120 cap_offset) (\<lambda>c. Inr (Some c))
      else if k = KEY_Y then rbind (u8_sub 121 cap_offset) (\<lambda>c. Inr (Some c))
      else if k = KEY_Z then rbind (u8_sub 122 cap_offset) (\<lambda>c. Inr (Some c))
      else if k = KEY_ENTER then Inr (Some 10)
      else if k = KEY_SPACE then Inr (Some 32)
      else if k = KEY_BACKSPACE then Inr (Some 8)
      else Inr None)"

definition ketoa :: "key_event \<Rightarrow> nat option res" where
  "ketoa ke =
     (if \<not> is_press ke then Inr None
      else
        let is_cap = (has_modifier (key_modifier ke) CAPSLOCK \<noteq> has_modifier (key_modifier ke) SHIFT);
            cap_offset = 32 * of_bool is_cap
        in key_ascii cap_offset (key ke))"

section \<open>Keys in range\<close>

lemma parse_normal_key: "parse_normal byte = Some (k, d) \<Longrightarrow> k \<le> KEYCODE_MAX"
  by (auto simp: parse_normal_def key_defs split: if_splits)

lemma virt_update_ok:
  "fst p \<le> KEYCODE_MAX \<Longrightarrow> length (states vk) = 2 \<Longrightarrow>
   virt_update p vk = Inr (vk\<lparr>states := view_set (states vk) (fst p) (snd p), modifier := update_modifier p (modifier vk)\<rparr>)"
  by (simp add: virt_update_def KEYCODE_MAX_def)

section \<open>Modifiers as flags\<close>

lemma has_modifier_bit:
  "has_modifier m SHIFT \<longleftrightarrow> bit m 1" "has_modifier m CAPSLOCK \<longleftrightarrow> bit m 3"
proof -
  have "m AND 2 ^ n = 2 ^ n \<longleftrightarrow> bit m n" if "n < 8" for n
  proof
    assume "m AND 2 ^ n = 2 ^ n"
    then have "bit (m AND 2 ^ n) n = bit (2 ^ n :: 8 word) n" by simp
    then show "bit m n" using that by (simp add: bit_and_iff bit_exp_iff)
  qed (auto intro!: bit_eqI simp: bit_and_iff bit_exp_iff)
  from this [of 1] this [of 3] show "has_modifier m SHIFT \<longleftrightarrow> bit m 1" "has_modifier m CAPSLOCK \<longleftrightarrow> bit m 3"
    by (simp_all add: has_modifier_def modifier_defs)
qed

lemma modifier_bits:
  "bit ALT i \<longleftrightarrow> i = 0" "bit SHIFT i \<longleftrightarrow> i = 1" "bit CTRL i \<longleftrightarrow> i = 2" "bit CAPSLOCK i \<longleftrightarrow> i = 3"
  "bit SCROLLLOCK i \<longleftrightarrow> i = 4" "bit NUMLOCK i \<longleftrightarrow> i = 5"
proof -
  have e: "bit (2 ^ n :: 8 word) i \<longleftrightarrow> i = n" if "n < 8" for n i using that by (auto simp: bit_exp_iff)
  from e [of 0 i] e [of 1 i] e [of 2 i] e [of 3 i] e [of 4 i] e [of 5 i]
  show "bit ALT i \<longleftrightarrow> i = 0" "bit SHIFT i \<longleftrightarrow> i = 1" "bit CTRL i \<longleftrightarrow> i = 2" "bit CAPSLOCK i \<longleftrightarrow> i = 3"
    "bit SCROLLLOCK i \<longleftrightarrow> i = 4" "bit NUMLOCK i \<longleftrightarrow> i = 5" by (simp_all add: modifier_defs)
qed

lemma update_modifier_flags:
  "has_modifier (update_modifier p m) SHIFT \<longleftrightarrow>
     (if fst p = KEY_LEFTSHIFT \<or> fst p = KEY_RIGHTSHIFT then snd p else has_modifier m SHIFT)"
  "has_modifier (update_modifier p m) CAPSLOCK \<longleftrightarrow>
     (if fst p = KEY_CAPSLOCK \<and> snd p then \<not> has_modifier m CAPSLOCK else has_modifier m CAPSLOCK)"
  by (auto simp: has_modifier_bit update_modifier_def set_modifier_def toggle_modifier_def bit_or_iff bit_and_iff
      bit_not_iff bit_xor_iff modifier_bits key_defs)

section \<open>The characters of the keys\<close>

text \<open>The keys of a row have consecutive codes.\<close>

definition key_row :: "nat \<Rightarrow> string \<Rightarrow> nat \<Rightarrow> nat option" where
  "key_row start row k = (if start \<le> k \<and> k < start + length row then Some (of_char (row ! (k - start))) else None)"

definition or_else :: "'a option \<Rightarrow> 'a option \<Rightarrow> 'a option" where
  "or_else x y = (case x of None \<Rightarrow> y | Some _ \<Rightarrow> x)"

definition key_char :: "bool \<Rightarrow> nat \<Rightarrow> nat option" where
  "key_char upper k =
     or_else (key_row 2 ''1234567890'' k) (or_else (key_row 14 [CHR 0x08] k) (or_else (key_row 28 [CHR 0x0A] k)
     (or_else (key_row 57 '' '' k)
       (if upper
        then or_else (key_row 16 ''QWERTYUIOP'' k) (or_else (key_row 30 ''ASDFGHJKL'' k) (key_row 44 ''ZXCVBNM'' k))
        else or_else (key_row 16 ''qwertyuiop'' k) (or_else (key_row 30 ''asdfghjkl'' k) (key_row 44 ''zxcvbnm'' k))))))"

lemma key_ascii_keys:
  "\<forall>k \<in> set [0..<89]. key_ascii 32 k = Inr (key_char True k) \<and> key_ascii 0 k = Inr (key_char False k)"
  by code_simp

lemma ketoa_event:
  assumes "fst p \<le> KEYCODE_MAX"
  shows "ketoa (virt_event p vk) =
    Inr (if snd p then key_char (has_modifier (modifier vk) CAPSLOCK \<noteq> has_modifier (modifier vk) SHIFT) (fst p) else None)"
proof (cases "snd p")
  case True
  have "fst p \<in> set [0..<89]" using assms by (auto simp: KEYCODE_MAX_def)
  then have "key_ascii 32 (fst p) = Inr (key_char True (fst p))" "key_ascii 0 (fst p) = Inr (key_char False (fst p))"
    using key_ascii_keys by auto
  then show ?thesis using True by (simp add: virt_event_def ketoa_def Let_def)
qed (simp add: virt_event_def ketoa_def)

end
