(* ===== verification/Vga.thy ===== *)
theory Vga
  imports Koe_Prelude
begin

text \<open>
  The text console of \<^verbatim>\<open>src/src/drivers/vga.rs\<close>, and the panic handler that writes to it.

  A cell of the screen is a 16-bit word: the color code in the upper byte and the character in the
  lower one.  The cursor is a \<^verbatim>\<open>u16\<close>.  What \<^verbatim>\<open>outb\<close> sends to the controller is kept as a list of ports
  and bytes, the last one first.
\<close>

section \<open>The model\<close>

definition VIEW_HEIGHT :: nat where "VIEW_HEIGHT = 25"
definition VIEW_WIDTH :: nat where "VIEW_WIDTH = 80"
definition CRTC_ADDR_PORT :: nat where "CRTC_ADDR_PORT = 0x3D4"
definition CRTC_DATA_PORT :: nat where "CRTC_DATA_PORT = 0x3D5"
definition CURSOR_LOC_HIGH_IDX :: nat where "CURSOR_LOC_HIGH_IDX = 0xE"
definition CURSOR_LOC_LOW_IDX :: nat where "CURSOR_LOC_LOW_IDX = 0xF"

datatype color = Black | Blue | Green | Cyan | Red | Purple | Brown | Gray

primrec color_u8 :: "color \<Rightarrow> nat" where
  "color_u8 Black = 0"
| "color_u8 Blue = 1"
| "color_u8 Green = 2"
| "color_u8 Cyan = 3"
| "color_u8 Red = 4"
| "color_u8 Purple = 5"
| "color_u8 Brown = 6"
| "color_u8 Gray = 7"

record vga =
  color_code :: nat
  cursor_pos :: nat
  buffer :: "16 word list"
  port_out :: "(nat \<times> nat) list"

definition vga_entry :: "nat \<Rightarrow> nat \<Rightarrow> 16 word" where
  "vga_entry code char = push_bit 8 (word_of_nat code) + word_of_nat char"

definition entry_get_char :: "16 word \<Rightarrow> nat" where
  "entry_get_char entry = unat (entry AND 0x00FF) mod 256"

text \<open>Shifts of a \<^verbatim>\<open>u8\<close> lose the bits shifted out.\<close>

definition make_color_code :: "color \<Rightarrow> color \<Rightarrow> bool \<Rightarrow> nat res" where
  "make_color_code fg bg is_bright =
     rbind (u8_add 0 (color_u8 fg)) (\<lambda>c.
     rbind (u8_add c (of_bool is_bright * 2 ^ 3 mod 256)) (\<lambda>c.
     u8_add c (color_u8 bg * 2 ^ 4 mod 256)))"

definition outb :: "nat \<Rightarrow> nat \<Rightarrow> vga \<Rightarrow> vga" where
  "outb port value v = v\<lparr>port_out := (port, value) # port_out v\<rparr>"

definition sync_cursor :: "vga \<Rightarrow> vga" where
  "sync_cursor v =
     (let v = outb CRTC_ADDR_PORT CURSOR_LOC_LOW_IDX v;
          v = outb CRTC_DATA_PORT ((cursor_pos v AND 0x00FF) mod 256) v;
          v = outb CRTC_ADDR_PORT CURSOR_LOC_HIGH_IDX v
      in outb CRTC_DATA_PORT (cursor_pos v div 2 ^ 8 mod 256) v)"

definition vga_init :: "vga res" where
  "vga_init =
     rbind (make_color_code Black Black False) (\<lambda>code.
     Inr \<lparr>color_code = code, cursor_pos = 0,
          buffer = replicate (VIEW_HEIGHT * VIEW_WIDTH) (vga_entry code 0), port_out = []\<rparr>)"

definition set_color :: "color \<Rightarrow> color \<Rightarrow> bool \<Rightarrow> vga \<Rightarrow> vga res" where
  "set_color fg bg is_bright v =
     rbind (make_color_code fg bg is_bright) (\<lambda>code. Inr (v\<lparr>color_code := code\<rparr>))"

definition set_cursor_pos :: "nat \<Rightarrow> nat \<Rightarrow> vga \<Rightarrow> vga res" where
  "set_cursor_pos x y v =
     rbind (u16_mul x y) (\<lambda>new_pos.
     rbind (rassert (new_pos < VIEW_HEIGHT * VIEW_WIDTH)) (\<lambda>_.
     Inr (sync_cursor (v\<lparr>cursor_pos := new_pos\<rparr>))))"

definition get_cursor_pos :: "vga \<Rightarrow> nat \<times> nat" where
  "get_cursor_pos v = (cursor_pos v mod VIEW_WIDTH mod 256, cursor_pos v div VIEW_WIDTH mod 256)"

definition viewport_dim :: "vga \<Rightarrow> nat \<times> nat" where
  "viewport_dim v = (VIEW_WIDTH mod 256, VIEW_HEIGHT mod 256)"

definition clear :: "vga \<Rightarrow> vga res" where
  "clear v =
     (let v = v\<lparr>buffer := map (\<lambda>_. vga_entry (color_code v) 0) (buffer v)\<rparr> in
      rbind (set_cursor_pos 0 0 v) (\<lambda>v. Inr (sync_cursor v)))"

text \<open>\<^verbatim>\<open>copy_within(width.., 0)\<close> moves the cells from \<^verbatim>\<open>width\<close> on to the front; it and the range of the
  fill panic on a buffer shorter than a line.\<close>

definition scroll_up :: "vga \<Rightarrow> vga res" where
  "scroll_up v =
     (let len = length (buffer v) in
      if len < VIEW_WIDTH then Inl IndexOutOfBounds
      else
        let moved = drop VIEW_WIDTH (buffer v) @ drop (len - VIEW_WIDTH) (buffer v);
            filled = take (len - VIEW_WIDTH) moved @ replicate VIEW_WIDTH (vga_entry (color_code v) 0)
        in rbind (usize_sub (cursor_pos v) VIEW_WIDTH) (\<lambda>p.
           Inr (sync_cursor (v\<lparr>buffer := filled, cursor_pos := p\<rparr>))))"

definition u16_next_multiple_of :: "nat \<Rightarrow> nat \<Rightarrow> nat res" where
  "u16_next_multiple_of a m =
     rbind (usize_rem a m) (\<lambda>r. if r = 0 then Inr a else if a + (m - r) < 2 ^ 16 then Inr (a + (m - r)) else Inl Overflow)"

text \<open>\<^verbatim>\<open>self.buffer[i]\<close> as a value and as a place.\<close>

definition cell_at :: "vga \<Rightarrow> nat \<Rightarrow> (16 word) res" where
  "cell_at v i = (if i < length (buffer v) then Inr (buffer v ! i) else Inl IndexOutOfBounds)"

definition put_cell :: "vga \<Rightarrow> nat \<Rightarrow> 16 word \<Rightarrow> vga res" where
  "put_cell v i e =
     (if i < length (buffer v) then Inr (v\<lparr>buffer := (buffer v)[i := e]\<rparr>) else Inl IndexOutOfBounds)"

text \<open>The loop of a backspace: the cursor moves back over empty cells.\<close>

function skip_empty :: "vga \<Rightarrow> vga res" where
  "skip_empty v =
     (if 0 < cursor_pos v then
        rbind (cell_at v (cursor_pos v - 1)) (\<lambda>e.
        if entry_get_char e = 0 then skip_empty (v\<lparr>cursor_pos := cursor_pos v - 1\<rparr>) else Inr v)
      else Inr v)"
  by pat_completeness auto
termination
  by (relation "measure cursor_pos") auto

declare skip_empty.simps [simp del]

definition write_u8 :: "nat \<Rightarrow> vga \<Rightarrow> vga res" where
  "write_u8 char v =
     (if cursor_pos v = VIEW_HEIGHT * VIEW_WIDTH then Inr v
      else if char = 10 then
        rbind (u16_next_multiple_of (cursor_pos v) VIEW_WIDTH) (\<lambda>p.
        let v = v\<lparr>cursor_pos := p\<rparr> in
        if length (buffer v) mod 2 ^ 16 \<le> cursor_pos v then scroll_up v else Inr v)
      else if char = 8 then
        rbind (if cursor_pos v \<noteq> 0
               then let v = v\<lparr>cursor_pos := cursor_pos v - 1\<rparr> in put_cell v (cursor_pos v) (vga_entry (color_code v) 0)
               else Inr v) (\<lambda>v.
        rbind (skip_empty v) (\<lambda>v. Inr (sync_cursor v)))
      else
        rbind (put_cell v (cursor_pos v) (vga_entry (color_code v) char)) (\<lambda>v.
        rbind (u16_add (cursor_pos v) 1) (\<lambda>p. Inr (sync_cursor (v\<lparr>cursor_pos := p\<rparr>)))))"

definition vga_write :: "nat list \<Rightarrow> vga \<Rightarrow> vga res" where
  "vga_write text v = rfold write_u8 text v"

text \<open>The panic handler of \<^verbatim>\<open>src/src/common/panic.rs\<close>, up to the halt: the formatted message and location
  come from the panic.\<close>

definition panic_handler :: "nat list \<Rightarrow> nat list \<Rightarrow> vga \<Rightarrow> vga res" where
  "panic_handler message location v =
     rbind (clear v) (\<lambda>v.
     rbind (set_color Red Black True v) (\<lambda>v.
     vga_write (map of_char ''KERNEL PANIC: '' @ message @ map of_char '' at '' @ [10] @ location) v))"

section \<open>The screen\<close>

text \<open>The buffer is the whole screen and the cursor is on it or just behind its last cell.\<close>

definition vga_ok :: "vga \<Rightarrow> bool" where
  "vga_ok v \<longleftrightarrow> length (buffer v) = 2000 \<and> cursor_pos v \<le> 2000"

text \<open>The value last sent to a register of the controller, from the list of what was sent.\<close>

fun crtc_reg :: "nat \<Rightarrow> (nat \<times> nat) list \<Rightarrow> nat option" where
  "crtc_reg i ((p, x) # (q, j) # rest) =
     (if p = CRTC_DATA_PORT \<and> q = CRTC_ADDR_PORT \<and> j = i then Some x else crtc_reg i ((q, j) # rest))"
| "crtc_reg i _ = None"

definition cursor_shown :: "vga \<Rightarrow> bool" where
  "cursor_shown v \<longleftrightarrow> crtc_reg CURSOR_LOC_HIGH_IDX (port_out v) = Some (cursor_pos v div 256) \<and>
     crtc_reg CURSOR_LOC_LOW_IDX (port_out v) = Some (cursor_pos v mod 256)"

lemma view_size [simp]: "VIEW_HEIGHT = 25" "VIEW_WIDTH = 80"
  by (simp_all add: VIEW_HEIGHT_def VIEW_WIDTH_def)

lemma sync_cursor_sel [simp]:
  "color_code (sync_cursor v) = color_code v" "cursor_pos (sync_cursor v) = cursor_pos v" "buffer (sync_cursor v) = buffer v"
  by (simp_all add: sync_cursor_def outb_def)

lemma and_255: "(n::nat) AND 255 = n mod 256"
  using take_bit_eq_mask [of 8 n] by (simp add: take_bit_eq_mod mask_eq_exp_minus_1)

lemma sync_cursor_shown: "cursor_pos v \<le> 2000 \<Longrightarrow> cursor_shown (sync_cursor v)"
  by (simp add: cursor_shown_def sync_cursor_def outb_def and_255 CURSOR_LOC_HIGH_IDX_def CURSOR_LOC_LOW_IDX_def
      CRTC_DATA_PORT_def CRTC_ADDR_PORT_def)

lemma vga_ok_sync [simp]: "vga_ok (sync_cursor v) = vga_ok v"
  by (simp add: vga_ok_def)

lemma skip_empty_ok:
  "vga_ok v \<Longrightarrow> \<exists>p. p \<le> cursor_pos v \<and> skip_empty v = Inr (v\<lparr>cursor_pos := p\<rparr>)"
proof (induction v rule: skip_empty.induct)
  case (1 v)
  show ?case
  proof (cases "0 < cursor_pos v \<and> entry_get_char (buffer v ! (cursor_pos v - 1)) = 0")
    case True
    let ?v = "v\<lparr>cursor_pos := cursor_pos v - 1\<rparr>"
    have c: "cell_at v (cursor_pos v - 1) = Inr (buffer v ! (cursor_pos v - 1))"
      using True "1.prems" by (auto simp: cell_at_def vga_ok_def)
    have "vga_ok ?v" using "1.prems" by (auto simp: vga_ok_def)
    then obtain p where "p \<le> cursor_pos ?v" "skip_empty ?v = Inr (?v\<lparr>cursor_pos := p\<rparr>)"
      using "1.IH" True c by blast
    then show ?thesis using True c by (subst skip_empty.simps) (auto intro!: exI [of _ p])
  next
    case False
    then have "skip_empty v = Inr v" using "1.prems"
      by (subst skip_empty.simps) (auto simp: cell_at_def vga_ok_def)
    then show ?thesis by (intro exI [of _ "cursor_pos v"]) simp
  qed
qed

lemma newline_pos:
  assumes "p < 2000"
  shows "u16_next_multiple_of p 80 = Inr (ceil_to p 80)" "ceil_to p 80 \<le> 2000"
proof -
  show le: "ceil_to p 80 \<le> 2000" using assms by (intro ceil_to_least) simp_all
  then show "u16_next_multiple_of p 80 = Inr (ceil_to p 80)"
    by (auto simp: u16_next_multiple_of_def ceil_to_def split: if_splits)
qed

lemma scroll_up_ok:
  assumes "length (buffer v) = 2000" "cursor_pos v = 2000"
  shows "\<exists>v'. scroll_up v = Inr v' \<and> cursor_pos v' = 1920 \<and> color_code v' = color_code v \<and>
    buffer v' = drop 80 (buffer v) @ replicate 80 (vga_entry (color_code v) 0) \<and> cursor_shown v'"
  using assms by (simp add: scroll_up_def Let_def sync_cursor_shown)

lemma write_u8_newline:
  assumes "vga_ok v" "cursor_pos v < 2000"
  shows "write_u8 10 v = (if ceil_to (cursor_pos v) 80 = 2000 then scroll_up (v\<lparr>cursor_pos := 2000\<rparr>)
    else Inr (v\<lparr>cursor_pos := ceil_to (cursor_pos v) 80\<rparr>))"
  using assms newline_pos [OF assms(2)] by (auto simp: write_u8_def vga_ok_def)

lemma write_u8_plain:
  assumes "vga_ok v" "cursor_pos v < 2000" "c \<noteq> 10" "c \<noteq> 8"
  shows "write_u8 c v = Inr (sync_cursor (v\<lparr>buffer := (buffer v)[cursor_pos v := vga_entry (color_code v) c],
    cursor_pos := cursor_pos v + 1\<rparr>))"
  using assms by (simp add: write_u8_def put_cell_def u16_add_def vga_ok_def)

lemma write_u8_ok:
  assumes "vga_ok v"
  shows "\<exists>v'. write_u8 c v = Inr v' \<and> vga_ok v'"
proof -
  consider "cursor_pos v = 2000" | "cursor_pos v < 2000" "c = 10" | "cursor_pos v < 2000" "c = 8"
    | "cursor_pos v < 2000" "c \<noteq> 10" "c \<noteq> 8" using assms by (fastforce simp: vga_ok_def)
  then show ?thesis
  proof cases
    case 1
    then show ?thesis using assms by (simp add: write_u8_def)
  next
    case 2
    then show ?thesis
      using write_u8_newline [OF assms 2(1)] newline_pos(2) [OF 2(1)] assms scroll_up_ok [of "v\<lparr>cursor_pos := 2000\<rparr>"]
      by (auto simp: vga_ok_def)
  next
    case 3
    let ?u = "if cursor_pos v = 0 then v
      else v\<lparr>cursor_pos := cursor_pos v - 1, buffer := (buffer v)[cursor_pos v - 1 := vga_entry (color_code v) 0]\<rparr>"
    have u: "vga_ok ?u" using assms by (auto simp: vga_ok_def)
    from skip_empty_ok [OF u] obtain p where "p \<le> cursor_pos ?u" "skip_empty ?u = Inr (?u\<lparr>cursor_pos := p\<rparr>)" by blast
    moreover have "write_u8 c v = rbind (skip_empty ?u) (\<lambda>v. Inr (sync_cursor v))"
      using 3 assms by (auto simp: write_u8_def put_cell_def vga_ok_def Let_def)
    ultimately show ?thesis using u by (auto simp: vga_ok_def)
  next
    case 4
    then show ?thesis using write_u8_plain [OF assms] assms by (simp add: vga_ok_def)
  qed
qed

lemma vga_write_ok: "vga_ok v \<Longrightarrow> \<exists>v'. vga_write str v = Inr v' \<and> vga_ok v'"
proof (induction str arbitrary: v)
  case (Cons c str)
  obtain u where "write_u8 c v = Inr u" "vga_ok u" using write_u8_ok [OF Cons.prems] by blast
  with Cons.IH [of u] show ?case by (simp add: vga_write_def)
qed (simp add: vga_write_def)

lemma make_color_code_ok: "\<exists>c<128. make_color_code fg bg b = Inr c"
  by (cases fg; cases bg; cases b) (simp_all add: make_color_code_def)

lemma vga_write_plain:
  assumes "vga_ok v" "cursor_pos v + length str \<le> 2000" "\<forall>c \<in> set str. c \<noteq> 10 \<and> c \<noteq> 8"
  shows "\<exists>v'. vga_write str v = Inr v' \<and> vga_ok v' \<and> color_code v' = color_code v \<and>
    cursor_pos v' = cursor_pos v + length str \<and> (str \<noteq> [] \<longrightarrow> cursor_shown v') \<and>
    buffer v' = take (cursor_pos v) (buffer v) @ map (vga_entry (color_code v)) str @
      drop (cursor_pos v + length str) (buffer v)"
  using assms
proof (induction str arbitrary: v)
  case (Cons c str)
  let ?p = "cursor_pos v" and ?e = "vga_entry (color_code v) c"
  let ?v = "sync_cursor (v\<lparr>buffer := (buffer v)[?p := ?e], cursor_pos := ?p + 1\<rparr>)"
  have len: "length (buffer v) = 2000" and p: "?p < 2000" using Cons.prems(1,2) by (simp_all add: vga_ok_def)
  have "write_u8 c v = Inr ?v" using Cons.prems p by (intro write_u8_plain) simp_all
  then have run: "vga_write (c # str) v = vga_write str ?v" by (simp add: vga_write_def)
  have ok: "vga_ok ?v" using len p by (simp add: vga_ok_def)
  obtain v' where v': "vga_write str ?v = Inr v'" "vga_ok v'" "color_code v' = color_code v"
    "cursor_pos v' = ?p + 1 + length str" "str \<noteq> [] \<longrightarrow> cursor_shown v'"
    "buffer v' = take (?p + 1) ((buffer v)[?p := ?e]) @ map (vga_entry (color_code v)) str @
      drop (?p + 1 + length str) ((buffer v)[?p := ?e])"
    using Cons.IH [OF ok] Cons.prems(2,3) by auto
  have "cursor_shown v'" using v'(1,5) sync_cursor_shown [of "v\<lparr>buffer := (buffer v)[?p := ?e], cursor_pos := ?p + 1\<rparr>"] p
    by (cases str) (simp_all add: vga_write_def)
  moreover have "take (?p + 1) ((buffer v)[?p := ?e]) = take ?p (buffer v) @ [?e]"
    using len p by (simp add: take_Suc_conv_app_nth)
  ultimately show ?case using v' run by simp
qed (simp add: vga_write_def)

section \<open>Properties\<close>

text \<open>Writing, setting the color and clearing, as the kernel uses the console.\<close>

datatype console_op = Write "nat list" | SetColor color color bool | Clear

fun console_step :: "console_op \<Rightarrow> vga \<Rightarrow> vga res" where
  "console_step (Write text) v = vga_write text v"
| "console_step (SetColor fg bg b) v = set_color fg bg b v"
| "console_step Clear v = clear v"

lemma console_step_ok: "vga_ok v \<Longrightarrow> \<exists>v'. console_step x v = Inr v' \<and> vga_ok v'"
proof (cases x)
  case (SetColor fg bg b)
  then show "vga_ok v \<Longrightarrow> ?thesis" using make_color_code_ok [of fg bg b] by (auto simp: set_color_def vga_ok_def)
next
  case Clear
  then show "vga_ok v \<Longrightarrow> ?thesis" by (auto simp: clear_def set_cursor_pos_def u16_mul_def vga_ok_def Let_def)
qed (use vga_write_ok in simp)

text \<open>The panic handler does not panic itself.\<close>

lemma panic_handler_ok:
  assumes "vga_ok v"
  shows "\<exists>v'. panic_handler message location v = Inr v' \<and> vga_ok v'"
proof -
  obtain v1 where v1: "clear v = Inr v1" "vga_ok v1" using console_step_ok [OF assms, of Clear] by auto
  obtain v2 where v2: "set_color Red Black True v1 = Inr v2" "vga_ok v2"
    using console_step_ok [OF v1(2), of "SetColor Red Black True"] by auto
  show ?thesis unfolding panic_handler_def v1(1) v2(1) rbind_Inr by (rule vga_write_ok [OF v2(2)])
qed

text \<open>C23. The console never panics: from \<^verbatim>\<open>VGABuffer::init\<close> on, whatever bytes are written, and however often
  the color is set and the screen cleared in between, no index into the screen is out of bounds and no
  counter overflows; the cursor stays on the screen or just behind its last cell.\<close>

theorem console_never_panics:
  "\<exists>v v'. vga_init = Inr v \<and> rfold console_step ops v = Inr v' \<and>
     length (buffer v') = 2000 \<and> cursor_pos v' \<le> 2000"
proof -
  have run: "\<exists>v'. rfold console_step ops v = Inr v' \<and> vga_ok v'" if "vga_ok v" for v
    using that
  proof (induction ops arbitrary: v)
    case (Cons x ops)
    obtain u where "console_step x v = Inr u" "vga_ok u" using console_step_ok [OF Cons.prems] by blast
    with Cons.IH show ?case by simp
  qed simp
  obtain c where "make_color_code Black Black False = Inr c" using make_color_code_ok by blast
  then obtain v where "vga_init = Inr v" "vga_ok v" by (simp add: vga_init_def vga_ok_def)
  then show ?thesis using run by (auto simp: vga_ok_def)
qed

text \<open>C24. Text is shown where it is written.  Writing characters that fit on the rest of the screen and
  are neither newline nor backspace puts them, in order and in the current color, into the cells from
  the cursor on, changes no other cell, and leaves the cursor behind the last one, with its position
  sent to the controller.  When the text fills the last cell, everything written after it is
  discarded, newlines included.\<close>

theorem text_is_displayed:
  assumes "vga_ok v" "str \<noteq> []" "cursor_pos v + length str \<le> 2000" "\<forall>c \<in> set str. c \<noteq> 10 \<and> c \<noteq> 8"
  shows "\<exists>v'. vga_write str v = Inr v' \<and> cursor_pos v' = cursor_pos v + length str \<and> cursor_shown v' \<and>
    buffer v' = take (cursor_pos v) (buffer v) @ map (vga_entry (color_code v)) str @
      drop (cursor_pos v + length str) (buffer v) \<and>
    (cursor_pos v + length str = 2000 \<longrightarrow> (\<forall>more. vga_write more v' = Inr v'))"
proof -
  have full: "vga_write more u = Inr u" if "cursor_pos u = 2000" for more u
    using that by (induction more) (simp_all add: vga_write_def write_u8_def)
  show ?thesis using vga_write_plain [OF assms(1,3,4)] assms(2) full by auto
qed

theorem text_is_displayed_witness:
  "\<exists>v'. vga_write [75, 111, 101] \<lparr>color_code = 7, cursor_pos = 80, buffer = replicate 2000 0, port_out = []\<rparr> = Inr v' \<and>
     take 3 (drop 80 (buffer v')) = [0x74B, 0x76F, 0x765] \<and> cursor_shown v'"
  using text_is_displayed [of "\<lparr>color_code = 7, cursor_pos = 80, buffer = replicate 2000 0, port_out = []\<rparr>" "[75, 111, 101]"]
  by (auto simp: vga_ok_def vga_entry_def)

text \<open>A newline ends the current line: it moves the cursor to the start of the next line, and from the
  last line it scrolls, that is every line moves up by one, the last line becomes blank and the cursor
  goes to its start.  At the start of a line it does nothing.\<close>

theorem newline_ends_line:
  assumes "vga_ok v" "cursor_pos v < 2000"
  shows "if cursor_pos v mod 80 = 0 then write_u8 10 v = Inr v
    else if cursor_pos v < 1920 then write_u8 10 v = Inr (v\<lparr>cursor_pos := (cursor_pos v div 80 + 1) * 80\<rparr>)
    else \<exists>v'. write_u8 10 v = Inr v' \<and> cursor_pos v' = 1920 \<and> cursor_shown v' \<and>
      buffer v' = drop 80 (buffer v) @ replicate 80 (vga_entry (color_code v) 0)"
proof -
  let ?p = "cursor_pos v"
  have c: "ceil_to ?p 80 = (if ?p mod 80 = 0 then ?p else (?p div 80 + 1) * 80)"
    by (metis ceil_to_def round_up_eq zero_less_numeral)
  show ?thesis
  proof (cases "?p mod 80 = 0")
    case True
    then show ?thesis using write_u8_newline [OF assms] assms(2) c by simp
  next
    case False
    have "?p < 1920 \<longleftrightarrow> ?p div 80 < 24" by (simp add: div_less_iff_less_mult)
    moreover have "?p div 80 < 25" using assms(2) by (simp add: div_less_iff_less_mult)
    ultimately have "ceil_to ?p 80 = 2000 \<longleftrightarrow> \<not> ?p < 1920" using False c by auto
    then show ?thesis
      using False c write_u8_newline [OF assms] assms scroll_up_ok [of "v\<lparr>cursor_pos := 2000\<rparr>"]
      by (auto simp: vga_ok_def)
  qed
qed

theorem newline_ends_line_witness:
  "write_u8 10 \<lparr>color_code = 7, cursor_pos = 85, buffer = replicate 2000 0, port_out = []\<rparr> =
     Inr \<lparr>color_code = 7, cursor_pos = 160, buffer = replicate 2000 0, port_out = []\<rparr>"
  using newline_ends_line [of "\<lparr>color_code = 7, cursor_pos = 85, buffer = replicate 2000 0, port_out = []\<rparr>"]
  by (simp add: vga_ok_def)

end
