(* ===== verification/Monitor.thy ===== *)
theory Monitor
  imports Keyboard Vga
begin

text \<open>
  From the keyboard interrupt to the screen: the driver of \<^verbatim>\<open>src/src/drivers/ps2.rs\<close> and the loop of
  \<^verbatim>\<open>src/src/io/monitor.rs\<close>.

  The interrupt handler turns a byte of the controller into a packet and pushes it on a ring buffer;
  the monitor pops packets, lets the virtual keyboard make key events of them and writes the characters
  of the pressed keys to the console.  The ring buffer is of the crate \<^verbatim>\<open>ringbuf\<close>: its operations are a
  record, and what the crate documents of them is the locale \<^term>\<open>ring_buffer\<close>.
\<close>

section \<open>The driver\<close>

text \<open>\<^verbatim>\<open>HeapRb::new\<close>, and \<^verbatim>\<open>try_push\<close> and \<^verbatim>\<open>try_pop\<close> of its halves.  A packet that does not fit is given back.\<close>

record 'q ring_lib =
  rb_new :: "nat \<Rightarrow> 'q"
  rb_try_push :: "packet \<Rightarrow> 'q \<Rightarrow> packet option \<times> 'q"
  rb_try_pop :: "'q \<Rightarrow> packet option \<times> 'q"

text \<open>The buffer is kept with the half that writes to it; the other half refers to the same one.\<close>

record 'q ps2_keyboard_src =
  cur_sc :: sc1
  prod :: 'q

record 'q ps2 =
  KEYBOARD_SRC :: "'q ps2_keyboard_src option"
  KEYBOARD :: "virt_keyboard option"

definition ps2_init :: "'q ring_lib \<Rightarrow> 'q ps2 \<Rightarrow> 'q ps2" where
  "ps2_init R s =
     (let key_buffer = rb_new R 128;
          s = (case KEYBOARD_SRC s of None \<Rightarrow> s\<lparr>KEYBOARD_SRC := Some \<lparr>cur_sc = Normal, prod = key_buffer\<rparr>\<rparr> | Some _ \<Rightarrow> s)
      in case KEYBOARD s of None \<Rightarrow> s\<lparr>KEYBOARD := Some virt_keyboard_new\<rparr> | Some _ \<Rightarrow> s)"

definition ps2_keyboard_handler :: "'q ring_lib \<Rightarrow> nat \<Rightarrow> 'q ps2 \<Rightarrow> 'q ps2 res" where
  "ps2_keyboard_handler R byte s =
     (case KEYBOARD_SRC s of None \<Rightarrow> Inr s
      | Some src \<Rightarrow>
          rbind (sc1_parse (cur_sc src) byte) (\<lambda>(packet, sc).
          let src = src\<lparr>cur_sc := sc\<rparr> in
          case packet of None \<Rightarrow> Inr (s\<lparr>KEYBOARD_SRC := Some src\<rparr>)
          | Some p \<Rightarrow> Inr (s\<lparr>KEYBOARD_SRC := Some (src\<lparr>prod := snd (rb_try_push R p (prod src))\<rparr>)\<rparr>)))"

text \<open>\<^verbatim>\<open>next\<close> of the keyboard; there is one only after \<^verbatim>\<open>init\<close>.\<close>

definition ps2_next :: "'q ring_lib \<Rightarrow> 'q ps2 \<Rightarrow> (key_event option \<times> 'q ps2) res" where
  "ps2_next R s =
     rbind (rexpect (KEYBOARD_SRC s)) (\<lambda>src.
     rbind (rexpect (KEYBOARD s)) (\<lambda>virt.
     let (packet, q) = rb_try_pop R (prod src);
         s = s\<lparr>KEYBOARD_SRC := Some (src\<lparr>prod := q\<rparr>)\<rparr>
     in case packet of None \<Rightarrow> Inr (None, s)
        | Some p \<Rightarrow> rbind (virt_parse p virt) (\<lambda>(ke, virt). Inr (ke, s\<lparr>KEYBOARD := Some virt\<rparr>))))"

section \<open>The monitor\<close>

text \<open>A round of the loop of \<^verbatim>\<open>Monitor::start\<close>, over any keyboard.\<close>

definition monitor_step :: "('k \<Rightarrow> (key_event option \<times> 'k) res) \<Rightarrow> 'k \<times> vga \<Rightarrow> ('k \<times> vga) res" where
  "monitor_step kb_next = (\<lambda>(kb, console).
     rbind (kb_next kb) (\<lambda>(ke, kb).
     rbind (case ke of None \<Rightarrow> Inr None | Some ke \<Rightarrow> ketoa ke) (\<lambda>ascii.
     case ascii of None \<Rightarrow> Inr (kb, console)
     | Some c \<Rightarrow> rbind (write_u8 c console) (\<lambda>console. Inr (kb, console)))))"

text \<open>Interrupts come between the rounds of the loop, in any order.\<close>

datatype input_event = KeyByte nat | Round

fun input_step :: "'q ring_lib \<Rightarrow> input_event \<Rightarrow> 'q ps2 \<times> vga \<Rightarrow> ('q ps2 \<times> vga) res" where
  "input_step R (KeyByte byte) (s, v) = rbind (ps2_keyboard_handler R byte s) (\<lambda>s. Inr (s, v))"
| "input_step R Round sv = monitor_step (ps2_next R) sv"

section \<open>What was typed\<close>

text \<open>The packets the bytes stand for, and the characters packets stand for, given whether a shift key is
  held and whether caps lock is on.\<close>

fun packets :: "input_event list \<Rightarrow> packet list" where
  "packets [] = []"
| "packets (KeyByte byte # es) = (case parse_normal byte of None \<Rightarrow> packets es | Some p \<Rightarrow> p # packets es)"
| "packets (Round # es) = packets es"

definition shift_after :: "packet \<Rightarrow> bool \<Rightarrow> bool" where
  "shift_after p sh = (if fst p = KEY_LEFTSHIFT \<or> fst p = KEY_RIGHTSHIFT then snd p else sh)"

definition caps_after :: "packet \<Rightarrow> bool \<Rightarrow> bool" where
  "caps_after p caps = (if fst p = KEY_CAPSLOCK \<and> snd p then \<not> caps else caps)"

fun typed :: "bool \<Rightarrow> bool \<Rightarrow> packet list \<Rightarrow> nat list" where
  "typed sh caps [] = []"
| "typed sh caps (p # ps) =
     (let sh = shift_after p sh; caps = caps_after p caps
      in (case (if snd p then key_char (caps \<noteq> sh) (fst p) else None) of None \<Rightarrow> typed sh caps ps
          | Some c \<Rightarrow> c # typed sh caps ps))"

text \<open>The buffer has room for every packet at the time it comes, \<^term>\<open>n\<close> being in it at the start.\<close>

fun has_room :: "nat \<Rightarrow> input_event list \<Rightarrow> bool" where
  "has_room n [] \<longleftrightarrow> True"
| "has_room n (KeyByte byte # es) \<longleftrightarrow>
     (case parse_normal byte of None \<Rightarrow> has_room n es | Some _ \<Rightarrow> n < 128 \<and> has_room (n + 1) es)"
| "has_room n (Round # es) \<longleftrightarrow> has_room (n - 1) es"

lemma input_cases:
  obtains (quiet) byte where "e = KeyByte byte" "parse_normal byte = None"
    | (key) byte p where "e = KeyByte byte" "parse_normal byte = Some p"
    | (idle) "e = Round" "ps = []"
    | (takes) p ps1 where "e = Round" "ps = p # ps1"
  by (metis input_event.exhaust list.exhaust option.exhaust)

text \<open>What the crate documents: a first-in first-out queue that refuses a packet when it is full.\<close>

locale ring_buffer =
  fixes R :: "'q ring_lib" and contents :: "'q \<Rightarrow> packet list" and capacity :: "'q \<Rightarrow> nat"
  assumes new_ring: "0 < n \<Longrightarrow> contents (rb_new R n) = [] \<and> capacity (rb_new R n) = n"
    and push_room: "length (contents q) < capacity q \<Longrightarrow>
      \<exists>q'. rb_try_push R p q = (None, q') \<and> contents q' = contents q @ [p] \<and> capacity q' = capacity q"
    and push_full: "length (contents q) = capacity q \<Longrightarrow>
      \<exists>q'. rb_try_push R p q = (Some p, q') \<and> contents q' = contents q \<and> capacity q' = capacity q"
    and pop_empty: "contents q = [] \<Longrightarrow>
      \<exists>q'. rb_try_pop R q = (None, q') \<and> contents q' = [] \<and> capacity q' = capacity q"
    and pop_first: "contents q = p # ps \<Longrightarrow>
      \<exists>q'. rb_try_pop R q = (Some p, q') \<and> contents q' = ps \<and> capacity q' = capacity q"
begin

text \<open>The driver with a queue of packets, the keyboard with its flags, and the console.\<close>

definition listening :: "packet list \<Rightarrow> bool \<Rightarrow> bool \<Rightarrow> vga \<Rightarrow> 'q ps2 \<times> vga \<Rightarrow> bool" where
  "listening ps sh caps v st \<longleftrightarrow> vga_ok v \<and>
     (\<exists>q vk. st = (\<lparr>KEYBOARD_SRC = Some \<lparr>cur_sc = Normal, prod = q\<rparr>, KEYBOARD = Some vk\<rparr>, v) \<and>
        contents q = ps \<and> capacity q = 128 \<and> (\<forall>p \<in> set ps. fst p \<le> KEYCODE_MAX) \<and> length (states vk) = 2 \<and>
        (has_modifier (modifier vk) SHIFT \<longleftrightarrow> sh) \<and> (has_modifier (modifier vk) CAPSLOCK \<longleftrightarrow> caps))"

lemma listening_init:
  "vga_ok v \<Longrightarrow> listening [] False False v (ps2_init R \<lparr>KEYBOARD_SRC = None, KEYBOARD = None\<rparr>, v)"
  using new_ring [of 128]
  by (simp add: listening_def ps2_init_def virt_keyboard_new_def STATES_LEN_def KEYCODE_MAX_def has_modifier_bit)

lemma handler_listening:
  assumes "listening ps sh caps v st"
  shows "parse_normal byte = None \<Longrightarrow> input_step R (KeyByte byte) st = Inr st"
    and "parse_normal byte = Some p \<Longrightarrow> length ps < 128 \<Longrightarrow>
      \<exists>st'. input_step R (KeyByte byte) st = Inr st' \<and> listening (ps @ [p]) sh caps v st'"
    and "parse_normal byte = Some p \<Longrightarrow> length ps = 128 \<Longrightarrow>
      \<exists>st'. input_step R (KeyByte byte) st = Inr st' \<and> listening ps sh caps v st'"
proof -
  from assms obtain q vk where st: "st = (\<lparr>KEYBOARD_SRC = Some \<lparr>cur_sc = Normal, prod = q\<rparr>, KEYBOARD = Some vk\<rparr>, v)"
    and q: "contents q = ps" "capacity q = 128" by (auto simp: listening_def)
  show "parse_normal byte = None \<Longrightarrow> input_step R (KeyByte byte) st = Inr st"
    by (simp add: st ps2_keyboard_handler_def sc1_parse_def)
  show "\<exists>st'. input_step R (KeyByte byte) st = Inr st' \<and> listening (ps @ [p]) sh caps v st'"
    if p: "parse_normal byte = Some p" and room: "length ps < 128"
  proof -
    obtain q' where "rb_try_push R p q = (None, q')" "contents q' = ps @ [p]" "capacity q' = 128"
      using push_room [of q p] room q by auto
    then show ?thesis using assms p parse_normal_key [of byte "fst p" "snd p"] q
      by (simp add: st ps2_keyboard_handler_def sc1_parse_def listening_def ball_Un)
  qed
  show "\<exists>st'. input_step R (KeyByte byte) st = Inr st' \<and> listening ps sh caps v st'"
    if p: "parse_normal byte = Some p" and full: "length ps = 128"
  proof -
    obtain q' where "rb_try_push R p q = (Some p, q')" "contents q' = ps" "capacity q' = 128"
      using push_full [of q p] full q by auto
    then show ?thesis using assms p q by (simp add: st ps2_keyboard_handler_def sc1_parse_def listening_def)
  qed
qed

lemma round_idle:
  assumes "listening [] sh caps v st"
  shows "\<exists>st'. input_step R Round st = Inr st' \<and> listening [] sh caps v st'"
proof -
  from assms obtain q vk where st: "st = (\<lparr>KEYBOARD_SRC = Some \<lparr>cur_sc = Normal, prod = q\<rparr>, KEYBOARD = Some vk\<rparr>, v)"
    and q: "contents q = []" "capacity q = 128" by (auto simp: listening_def)
  obtain q' where "rb_try_pop R q = (None, q')" "contents q' = []" "capacity q' = 128"
    using pop_empty [OF q(1)] q(2) by auto
  then show ?thesis using assms q by (simp add: st monitor_step_def ps2_next_def listening_def)
qed

text \<open>A round takes the first packet and writes its character.\<close>

lemma round_takes:
  assumes "listening (p # ps) sh caps v st"
  shows "\<exists>v' st'. input_step R Round st = Inr st' \<and> listening ps (shift_after p sh) (caps_after p caps) v' st' \<and>
    (\<forall>more. vga_write (typed sh caps (p # more)) v = vga_write (typed (shift_after p sh) (caps_after p caps) more) v')"
proof -
  from assms obtain q vk where st: "st = (\<lparr>KEYBOARD_SRC = Some \<lparr>cur_sc = Normal, prod = q\<rparr>, KEYBOARD = Some vk\<rparr>, v)"
    and q: "contents q = p # ps" "capacity q = 128" and k: "fst p \<le> KEYCODE_MAX" "\<forall>p \<in> set ps. fst p \<le> KEYCODE_MAX"
    and vk: "length (states vk) = 2" "has_modifier (modifier vk) SHIFT \<longleftrightarrow> sh" "has_modifier (modifier vk) CAPSLOCK \<longleftrightarrow> caps"
    and v: "vga_ok v" by (auto simp: listening_def)
  obtain q' where q': "rb_try_pop R q = (Some p, q')" "contents q' = ps" "capacity q' = 128"
    using pop_first [OF q(1)] q(2) by auto
  let ?vk = "vk\<lparr>states := view_set (states vk) (fst p) (snd p), modifier := update_modifier p (modifier vk)\<rparr>"
  let ?c = "if snd p then key_char (caps_after p caps \<noteq> shift_after p sh) (fst p) else None"
  have flags: "has_modifier (update_modifier p (modifier vk)) SHIFT \<longleftrightarrow> shift_after p sh"
    "has_modifier (update_modifier p (modifier vk)) CAPSLOCK \<longleftrightarrow> caps_after p caps"
    using vk(2,3) by (simp_all add: update_modifier_flags shift_after_def caps_after_def)
  have nxt: "ps2_next R (fst st) = Inr (Some (virt_event p ?vk), \<lparr>KEYBOARD_SRC = Some \<lparr>cur_sc = Normal, prod = q'\<rparr>, KEYBOARD = Some ?vk\<rparr>)"
    by (simp add: st ps2_next_def q' virt_parse_def virt_update_ok [OF k(1) vk(1)])
  have ketoa: "ketoa (virt_event p ?vk) = Inr ?c" using ketoa_event [OF k(1), of ?vk] flags by simp
  obtain v' where v': "(case ?c of None \<Rightarrow> Inr v | Some c \<Rightarrow> write_u8 c v) = Inr v'" "vga_ok v'"
    using v write_u8_ok [OF v] by (cases ?c) auto
  let ?st = "(\<lparr>KEYBOARD_SRC = Some \<lparr>cur_sc = Normal, prod = q'\<rparr>, KEYBOARD = Some ?vk\<rparr>, v')"
  have "monitor_step (ps2_next R) st = Inr ?st"
  proof (cases ?c)
    case None
    then show ?thesis using nxt ketoa v' by (simp add: monitor_step_def st)
  next
    case (Some c)
    then show ?thesis using nxt ketoa v' by (simp add: monitor_step_def st)
  qed
  moreover have "listening ps (shift_after p sh) (caps_after p caps) v' ?st"
    using q' k(2) vk(1) flags v'(2) by (simp add: listening_def)
  moreover have "vga_write (typed sh caps (p # more)) v = vga_write (typed (shift_after p sh) (caps_after p caps) more) v'" for more
    using v' by (cases ?c) (simp_all add: vga_write_def Let_def)
  ultimately show ?thesis by auto
qed

text \<open>However rounds and interrupts interleave, what will have been shown in the end does not change.\<close>

lemma input_run:
  assumes "listening ps sh caps v st" "has_room (length ps) es"
  shows "\<exists>ps' sh' caps' v' st'. rfold (input_step R) es st = Inr st' \<and> listening ps' sh' caps' v' st' \<and>
    vga_write (typed sh caps (ps @ packets es)) v = vga_write (typed sh' caps' ps') v' \<and>
    length ps' \<le> length ps + length (packets es)"
  using assms
proof (induction es arbitrary: ps sh caps v st)
  case (Cons e es)
  show ?case
  proof (cases rule: input_cases [where e = e and ps = ps])
    case quiet
    then show ?thesis using Cons.IH [OF Cons.prems(1)] Cons.prems(2) handler_listening(1) [OF Cons.prems(1)] by simp
  next
    case (key byte p)
    then obtain st1 where "input_step R e st = Inr st1" "listening (ps @ [p]) sh caps v st1"
      using handler_listening(2) [OF Cons.prems(1) key(2)] Cons.prems(2) by auto
    then show ?thesis using Cons.IH [of "ps @ [p]" sh caps v st1] Cons.prems(2) key by simp
  next
    case idle
    then obtain st1 where "input_step R e st = Inr st1" "listening [] sh caps v st1"
      using round_idle Cons.prems(1) by blast
    then show ?thesis using Cons.IH [of "[]" sh caps v st1] Cons.prems(2) idle by simp
  next
    case (takes p ps1)
    then obtain v1 st1 where st1: "input_step R e st = Inr st1"
      "listening ps1 (shift_after p sh) (caps_after p caps) v1 st1"
      "\<And>more. vga_write (typed sh caps (p # more)) v = vga_write (typed (shift_after p sh) (caps_after p caps) more) v1"
      using round_takes Cons.prems(1) by blast
    then show ?thesis using Cons.IH [OF st1(2)] Cons.prems(2) takes by fastforce
  qed
qed auto

lemma drain:
  assumes "listening ps sh caps v st" "length ps \<le> n"
  shows "\<exists>sh' caps' v' st'. rfold (input_step R) (replicate n Round) st = Inr st' \<and> listening [] sh' caps' v' st' \<and>
    vga_write (typed sh caps ps) v = Inr v'"
  using assms
proof (induction n arbitrary: ps sh caps v st)
  case 0
  then show ?case by (auto simp: vga_write_def)
next
  case (Suc n)
  show ?case
  proof (cases ps)
    case Nil
    then obtain st1 where "input_step R Round st = Inr st1" "listening [] sh caps v st1"
      using round_idle Suc.prems(1) by blast
    then show ?thesis using Suc.IH [of "[]" sh caps v st1] Nil by simp
  next
    case (Cons p ps1)
    then obtain v1 st1 where st1: "input_step R Round st = Inr st1"
      "listening ps1 (shift_after p sh) (caps_after p caps) v1 st1"
      "\<And>more. vga_write (typed sh caps (p # more)) v = vga_write (typed (shift_after p sh) (caps_after p caps) more) v1"
      using round_takes Suc.prems(1) by blast
    then show ?thesis using Suc.IH [OF st1(2)] Suc.prems(2) Cons by simp
  qed
qed

lemma input_shown:
  assumes "vga_ok v" "has_room 0 es" "length (packets es) \<le> n"
  shows "\<exists>s v'. rfold (input_step R) (es @ replicate n Round) (ps2_init R \<lparr>KEYBOARD_SRC = None, KEYBOARD = None\<rparr>, v) =
    Inr (s, v') \<and> vga_write (typed False False (packets es)) v = Inr v'"
proof -
  obtain ps sh caps v1 st1 where run: "rfold (input_step R) es (ps2_init R \<lparr>KEYBOARD_SRC = None, KEYBOARD = None\<rparr>, v) = Inr st1"
    and st1: "listening ps sh caps v1 st1" and eq: "vga_write (typed False False (packets es)) v = vga_write (typed sh caps ps) v1"
    and len: "length ps \<le> length (packets es)"
    using input_run [OF listening_init [OF assms(1)], of es] assms(2) by auto
  obtain sh' caps' v' st' where "rfold (input_step R) (replicate n Round) st1 = Inr st'" "listening [] sh' caps' v' st'"
    "vga_write (typed sh caps ps) v1 = Inr v'"
    using drain [OF st1] len assms(3) by (meson le_trans)
  then show ?thesis using run eq by (auto simp: rfold_append listening_def)
qed

lemma input_step_listening:
  assumes "listening ps sh caps v st" "length ps \<le> 128"
  shows "\<exists>ps' sh' caps' v' st'. input_step R e st = Inr st' \<and> listening ps' sh' caps' v' st' \<and> length ps' \<le> 128"
proof (cases rule: input_cases [where e = e and ps = ps])
  case quiet
  then show ?thesis using handler_listening(1) [OF assms(1) quiet(2)] assms by blast
next
  case (key byte p)
  show ?thesis
  proof (cases "length ps = 128")
    case True
    then show ?thesis using handler_listening(3) [OF assms(1) key(2)] key(1) assms(2) by blast
  next
    case False
    then have "length ps < 128" "length (ps @ [p]) \<le> 128" using assms(2) by simp_all
    then show ?thesis using handler_listening(2) [OF assms(1) key(2)] key(1) by blast
  qed
next
  case idle
  then show ?thesis using round_idle assms by blast
next
  case (takes p ps1)
  moreover have "length ps1 \<le> 128" using takes(2) assms(2) by simp
  ultimately show ?thesis using round_takes assms(1) by blast
qed

lemma input_stays_listening:
  assumes "listening ps sh caps v st" "length ps \<le> 128"
  shows "\<exists>ps' sh' caps' v' st'. rfold (input_step R) es st = Inr st' \<and> listening ps' sh' caps' v' st' \<and> length ps' \<le> 128"
  using assms
proof (induction es arbitrary: ps sh caps v st)
  case (Cons e es)
  obtain ps1 sh1 caps1 v1 st1 where "input_step R e st = Inr st1" "listening ps1 sh1 caps1 v1 st1" "length ps1 \<le> 128"
    using input_step_listening [OF Cons.prems] by blast
  then show ?case using Cons.IH [of ps1 sh1 caps1 v1 st1] by simp
qed auto

lemma input_typed:
  assumes "vga_ok v"
  shows "\<exists>q vk v'. rfold (input_step R) es (ps2_init R \<lparr>KEYBOARD_SRC = None, KEYBOARD = None\<rparr>, v) =
      Inr (\<lparr>KEYBOARD_SRC = Some \<lparr>cur_sc = Normal, prod = q\<rparr>, KEYBOARD = Some vk\<rparr>, v') \<and>
    length (contents q) \<le> 128 \<and> (\<forall>p \<in> set (contents q). fst p \<le> KEYCODE_MAX) \<and> length (states vk) = STATES_LEN \<and> vga_ok v'"
proof -
  have two: "STATES_LEN = 2" by (simp add: STATES_LEN_def KEYCODE_MAX_def)
  obtain ps sh caps v' st where "rfold (input_step R) es (ps2_init R \<lparr>KEYBOARD_SRC = None, KEYBOARD = None\<rparr>, v) = Inr st"
    "listening ps sh caps v' st" "length ps \<le> 128"
    using input_stays_listening [OF listening_init [OF assms], of es] by auto
  then show ?thesis unfolding listening_def two by clarsimp
qed

end

section \<open>A buffer\<close>

text \<open>A list with its capacity.\<close>

definition list_ring :: "(nat \<times> packet list) ring_lib" where
  "list_ring = \<lparr>rb_new = (\<lambda>n. (n, [])),
     rb_try_push = (\<lambda>p (n, ps). if length ps < n then (None, (n, ps @ [p])) else (Some p, (n, ps))),
     rb_try_pop = (\<lambda>(n, ps). case ps of [] \<Rightarrow> (None, (n, ps)) | p # ps \<Rightarrow> (Some p, (n, ps)))\<rparr>"

interpretation lr: ring_buffer list_ring snd fst
  by unfold_locales (auto simp: list_ring_def)

section \<open>Properties\<close>


definition blank_screen :: vga where
  "blank_screen = \<lparr>color_code = 7, cursor_pos = 0, buffer = replicate 2000 0, port_out = []\<rparr>"

lemma blank_screen_ok: "vga_ok blank_screen"
  by (simp add: blank_screen_def vga_ok_def)

text \<open>Shift, k, shift released, o, then e while caps lock is on.\<close>

definition typing_koe :: "input_event list" where
  "typing_koe = [KeyByte 0x2A, KeyByte 0x25, Round, KeyByte 0xA5, KeyByte 0xAA, KeyByte 0x18, Round, KeyByte 0x98,
     KeyByte 0xE0, KeyByte 0x3A, Round, KeyByte 0xBA, KeyByte 0x12]"

lemma typing_koe_text: "typed False False (packets typing_koe) = [75, 111, 69]" "has_room 0 typing_koe"
  "length (packets typing_koe) = 9"
  by code_simp+


text \<open>C22. The input path is well-typed.  Whatever bytes the controller delivers, also when the buffer
  overflows, neither the interrupt handler nor the monitor panics: the scan code state stays
  \<^verbatim>\<open>Normal\<close>, whose \<^verbatim>\<open>todo!\<close> siblings are never met, every packet in the buffer has a key of at most
  \<^verbatim>\<open>KEYCODE_MAX\<close>, at most 128 wait, the key states are two words and the console keeps its shape.\<close>

theorem input_well_typed:
  assumes "ring_buffer R contents capacity" "vga_ok v"
  shows "\<exists>q vk v'. rfold (input_step R) es (ps2_init R \<lparr>KEYBOARD_SRC = None, KEYBOARD = None\<rparr>, v) =
      Inr (\<lparr>KEYBOARD_SRC = Some \<lparr>cur_sc = Normal, prod = q\<rparr>, KEYBOARD = Some vk\<rparr>, v') \<and>
    length (contents q) \<le> 128 \<and> (\<forall>p \<in> set (contents q). fst p \<le> KEYCODE_MAX) \<and> length (states vk) = STATES_LEN \<and> vga_ok v'"
  by (rule ring_buffer.input_typed [OF assms])

theorem input_well_typed_witness:
  "\<exists>q vk v'. rfold (input_step list_ring) (replicate 200 (KeyByte 0x1E))
       (ps2_init list_ring \<lparr>KEYBOARD_SRC = None, KEYBOARD = None\<rparr>, blank_screen) =
      Inr (\<lparr>KEYBOARD_SRC = Some \<lparr>cur_sc = Normal, prod = q\<rparr>, KEYBOARD = Some vk\<rparr>, v') \<and> length (snd q) \<le> 128"
  using input_well_typed [OF lr.ring_buffer_axioms blank_screen_ok, of "replicate 200 (KeyByte 0x1E)"] by blast

end
