(* ===== verification/Interrupt.thy ===== *)
theory Interrupt
  imports Descriptors Interrupt_Guard Monitor
begin

text \<open>
  Interrupts: the controllers of \<^verbatim>\<open>src/src/interrupt/pic.rs\<close>, the handlers of
  \<^verbatim>\<open>src/src/interrupt/handler.rs\<close> and \<^verbatim>\<open>init\<close> of \<^verbatim>\<open>src/src/interrupt.rs\<close>.

  What was sent to the ports is a list of ports and bytes, the last one first, as in the console.  What
  a port answers is up to the device: it is a function \<^term>\<open>dev\<close> of what was sent.  The locale
  \<^term>\<open>pic_pair\<close> says of it what the manual of the controller documents: in between two initialisations
  a read of the data port answers the mask.
\<close>

section \<open>The controllers\<close>

type_synonym port_log = "(nat \<times> nat) list"

definition VECTOR_DF :: nat where "VECTOR_DF = 8"
definition VECTOR_PF :: nat where "VECTOR_PF = 14"
definition VECTOR_PIC :: nat where "VECTOR_PIC = 32"

definition PIC1_CMD_PORT :: nat where "PIC1_CMD_PORT = 0x20"
definition PIC1_DATA_PORT :: nat where "PIC1_DATA_PORT = 0x21"
definition PIC2_CMD_PORT :: nat where "PIC2_CMD_PORT = 0xA0"
definition PIC2_DATA_PORT :: nat where "PIC2_DATA_PORT = 0xA1"
definition ICW1 :: nat where "ICW1 = 0b00010001"
definition ICW2_PIC1 :: nat where "ICW2_PIC1 = VECTOR_PIC"
definition ICW2_PIC2 :: nat where "ICW2_PIC2 = VECTOR_PIC + 8"
definition ICW3_PIC1 :: nat where "ICW3_PIC1 = 0b100"
definition ICW3_PIC2 :: nat where "ICW3_PIC2 = 2"
definition ICW4 :: nat where "ICW4 = 0b00000001"
definition EOI :: nat where "EOI = 0x20"

lemmas pic_defs = VECTOR_DF_def VECTOR_PF_def VECTOR_PIC_def PIC1_CMD_PORT_def PIC1_DATA_PORT_def PIC2_CMD_PORT_def
  PIC2_DATA_PORT_def ICW1_def ICW2_PIC1_def ICW2_PIC2_def ICW3_PIC1_def ICW3_PIC2_def ICW4_def EOI_def

definition send :: "nat \<Rightarrow> nat \<Rightarrow> port_log \<Rightarrow> port_log" where
  "send port value log = (port, value) # log"

definition init_pic :: "port_log \<Rightarrow> port_log" where
  "init_pic log =
     (let log = send PIC1_CMD_PORT ICW1 log;
          log = send PIC2_CMD_PORT ICW1 log;
          log = send PIC1_DATA_PORT ICW2_PIC1 log;
          log = send PIC2_DATA_PORT ICW2_PIC2 log;
          log = send PIC1_DATA_PORT ICW3_PIC1 log;
          log = send PIC2_DATA_PORT ICW3_PIC2 log;
          log = send PIC1_DATA_PORT ICW4 log
      in send PIC2_DATA_PORT ICW4 log)"

definition mask_all :: "port_log \<Rightarrow> port_log" where
  "mask_all log = send PIC2_DATA_PORT 0xff (send PIC1_DATA_PORT 0xff log)"

definition unmask_all :: "port_log \<Rightarrow> port_log" where
  "unmask_all log = send PIC2_DATA_PORT 0 (send PIC1_DATA_PORT 0 log)"

definition ack :: "nat \<Rightarrow> port_log \<Rightarrow> port_log" where
  "ack irq log =
     (if irq < 8 then send PIC1_CMD_PORT EOI log
      else if irq < 16 then send PIC2_CMD_PORT EOI log
      else log)"

definition mask_irq :: "(port_log \<Rightarrow> nat \<Rightarrow> nat) \<Rightarrow> nat \<Rightarrow> port_log \<Rightarrow> port_log" where
  "mask_irq dev irq log =
     (if irq < 16 then
        let (irq_offset, pic) = (if irq < 8 then (irq, PIC1_DATA_PORT) else (irq - 8, PIC2_DATA_PORT));
            m = dev log pic
        in send pic (m OR 2 ^ irq_offset) log
      else log)"

definition unmask_irq :: "(port_log \<Rightarrow> nat \<Rightarrow> nat) \<Rightarrow> nat \<Rightarrow> port_log \<Rightarrow> port_log" where
  "unmask_irq dev irq log =
     (if irq < 16 then
        let (irq_offset, pic) = (if irq < 8 then (irq, PIC1_DATA_PORT) else (irq - 8, PIC2_DATA_PORT));
            m = dev log pic
        in send pic (m AND (255 - 2 ^ irq_offset)) log
      else log)"

section \<open>The handlers\<close>

definition DATA_PORT :: nat where "DATA_PORT = 0x60"

text \<open>\<^verbatim>\<open>hlt\<close> does not return.\<close>

datatype handled = Returns vga | Halts vga

definition page_fault_handler :: "vga \<Rightarrow> handled res" where
  "page_fault_handler v = rbind (vga_write (map of_char ''Page Fault!'') v) (\<lambda>v. Inr (Halts v))"

definition double_fault_handler :: "vga \<Rightarrow> handled res" where
  "double_fault_handler v = rbind (vga_write (map of_char ''Double Fault!'') v) (\<lambda>v. Inr (Halts v))"

definition exception_handler :: "nat \<Rightarrow> vga \<Rightarrow> handled res" where
  "exception_handler vec v =
     (if vec = VECTOR_PF then page_fault_handler v
      else if vec = VECTOR_DF then double_fault_handler v
      else Inr (Returns v))"

definition irq_handler ::
  "'q ring_lib \<Rightarrow> (port_log \<Rightarrow> nat \<Rightarrow> nat) \<Rightarrow> nat \<Rightarrow> port_log \<times> 'q ps2 \<Rightarrow> (port_log \<times> 'q ps2) res" where
  "irq_handler R dev vec = (\<lambda>(log, s).
     rbind (u8_sub vec VECTOR_PIC) (\<lambda>irq.
     rbind (if irq = 1 then ps2_keyboard_handler R (dev log DATA_PORT) s else Inr s) (\<lambda>s.
     Inr (ack irq log, s))))"

section \<open>Initialisation\<close>

record cpu =
  cpu_irq :: irq_state
  cpu_idt :: "interrupt_desc list"
  cpu_idtr_limit :: nat
  cpu_log :: port_log

definition interrupt_init :: "bit_field \<Rightarrow> (port_log \<Rightarrow> nat \<Rightarrow> nat) \<Rightarrow> nat list \<Rightarrow> cpu \<Rightarrow> cpu res" where
  "interrupt_init B dev isr c =
     (let c = c\<lparr>cpu_idtr_limit := init_idtr\<rparr> in
      rbind (init_exn_handlers B isr (cpu_idt c)) (\<lambda>idt.
      rbind (init_irq_handlers B isr idt) (\<lambda>idt.
      let c = c\<lparr>cpu_idt := idt\<rparr>;
          c = c\<lparr>cpu_log := init_pic (cpu_log c)\<rparr>;
          c = c\<lparr>cpu_log := mask_all (cpu_log c)\<rparr>;
          c = c\<lparr>cpu_log := unmask_irq dev 1 (cpu_log c)\<rparr>
      in Inr (c\<lparr>cpu_irq := enable_interrupt (cpu_irq c)\<rparr>))))"

section \<open>What the controllers do\<close>

text \<open>A controller waits for its four initialisation words, keeps the vector of the second one, and
  from then on takes a byte on its data port as its mask.\<close>

datatype pic_state = Off | Wants2 | Wants3 nat | Wants4 nat | Ready nat nat

definition pic_write :: "nat \<Rightarrow> nat \<Rightarrow> nat \<times> nat \<Rightarrow> pic_state \<Rightarrow> pic_state" where
  "pic_write cmd data px st =
     (if fst px = cmd then (if bit (snd px) 4 then Wants2 else st)
      else if fst px = data then
        (case st of Off \<Rightarrow> Off | Wants2 \<Rightarrow> Wants3 (snd px) | Wants3 v \<Rightarrow> Wants4 v | Wants4 v \<Rightarrow> Ready v 0
         | Ready v m \<Rightarrow> Ready v (snd px))
      else st)"

primrec pic_after :: "nat \<Rightarrow> nat \<Rightarrow> port_log \<Rightarrow> pic_state" where
  "pic_after cmd data [] = Off"
| "pic_after cmd data (px # log) = pic_write cmd data px (pic_after cmd data log)"

definition pic1 :: "port_log \<Rightarrow> pic_state" where
  "pic1 = pic_after 0x20 0x21"

definition pic2 :: "port_log \<Rightarrow> pic_state" where
  "pic2 = pic_after 0xA0 0xA1"

text \<open>The vector a request line is delivered with, if at all.\<close>

definition delivered :: "port_log \<Rightarrow> nat \<Rightarrow> nat option" where
  "delivered log irq =
     (case (if irq < 8 then pic1 log else pic2 log) of
        Ready v m \<Rightarrow> if irq < 16 \<and> \<not> bit m (irq mod 8) then Some (v + irq mod 8) else None
      | _ \<Rightarrow> None)"

lemma all_but_one: "i < 8 \<Longrightarrow> j < 8 \<Longrightarrow> bit (255 - 2 ^ i :: nat) j \<longleftrightarrow> j \<noteq> i"
proof -
  have "\<forall>i \<in> set [0..<8]. \<forall>j \<in> set [0..<8]. bit (255 - 2 ^ i :: nat) j \<longleftrightarrow> j \<noteq> i" by code_simp
  then show "i < 8 \<Longrightarrow> j < 8 \<Longrightarrow> ?thesis" by simp
qed

lemma only_line_1: "irq < 16 \<Longrightarrow> (if irq < 8 then \<not> bit (0xfd :: nat) (irq mod 8) else \<not> bit (0xff :: nat) (irq mod 8)) \<longleftrightarrow> irq = 1"
proof -
  have "\<forall>irq \<in> set [0..<16]. (if irq < 8 then \<not> bit (0xfd :: nat) (irq mod 8) else \<not> bit (0xff :: nat) (irq mod 8)) \<longleftrightarrow> irq = 1"
    by code_simp
  then show "irq < 16 \<Longrightarrow> ?thesis" by simp
qed

lemma ack_pics: "pic1 (ack irq log) = pic1 log" "pic2 (ack irq log) = pic2 log"
  by (simp_all add: ack_def send_def pic1_def pic2_def pic_write_def pic_defs bit_numeral_rec bit_0)

locale pic_pair =
  fixes dev :: "port_log \<Rightarrow> nat \<Rightarrow> nat"
  assumes read_mask1: "pic1 log = Ready v m \<Longrightarrow> dev log 0x21 = m"
    and read_mask2: "pic2 log = Ready v m \<Longrightarrow> dev log 0xA1 = m"
begin

lemma unmask_state:
  assumes "pic1 log = Ready v m" "pic2 log = Ready w k"
  shows "irq < 8 \<Longrightarrow> pic1 (unmask_irq dev irq log) = Ready v (m AND (255 - 2 ^ irq)) \<and> pic2 (unmask_irq dev irq log) = Ready w k"
    "8 \<le> irq \<Longrightarrow> irq < 16 \<Longrightarrow>
      pic1 (unmask_irq dev irq log) = Ready v m \<and> pic2 (unmask_irq dev irq log) = Ready w (k AND (255 - 2 ^ (irq - 8)))"
  using assms read_mask1 [OF assms(1)] read_mask2 [OF assms(2)]
  by (simp_all add: unmask_irq_def pic1_def pic2_def send_def pic_write_def pic_defs)

lemma mask_state:
  assumes "pic1 log = Ready v m" "pic2 log = Ready w k"
  shows "irq < 8 \<Longrightarrow> pic1 (mask_irq dev irq log) = Ready v (m OR 2 ^ irq) \<and> pic2 (mask_irq dev irq log) = Ready w k"
    "8 \<le> irq \<Longrightarrow> irq < 16 \<Longrightarrow>
      pic1 (mask_irq dev irq log) = Ready v m \<and> pic2 (mask_irq dev irq log) = Ready w (k OR 2 ^ (irq - 8))"
  using assms read_mask1 [OF assms(1)] read_mask2 [OF assms(2)]
  by (simp_all add: mask_irq_def pic1_def pic2_def send_def pic_write_def pic_defs)

text \<open>Masking and unmasking affect the delivery of exactly one line.\<close>

lemma delivered_after:
  assumes "pic1 log = Ready v m" "pic2 log = Ready w k" "irq < 16" "line < 16"
  shows "delivered (unmask_irq dev irq log) line =
      (if line = irq then Some ((if irq < 8 then v else w) + irq mod 8) else delivered log line)"
    and "delivered (mask_irq dev irq log) line = (if line = irq then None else delivered log line)"
proof -
  have mod: "i mod 8 = (if i < 8 then i else i - 8)" if "i < 16" for i :: nat using that by (simp add: mod_if)
  show "delivered (unmask_irq dev irq log) line =
      (if line = irq then Some ((if irq < 8 then v else w) + irq mod 8) else delivered log line)"
    using assms(3,4) unmask_state [OF assms(1,2), of irq] assms(1,2)
    by (cases "irq < 8"; cases "line < 8") (auto simp: delivered_def mod bit_and_iff all_but_one)
  show "delivered (mask_irq dev irq log) line = (if line = irq then None else delivered log line)"
    using assms(3,4) mask_state [OF assms(1,2), of irq] assms(1,2)
    by (cases "irq < 8"; cases "line < 8") (auto simp: delivered_def mod bit_or_iff bit_exp_iff)
qed

lemma init_pics:
  "pic1 (unmask_irq dev 1 (mask_all (init_pic log))) = Ready 32 0xfd \<and> pic2 (unmask_irq dev 1 (mask_all (init_pic log))) = Ready 40 0xff"
proof -
  have "pic1 (mask_all (init_pic log)) = Ready 32 0xff" "pic2 (mask_all (init_pic log)) = Ready 40 0xff"
    by (simp_all add: mask_all_def init_pic_def pic1_def pic2_def send_def pic_write_def pic_defs Let_def bit_numeral_rec bit_0)
  from unmask_state(1) [OF this, of 1] show ?thesis by simp
qed

end

definition pic_device :: "port_log \<Rightarrow> nat \<Rightarrow> nat" where
  "pic_device log port = (case (if port = 0x21 then pic1 log else pic2 log) of Ready v m \<Rightarrow> m | _ \<Rightarrow> 0)"

interpretation pd: pic_pair pic_device
  by unfold_locales (simp_all add: pic_device_def)

section \<open>Properties\<close>

text \<open>C18. Initialising the interrupts enables the keyboard and nothing else.  From the empty table
  \<^verbatim>\<open>init\<close> never panics and ends with interrupts on.  Of the sixteen request lines exactly line 1 is
  delivered, with vector 33, above the vectors of the exceptions.  Each vector from 0 to 21 and from 32
  to 47 that has an entry point has a present gate of the kernel to exactly that address, in the
  segment 8, and every other vector has none.\<close>

theorem interrupts_initialised:
  assumes "bit_region B" "pic_pair dev" "length isr = 256" "\<forall>addr \<in> set isr. addr < 2 ^ 64" "cpu_idt c = IDT"
  shows "\<exists>c'. interrupt_init B dev isr c = Inr c' \<and> interrupts_on (cpu_irq c') \<and>
    (\<forall>irq<16. delivered (cpu_log c') irq = (if irq = 1 then Some 33 else None)) \<and>
    (\<forall>i<256. if isr ! i \<noteq> 0 \<and> (i \<le> 21 \<or> 32 \<le> i \<and> i \<le> 47) then kernel_gate (cpu_idt c' ! i) (isr ! i)
      else cpu_idt c' ! i = desc_null)"
proof -
  obtain idt0 idt where idt: "init_exn_handlers B isr IDT = Inr idt0" "init_irq_handlers B isr idt0 = Inr idt"
    and gates: "\<forall>i<256. if isr ! i \<noteq> 0 \<and> (i \<le> 21 \<or> 32 \<le> i \<and> i \<le> 47) then kernel_gate (idt ! i) (isr ! i) else idt ! i = desc_null"
    using gates_filled [OF assms(1,3,4)] by blast
  let ?log = "unmask_irq dev 1 (mask_all (init_pic (cpu_log c)))"
  have lines: "delivered ?log irq = (if irq = 1 then Some 33 else None)" if "irq < 16" for irq
    using pic_pair.init_pics [OF assms(2), of "cpu_log c"] only_line_1 [of irq] that by (auto simp: delivered_def split: if_splits)
  obtain c' where "interrupt_init B dev isr c = Inr c'" "cpu_log c' = ?log" "cpu_idt c' = idt" "interrupts_on (cpu_irq c')"
    using idt assms(5) by (simp add: interrupt_init_def Let_def enable_interrupt_def)
  then show ?thesis using gates lines by auto
qed

definition boot_cpu :: cpu where
  "boot_cpu = \<lparr>cpu_irq = \<lparr>interrupts_on = False, guard_cnt = 0\<rparr>, cpu_idt = IDT, cpu_idtr_limit = 0, cpu_log = []\<rparr>"

theorem interrupts_initialised_witness:
  "\<exists>c'. interrupt_init word_fields pic_device (replicate 256 0xFFFFFFFF80123456) boot_cpu = Inr c' \<and>
     delivered (cpu_log c') 1 = Some 33 \<and> kernel_gate (cpu_idt c' ! 33) 0xFFFFFFFF80123456 \<and> cpu_idt c' ! 48 = desc_null"
proof -
  let ?isr = "replicate 256 0xFFFFFFFF80123456 :: nat list"
  have "length ?isr = 256" "\<forall>addr \<in> set ?isr. addr < 2 ^ 64" "cpu_idt boot_cpu = IDT" by (simp_all add: boot_cpu_def)
  from interrupts_initialised [OF wf.bit_region_axioms pd.pic_pair_axioms this]
  obtain c' where c': "interrupt_init word_fields pic_device ?isr boot_cpu = Inr c'"
    and lines: "\<forall>irq<16. delivered (cpu_log c') irq = (if irq = 1 then Some 33 else None)"
    and gates: "\<forall>i<256. if ?isr ! i \<noteq> 0 \<and> (i \<le> 21 \<or> 32 \<le> i \<and> i \<le> 47) then kernel_gate (cpu_idt c' ! i) (?isr ! i)
      else cpu_idt c' ! i = desc_null"
    by blast
  have "delivered (cpu_log c') 1 = Some 33" using lines by simp
  moreover have "kernel_gate (cpu_idt c' ! 33) 0xFFFFFFFF80123456" using gates [rule_format, of 33] by simp
  moreover have "cpu_idt c' ! 48 = desc_null" using gates [rule_format, of 48] by simp
  ultimately show ?thesis using c' by blast
qed



text \<open>A request is acknowledged once, to the controller of its line, and the keyboard is served on
  vector 33 only.  The vectors below 32 are not for this handler: the subtraction overflows.\<close>

lemma irq_handled:
  assumes "vec < 48" "\<forall>src. KEYBOARD_SRC s = Some src \<longrightarrow> cur_sc src = Normal"
  shows "vec < 32 \<Longrightarrow> irq_handler R dev vec (log, s) = Inl Overflow"
    and "32 \<le> vec \<Longrightarrow> \<exists>s'. irq_handler R dev vec (log, s) = Inr ((if vec < 40 then 0x20 else 0xA0, 0x20) # log, s') \<and>
      (if vec = 33 then ps2_keyboard_handler R (dev log DATA_PORT) s = Inr s' else s' = s)"
proof -
  obtain s' where "ps2_keyboard_handler R (dev log DATA_PORT) s = Inr s'"
    using assms(2) by (cases "KEYBOARD_SRC s"; cases "parse_normal (dev log DATA_PORT)")
      (auto simp: ps2_keyboard_handler_def sc1_parse_def Let_def)
  then show "32 \<le> vec \<Longrightarrow> \<exists>s'. irq_handler R dev vec (log, s) = Inr ((if vec < 40 then 0x20 else 0xA0, 0x20) # log, s') \<and>
      (if vec = 33 then ps2_keyboard_handler R (dev log DATA_PORT) s = Inr s' else s' = s)"
    using assms(1) by (auto simp: irq_handler_def ack_def send_def pic_defs u8_sub_def)
qed (simp add: irq_handler_def pic_defs u8_sub_def)

text \<open>Page faults and double faults halt, and every other exception is ignored; none panics.\<close>

lemma exception_handled:
  assumes "vga_ok v"
  shows "\<exists>v'. vga_ok v' \<and> exception_handler vec v = Inr (if vec = 14 \<or> vec = 8 then Halts v' else Returns v')"
proof -
  obtain v1 where "vga_write (map of_char ''Page Fault!'') v = Inr v1" and v1: "vga_ok v1"
    using vga_write_ok [OF assms] by blast
  then have pf: "page_fault_handler v = Inr (Halts v1)" unfolding page_fault_handler_def by (simp only: rbind_Inr)
  obtain v2 where "vga_write (map of_char ''Double Fault!'') v = Inr v2" and v2: "vga_ok v2"
    using vga_write_ok [OF assms] by blast
  then have df: "double_fault_handler v = Inr (Halts v2)" unfolding double_fault_handler_def by (simp only: rbind_Inr)
  show ?thesis unfolding exception_handler_def pf df using v1 v2 assms by (auto simp: pic_defs)
qed

end
