(* ===== verification/Spec2Isabelle.thy ===== *)
theory Spec2Isabelle
  imports Mem_Init Paging_Stale Memory_Map Global_Alloc Interrupt
begin

text \<open>
  A verification development for koe-os, a small x86-64 kernel in Rust (\<^verbatim>\<open>src/src/\<close>).

  \<^bold>\<open>The kernel and its parts.\<close>  The boot loader enters \<^verbatim>\<open>kmain\<close>, which starts the memory management
  (\<^verbatim>\<open>mem::init\<close>), the interrupts (\<^verbatim>\<open>interrupt::init\<close>) and the drivers (\<^verbatim>\<open>drivers::init\<close>).  Memory management is a stack:
  the boot-time blocks (\<^verbatim>\<open>mem/phy/memblock.rs\<close>) hand free memory over to the buddy system
  (\<^verbatim>\<open>mem/phy/buddy.rs\<close>, on the trees of \<^verbatim>\<open>common/array_forest.rs\<close>), which the physical memory manager
  (\<^verbatim>\<open>mem/phy.rs\<close>) wraps; page tables (\<^verbatim>\<open>mem/paging.rs\<close>) and the page allocator (\<^verbatim>\<open>mem/alloc/page.rs\<close>) take
  their pages from it; the slab allocator (\<^verbatim>\<open>mem/alloc/slab.rs\<close>) takes pages from the page allocator, and the
  global allocator (\<^verbatim>\<open>mem/alloc.rs\<close>) sends small layouts to slabs and large ones to pages.  A key press is
  an interrupt (\<^verbatim>\<open>interrupt/handler.rs\<close>) whose handler (\<^verbatim>\<open>drivers/ps2.rs\<close>) queues a packet; the monitor
  (\<^verbatim>\<open>io/monitor.rs\<close>) takes packets, turns them into characters (\<^verbatim>\<open>io/keyboard.rs\<close>) and writes these to the
  console (\<^verbatim>\<open>drivers/vga.rs\<close>).

  \<^bold>\<open>Conventions.\<close>  The build has overflow checks and debug assertions, so every panic is a value: an
  operation that can panic returns \<^typ>\<open>'a res\<close>, a sum whose left side is the kind of panic.  A \<^verbatim>\<open>usize\<close> is a
  natural number with checked operations; page table entries, bit sets, the screen and counters that wrap are
  machine words.  State is passed explicitly: what the code mutates through a reference is an argument and a
  result.  Loops are recursive functions with termination proofs; no model needs fuel.  Locks and once-cells
  guard single objects on one processor and are left out, except where interrupts interleave.

  \<^bold>\<open>Theories\<close> (and the source each models, below \<^verbatim>\<open>src/src/\<close>).
  \<^item> \<^verbatim>\<open>Koe_Prelude\<close>: panics, checked arithmetic, powers of two, layouts, bit views; the collections
    of simplification rules.
  \<^item> \<^verbatim>\<open>Mem_Addr\<close> (\<^verbatim>\<open>mem/addr.rs\<close>, \<^verbatim>\<open>mem/virt.rs\<close>): addresses, ranges, pages and the address spaces.  Ranges
    are sets of bytes: subtraction, contained and overlapped pages are exact; the remap window is a bijection.
  \<^item> \<^verbatim>\<open>Array_Forest\<close>, \<^verbatim>\<open>Buddy_Tree\<close>, \<^verbatim>\<open>Frame_Alloc\<close>, \<^verbatim>\<open>Buddy\<close> (\<^verbatim>\<open>common/array_forest.rs\<close>,
    \<^verbatim>\<open>mem/phy/buddy.rs\<close>): cursors in the array of trees, the tree as an abstract level function with its
    invariant, the contract \<^term>\<open>frame_allocator\<close> of an allocator of aligned blocks with what every client may
    rely on, and the buddy system, which satisfies it.
  \<^item> \<^verbatim>\<open>Memblock\<close> (\<^verbatim>\<open>mem/phy/memblock.rs\<close>): sorted merged blocks, their initialisation from a memory map, bump
    reservation, freezing, and the split into aligned pieces.
  \<^item> \<^verbatim>\<open>Phy\<close>, \<^verbatim>\<open>Phy_Boot\<close> (\<^verbatim>\<open>mem/phy.rs\<close>): the record of frames, again a \<^term>\<open>frame_allocator\<close>; start-up from
    the boot-time blocks, exact when the blocks are well placed, and a machine on which they are not.
  \<^item> \<^verbatim>\<open>Paging_Entry\<close>, \<^verbatim>\<open>Paging\<close>, \<^verbatim>\<open>Paging_Walk\<close>, \<^verbatim>\<open>Paging_Map\<close>, \<^verbatim>\<open>Paging_Stale\<close>, \<^verbatim>\<open>Paging_Init\<close>
    (\<^verbatim>\<open>mem/paging.rs\<close>, \<^verbatim>\<open>mem/paging/\<close>): entries as words; tables in a memory of words; the walker; a typing of
    frames by level as the invariant under which tables form a tree; \<^verbatim>\<open>translate\<close> as a walk of that tree;
    \<^verbatim>\<open>map\<close> over any source of table frames (locale \<^term>\<open>table_source\<close>); the first map built at start-up.
  \<^item> \<^verbatim>\<open>Page_Alloc\<close>, \<^verbatim>\<open>Page_Ptr\<close> (\<^verbatim>\<open>mem/alloc/page.rs\<close>): pages by ranges and by pointers, a
    \<^term>\<open>table_source\<close>; \<^verbatim>\<open>Memory_Map\<close>: memory maps with tables from this allocator.
  \<^item> \<^verbatim>\<open>Object_Alloc\<close>, \<^verbatim>\<open>Slab\<close>, \<^verbatim>\<open>Global_Alloc\<close> (\<^verbatim>\<open>mem/alloc/slab.rs\<close>, \<^verbatim>\<open>mem/alloc.rs\<close>): the contract
    \<^term>\<open>object_allocator\<close> of a heap and its client theorem; slabs and caches; the global allocator, which
    satisfies the contract.
  \<^item> \<^verbatim>\<open>Descriptors\<close> (\<^verbatim>\<open>interrupt.rs\<close>, \<^verbatim>\<open>mem.rs\<close>, \<^verbatim>\<open>boot/multiboot2_header.rs\<close>): segments, gates, the boot
    header; \<^verbatim>\<open>Mem_Init\<close> (\<^verbatim>\<open>mem.rs\<close>): \<^verbatim>\<open>mem::init\<close>.
  \<^item> \<^verbatim>\<open>Vga\<close> (\<^verbatim>\<open>drivers/vga.rs\<close>, \<^verbatim>\<open>common/panic.rs\<close>), \<^verbatim>\<open>Keyboard\<close> (\<^verbatim>\<open>io/keyboard.rs\<close>, scan codes of \<^verbatim>\<open>drivers/ps2.rs\<close>, the characters
    of \<^verbatim>\<open>io/monitor.rs\<close>), \<^verbatim>\<open>Monitor\<close> (\<^verbatim>\<open>drivers/ps2.rs\<close>, \<^verbatim>\<open>io/monitor.rs\<close>): the console, the keyboard and the
    way from one to the other, with interrupts between the rounds of the loop in any order.
  \<^item> \<^verbatim>\<open>Interrupt_Guard\<close> (\<^verbatim>\<open>interrupt.rs\<close>): the guard, instruction by instruction, as a step relation;
    \<^verbatim>\<open>Interrupt\<close> (\<^verbatim>\<open>interrupt.rs\<close>, \<^verbatim>\<open>interrupt/pic.rs\<close>, \<^verbatim>\<open>interrupt/handler.rs\<close>): tables, controllers, handlers.

  \<^bold>\<open>What the theorems show.\<close>  Safety of the allocators against any client, at each level of the stack:
  no panic, no overlap, nothing lost.  Exactness of each operation on each branch, errors included.  Round
  trips of reserving and freeing, of entries and flags, of address conversions.  Translation after mapping,
  for the new page and for every other address.  The state the start-up code leaves behind, and, in this theory,
  that the heap works on it.  The console never panics, typed text reaches it, guards keep interrupts off.  Where
  the code does not do what it means to, a theorem shows what it does instead: blocks of the largest order are
  never handed out and freed buddies never merge, memory in use at boot is handed out again when blocks are
  badly placed, new tables keep stale entries, a slab with one object counts as full, a full screen is
  never scrolled.

  \<^bold>\<open>Parameters.\<close>  Code outside the repository is an argument with named hypotheses, each shown to hold of a
  concrete instance: the intrusive lists (locale \<^term>\<open>slab_library\<close>, instance \<^term>\<open>plain_lib\<close>), the ring buffer
  (\<^term>\<open>ring_buffer\<close>, \<^term>\<open>list_ring\<close>), bit fields (\<^term>\<open>bit_region\<close>, \<^term>\<open>word_fields\<close>), the interrupt controllers
  (\<^term>\<open>pic_pair\<close>, \<^term>\<open>pic_device\<close>).  Linker symbols, the contents of memory before it is written, the table
  of entry points and the memory map of the boot loader are arguments.

  \<^bold>\<open>Bounds.\<close>  Physical memory is below 64 TiB, as the code's address space is; the number of frames the buddy
  system covers is therefore below \<open>2 ^ 40\<close> in every use.  Heap requests are aligned to at most a page.  Fewer than
  \<open>2 ^ 64\<close> guards are alive at a time.

  \<^bold>\<open>Not modelled.\<close>  \<^verbatim>\<open>common/ll.rs\<close> only adapts pointers to the traits of the list crate, whose lists are a
  parameter.  \<^verbatim>\<open>usr/proc.rs\<close> declares records that nothing uses.  \<^verbatim>\<open>main.rs\<close> and
  \<^verbatim>\<open>test.rs\<close> are sequences of calls into the modelled parts and into the standard library; the module
  lists hold no code.  Assembly (\<^verbatim>\<open>boot/boot.S\<close>, \<^verbatim>\<open>interrupt/handler.S\<close>, the bodies of \<^verbatim>\<open>common/pmio.rs\<close>) is
  represented by its effect: what is sent to a port is logged, what a port answers is an argument.
  \<^verbatim>\<open>RecursiveWalker\<close> is commented out in the source.  Spin locks, and with them a handler that waits for a
  lock its own processor holds, are not modelled.
\<close>

section \<open>From the boot loader's memory map to the heap\<close>


text \<open>A kernel image from 0 to 2 MiB and the memory map of two areas after it.\<close>

definition two_mib_kernel :: kernel_symbols where
  "two_mib_kernel = \<lparr>sym_image = \<lparr>PML4_TABLE = 0xFFFFFFFF80000000, PDPT_TABLES = 0xFFFFFFFF80002000,
     KERNEL_PD_TABLE = 0xFFFFFFFF80001000, kernel_end_vma = 0xFFFFFFFF80200000\<rparr>,
     KERNEL_START_VMA = 0xFFFFFFFF80000000, KERNEL_START_LMA = 0\<rparr>"

lemma two_mib_kernel_ok: "image_ok (sym_image two_mib_kernel)" "kernel_end_lma two_mib_kernel = Inr (Addr 0x200000)"
proof -
  show "image_ok (sym_image two_mib_kernel)" by (simp add: image_ok_def two_mib_kernel_def)
  show "kernel_end_lma two_mib_kernel = Inr (Addr 0x200000)"
    by (subst kernel_end_lma_ok) (simp_all add: two_mib_kernel_def KernelImageSpace_def uma_end)
qed


end
